(* ===== verification/Prelude.thy ===== *)
theory Prelude
  imports Main "HOL-Library.Word" "HOL-Library.AList" "HOL-Library.Monad_Syntax"
begin

text \<open>
  Shared vocabulary of the development: the machine integers of the Rust sources and their
  checked operations, the two ways a Rust function can fail, and the two map types of the
  standard library as association lists.

  \<^item> A call that may panic returns an \<open>option\<close>; \<open>None\<close> is the panic. The workspace is built with
    \<open>overflow-checks = true\<close>, so \<open>+\<close>, \<open>-\<close> and \<open>*\<close> on integers panic on overflow exactly where
    \<open>checked_add\<close>, \<open>checked_sub\<close> and \<open>checked_mul\<close> return \<open>None\<close>; one definition serves both.
  \<^item> A \<open>Result<T, E>\<close> is a value of \<open>'e + 't\<close>, with \<open>Inl\<close> for the error.
  \<^item> A \<open>HashMap\<close> is an association list with distinct keys whose order is not specified, a
    \<open>BTreeMap\<close> is an association list sorted by its keys.
\<close>

named_theorems checked_simps \<open>characteristic equations of the checked integer operations\<close>

type_synonym u8 = "8 word"
type_synonym u32 = "32 word"
type_synonym u64 = "64 word"
type_synonym u128 = "128 word"
type_synonym u256 = "256 word"
type_synonym bytes = "u8 list"

lemma mem_map_filter: "y \<in> set (List.map_filter f xs) \<longleftrightarrow> (\<exists>x \<in> set xs. f x = Some y)"
  by (induction xs) (auto simp: List.map_filter_simps split: option.splits)

lemma sorted_wrt_less_le_last:
  "sorted_wrt (<) xs \<Longrightarrow> x \<in> set xs \<Longrightarrow> x \<le> (last xs :: 'a::linorder)"
  by (induction xs) (auto simp: less_imp_le)

lemma upt_append_le: "i \<le> j \<Longrightarrow> j \<le> k \<Longrightarrow> [i ..< j] @ [j ..< k] = [i ..< k]"
  by (metis le_Suc_ex upt_add_eq_append)

section \<open>Checked unsigned arithmetic\<close>

definition checked_add :: "'a::len word \<Rightarrow> 'a word \<Rightarrow> 'a word option" where
  "checked_add a b = (if unat a + unat b < 2 ^ LENGTH('a) then Some (a + b) else None)"

definition checked_sub :: "'a::len word \<Rightarrow> 'a word \<Rightarrow> 'a word option" where
  "checked_sub a b = (if b \<le> a then Some (a - b) else None)"

definition checked_mul :: "'a::len word \<Rightarrow> 'a word \<Rightarrow> 'a word option" where
  "checked_mul a b = (if unat a * unat b < 2 ^ LENGTH('a) then Some (a * b) else None)"

definition checked_div :: "'a::len word \<Rightarrow> 'a word \<Rightarrow> 'a word option" where
  "checked_div a b = (if b = 0 then None else Some (a div b))"

definition checked_rem :: "'a::len word \<Rightarrow> 'a word \<Rightarrow> 'a word option" where
  "checked_rem a b = (if b = 0 then None else Some (a mod b))"

definition checked_pow :: "'a::len word \<Rightarrow> nat \<Rightarrow> 'a word option" where
  "checked_pow a n = (if unat a ^ n < 2 ^ LENGTH('a) then Some (a ^ n) else None)"

lemma unat_bound: "unat (w :: 'a::len word) < 2 ^ LENGTH('a)"
  by (rule unsigned_less)

lemma checked_add_Some [checked_simps]:
  "checked_add a b = Some c \<longleftrightarrow> unat c = unat a + unat b"
proof
  assume "checked_add a b = Some c"
  then show "unat c = unat a + unat b"
    by (auto simp: checked_add_def unat_word_ariths split: if_splits)
next
  assume *: "unat c = unat a + unat b"
  then have "unat a + unat b < 2 ^ LENGTH('a)"
    by (metis unat_bound)
  moreover from this * have "c = a + b"
    by (metis unat_add_lem word_unat_eq_iff)
  ultimately show "checked_add a b = Some c"
    by (simp add: checked_add_def)
qed

lemma checked_add_None [checked_simps]:
  "checked_add (a :: 'a::len word) b = None \<longleftrightarrow> 2 ^ LENGTH('a) \<le> unat a + unat b"
  by (simp add: checked_add_def)

lemma checked_sub_Some [checked_simps]:
  "checked_sub a b = Some c \<longleftrightarrow> unat a = unat c + unat b"
proof
  assume "checked_sub a b = Some c"
  then show "unat a = unat c + unat b"
    by (auto simp: checked_sub_def unat_sub word_le_nat_alt split: if_splits)
next
  assume *: "unat a = unat c + unat b"
  then have "b \<le> a" by (simp add: word_le_nat_alt)
  moreover from this * have "c = a - b"
    by (simp add: word_unat_eq_iff unat_sub)
  ultimately show "checked_sub a b = Some c"
    by (simp add: checked_sub_def)
qed

lemma checked_sub_None [checked_simps]:
  "checked_sub a b = None \<longleftrightarrow> unat a < unat b"
  by (auto simp: checked_sub_def word_le_nat_alt)

lemma checked_mul_Some [checked_simps]:
  "checked_mul a b = Some c \<longleftrightarrow> unat c = unat a * unat b"
proof
  assume "checked_mul a b = Some c"
  then show "unat c = unat a * unat b"
    by (auto simp: checked_mul_def unat_word_ariths split: if_splits)
next
  assume *: "unat c = unat a * unat b"
  then have "unat a * unat b < 2 ^ LENGTH('a)"
    by (metis unat_bound)
  moreover from this * have "c = a * b"
    by (metis unat_mult_lem word_unat_eq_iff)
  ultimately show "checked_mul a b = Some c"
    by (simp add: checked_mul_def)
qed

lemma checked_mul_None [checked_simps]:
  "checked_mul (a :: 'a::len word) b = None \<longleftrightarrow> 2 ^ LENGTH('a) \<le> unat a * unat b"
  by (simp add: checked_mul_def)

lemma checked_div_Some [checked_simps]:
  "checked_div a b = Some c \<longleftrightarrow> b \<noteq> 0 \<and> unat c = unat a div unat b"
  by (auto simp: checked_div_def unat_div word_unat_eq_iff)

lemma checked_div_None [checked_simps]: "checked_div a b = None \<longleftrightarrow> b = 0"
  by (simp add: checked_div_def)

lemma checked_rem_Some [checked_simps]:
  "checked_rem a b = Some c \<longleftrightarrow> b \<noteq> 0 \<and> unat c = unat a mod unat b"
  by (auto simp: checked_rem_def unat_mod word_unat_eq_iff)

lemma checked_rem_None [checked_simps]: "checked_rem a b = None \<longleftrightarrow> b = 0"
  by (simp add: checked_rem_def)

lemma unat_of_nat_lt: "n < 2 ^ LENGTH('a) \<Longrightarrow> unat (of_nat n :: 'a::len word) = n"
  by (simp add: unsigned_of_nat take_bit_nat_eq_self)

lemma unat_plus_one:
  assumes "w \<noteq> - 1"
  shows "unat (w + 1) = Suc (unat (w :: 'a::len word))"
proof -
  have "w + 1 \<noteq> 0" using assms by (metis add.inverse_unique add.commute)
  then have "unat (w + 1) \<noteq> 0" by (simp add: unat_eq_zero)
  then have "unat w + 1 \<noteq> 2 ^ LENGTH('a)" by (auto simp: unat_word_ariths)
  then have "unat w + 1 < 2 ^ LENGTH('a)" using unat_bound [of w] by linarith
  then show ?thesis by (simp add: unat_word_ariths)
qed

lemma unat_pow_lt:
  fixes a :: "'a::len word"
  assumes "unat a ^ n < 2 ^ LENGTH('a)"
  shows "unat (a ^ n) = unat a ^ n"
proof -
  have "unat (a ^ n) = (unat a ^ n) mod 2 ^ LENGTH('a)"
  proof (induction n)
    case 0
    show ?case by (cases "LENGTH('a)") simp_all
  next
    case (Suc n)
    then show ?case by (simp add: unat_word_ariths mod_mult_right_eq)
  qed
  with assms show ?thesis by simp
qed

lemma checked_pow_Some [checked_simps]:
  "checked_pow a n = Some c \<longleftrightarrow> unat c = unat a ^ n"
proof
  assume "checked_pow a n = Some c"
  then show "unat c = unat a ^ n"
    by (auto simp: checked_pow_def unat_pow_lt split: if_splits)
next
  assume *: "unat c = unat a ^ n"
  then have "unat a ^ n < 2 ^ LENGTH('a)"
    by (metis unat_bound)
  moreover from this * have "c = a ^ n"
    by (simp add: word_unat_eq_iff unat_pow_lt)
  ultimately show "checked_pow a n = Some c"
    by (simp add: checked_pow_def)
qed

lemma checked_pow_None [checked_simps]:
  "checked_pow (a :: 'a::len word) n = None \<longleftrightarrow> 2 ^ LENGTH('a) \<le> unat a ^ n"
  by (simp add: checked_pow_def)

lemma checked_add_zero [simp]: "checked_add a 0 = Some a" "checked_add 0 a = Some a"
  by (simp_all add: checked_simps)

lemma checked_sub_zero [simp]: "checked_sub a 0 = Some a"
  by (simp add: checked_simps)

text \<open>Division rounded up, as \<open>q\<close> or \<open>q + 1\<close> of the floor division.\<close>

lemma ceil_div_nat:
  fixes x d :: nat
  assumes "0 < d"
  shows "(x + (d - 1)) div d = x div d + (if x mod d = 0 then 0 else 1)"
proof -
  have "x + (d - 1) = x div d * d + (x mod d + (d - 1))" by simp
  then have "(x + (d - 1)) div d = x div d + (x mod d + (d - 1)) div d"
    using assms by (metis div_mult_self3 less_numeral_extra(3))
  also have "(x mod d + (d - 1)) div d = (if x mod d = 0 then 0 else 1)"
  proof (cases "x mod d = 0")
    case True
    with assms show ?thesis by simp
  next
    case False
    then have eq: "x mod d + (d - 1) = d + (x mod d - 1)" using assms by simp
    have lt: "x mod d - 1 < d" using assms by (simp add: less_imp_diff_less)
    have "(d + (x mod d - 1)) div d = (x mod d - 1) div d + 1"
      using assms by (intro div_add_self1) simp
    also have "(x mod d - 1) div d = 0" using lt by (rule div_less)
    finally show ?thesis using eq False by simp
  qed
  finally show ?thesis .
qed

section \<open>Results\<close>

text \<open>The \<open>?\<close> operator on a \<open>Result\<close>, and \<open>Option::ok_or\<close>.\<close>

definition res_bind :: "'e + 'a \<Rightarrow> ('a \<Rightarrow> 'e + 'b) \<Rightarrow> 'e + 'b" where
  "res_bind r f = (case r of Inl e \<Rightarrow> Inl e | Inr x \<Rightarrow> f x)"

definition ok_or :: "'a option \<Rightarrow> 'e \<Rightarrow> 'e + 'a" where
  "ok_or x e = (case x of None \<Rightarrow> Inl e | Some v \<Rightarrow> Inr v)"

definition unwrap_or :: "'a option \<Rightarrow> 'a \<Rightarrow> 'a" where
  "unwrap_or x d = (case x of None \<Rightarrow> d | Some v \<Rightarrow> v)"

lemma res_bind_simps [simp]:
  "res_bind (Inl e) f = Inl e" "res_bind (Inr x) f = f x"
  by (simp_all add: res_bind_def)

lemma res_bind_Inr_iff: "res_bind r f = Inr y \<longleftrightarrow> (\<exists>x. r = Inr x \<and> f x = Inr y)"
  by (cases r) simp_all

lemma ok_or_simps [simp]: "ok_or None e = Inl e" "ok_or (Some v) e = Inr v"
  by (simp_all add: ok_or_def)

lemma unwrap_or_simps [simp]: "unwrap_or None d = d" "unwrap_or (Some v) d = v"
  by (simp_all add: unwrap_or_def)

end
