(* ===== verification/Numbers.thy ===== *)
theory Numbers
  imports Prelude
begin

unbundle bit_operations_syntax

text \<open>
  Vocabulary shared by the numeric components: fixed-size arrays of machine words, loops that may
  panic, the result of a comparison, and the number of leading zeros of a word.

  An array access out of range panics, so \<open>arr_get\<close> and \<open>arr_set\<close> return an \<open>option\<close>. A \<open>for\<close> loop
  whose body may panic is \<open>fold_opt\<close>. The \<open>limbs\<close> of a number are its little-endian digits in base
  \<open>2 ^ 64\<close>; \<open>base\<close> is kept as a constant so that no proof unfolds the numeral.
\<close>

datatype ordering = Less | Equal | Greater

definition compare_by :: "'a::linorder \<Rightarrow> 'a \<Rightarrow> ordering" where
  "compare_by a b = (if a < b then Less else if a = b then Equal else Greater)"

lemma compare_by_iff [simp]:
  "compare_by a b = Less \<longleftrightarrow> a < b" "compare_by a b = Equal \<longleftrightarrow> a = b"
  "compare_by a b = Greater \<longleftrightarrow> b < a"
  by (auto simp: compare_by_def)

section \<open>Arrays and loops\<close>

definition arr_get :: "'a list \<Rightarrow> nat \<Rightarrow> 'a option" where
  "arr_get xs i = (if i < length xs then Some (xs ! i) else None)"

definition arr_set :: "'a list \<Rightarrow> nat \<Rightarrow> 'a \<Rightarrow> 'a list option" where
  "arr_set xs i v = (if i < length xs then Some (xs[i := v]) else None)"

fun fold_opt :: "('a \<Rightarrow> 's \<Rightarrow> 's option) \<Rightarrow> 'a list \<Rightarrow> 's \<Rightarrow> 's option" where
  "fold_opt f [] s = Some s"
| "fold_opt f (x # xs) s = Option.bind (f x s) (fold_opt f xs)"

lemma arr_get_Some [simp]: "i < length xs \<Longrightarrow> arr_get xs i = Some (xs ! i)"
  by (simp add: arr_get_def)

lemma arr_set_Some [simp]: "i < length xs \<Longrightarrow> arr_set xs i v = Some (xs[i := v])"
  by (simp add: arr_set_def)

lemma fold_opt_append:
  "fold_opt f (xs @ ys) s = Option.bind (fold_opt f xs s) (fold_opt f ys)"
  by (induction xs arbitrary: s) (auto split: Option.bind_splits)

text \<open>A loop that writes each cell of a range once.\<close>

lemma fold_opt_fill:
  assumes "\<And>i r. a \<le> i \<Longrightarrow> i < b \<Longrightarrow> length r = n \<Longrightarrow> r ! h i = s ! h i \<Longrightarrow> f i r = Some (r[h i := g i])"
    and "inj_on h {a ..< b}" and "\<And>i. a \<le> i \<Longrightarrow> i < b \<Longrightarrow> h i < n" and "length s = n" and "a \<le> b"
  shows "\<exists>r. fold_opt f [a ..< b] s = Some r \<and> length r = n
    \<and> (\<forall>i. a \<le> i \<and> i < b \<longrightarrow> r ! h i = g i) \<and> (\<forall>k. k \<notin> h ` {a ..< b} \<longrightarrow> r ! k = s ! k)"
  using assms(5,1,2,3)
proof (induction b rule: nat_induct_at_least)
  case base
  with assms(4) show ?case by auto
next
  case (Suc b)
  have "inj_on h {a ..< b}" using Suc.prems(2) by (rule inj_on_subset) auto
  then have "\<exists>r. fold_opt f [a ..< b] s = Some r \<and> length r = n
    \<and> (\<forall>i. a \<le> i \<and> i < b \<longrightarrow> r ! h i = g i) \<and> (\<forall>k. k \<notin> h ` {a ..< b} \<longrightarrow> r ! k = s ! k)"
    by (intro Suc.IH) (simp_all add: Suc.prems(1,3))
  then obtain r where r: "fold_opt f [a ..< b] s = Some r" "length r = n"
      "\<forall>i. a \<le> i \<and> i < b \<longrightarrow> r ! h i = g i" "\<forall>k. k \<notin> h ` {a ..< b} \<longrightarrow> r ! k = s ! k"
    by blast
  have out: "h b \<notin> h ` {a ..< b}"
  proof
    assume "h b \<in> h ` {a ..< b}"
    then obtain i where i: "a \<le> i" "i < b" "h b = h i" by auto
    have "b = i" by (rule inj_onD [OF Suc.prems(2) i(3)]) (use i Suc.hyps in simp_all)
    with i(2) show False by simp
  qed
  have "f b r = Some (r[h b := g b])"
    by (rule Suc.prems(1)) (use Suc.hyps r(2,4) out in simp_all)
  then have "fold_opt f [a ..< Suc b] s = Some (r[h b := g b])"
    using r(1) Suc.hyps by (simp add: fold_opt_append)
  moreover have "h b < n" using Suc.prems(3) Suc.hyps by simp
  moreover have "\<And>i. a \<le> i \<Longrightarrow> i < Suc b \<Longrightarrow> r[h b := g b] ! h i = g i"
    using r(2,3) out \<open>h b < n\<close> by (auto simp: less_Suc_eq nth_list_update)
  moreover have "\<And>k. k \<notin> h ` {a ..< Suc b} \<Longrightarrow> r[h b := g b] ! k = s ! k"
    using r(4) Suc.hyps by (auto simp: nth_list_update atLeastLessThanSuc)
  ultimately show ?case using r(2) by (intro exI [of _ "r[h b := g b]"]) simp
qed

section \<open>Limbs\<close>

definition base :: nat where "base = 2 ^ 64"

fun val :: "u64 list \<Rightarrow> nat" where
  "val [] = 0"
| "val (l # ls) = unat l + base * val ls"

definition limbs_of :: "nat \<Rightarrow> nat \<Rightarrow> u64 list" where
  "limbs_of k N = map (\<lambda>i. of_nat (N div base ^ i)) [0 ..< k]"

lemma base_pos [simp]: "0 < base" and base_nonzero [simp]: "base \<noteq> 0" and base_gt_1 [simp]: "1 < base"
  by (simp_all add: base_def)

lemma unat_lt_base [simp]: "unat (w :: u64) < base"
  using unat_bound [of w] by (simp add: base_def)

lemma unat_of_nat_base: "unat (of_nat n :: u64) = n mod base"
  by (simp add: unsigned_of_nat base_def take_bit_eq_mod)

lemma val_append: "val (xs @ ys) = val xs + base ^ length xs * val ys"
  by (induction xs) (simp_all add: algebra_simps)

lemma val_lt: "val xs < base ^ length xs"
proof (induction xs)
  case (Cons x xs)
  have "unat x + base * val xs < base * (val xs + 1)"
    by (simp add: algebra_simps)
  also have "\<dots> \<le> base * base ^ length xs"
    using Cons by (intro mult_le_mono) simp_all
  finally show ?case by simp
qed simp

lemma val_split: "val xs = val (take k xs) + base ^ min k (length xs) * val (drop k xs)"
  using val_append [of "take k xs" "drop k xs"] by (simp add: min.commute)

lemma val_drop: "k \<le> length xs \<Longrightarrow> val (drop k xs) = val xs div base ^ k"
  using val_split [of xs k] val_lt [of "take k xs"] by (simp add: min_absorb1)

lemma val_take: "k \<le> length xs \<Longrightarrow> val (take k xs) = val xs mod base ^ k"
  using val_split [of xs k] val_lt [of "take k xs"] by (simp add: min_absorb1)

lemma val_nth: "i < length xs \<Longrightarrow> unat (xs ! i) = val xs div base ^ i mod base"
proof -
  assume i: "i < length xs"
  then have "val xs div base ^ i = unat (xs ! i) + base * val (drop (Suc i) xs)"
    using val_drop [of i xs] by (simp flip: Cons_nth_drop_Suc)
  then show ?thesis by simp
qed

lemma nth_of_val: "i < length xs \<Longrightarrow> xs ! i = of_nat (val xs div base ^ i)"
  by (simp add: word_unat_eq_iff unat_of_nat_base val_nth)

lemma limbs_of_val: "xs = limbs_of (length xs) (val xs)"
  by (rule nth_equalityI) (simp_all add: limbs_of_def flip: nth_of_val)

lemma length_limbs_of [simp]: "length (limbs_of k N) = k"
  by (simp add: limbs_of_def)

lemma nth_limbs_of [simp]: "i < k \<Longrightarrow> limbs_of k N ! i = of_nat (N div base ^ i)"
  by (simp add: limbs_of_def)

lemma val_limbs_of: "val (limbs_of k N) = N mod base ^ k"
proof (induction k)
  case (Suc k)
  have "limbs_of (Suc k) N = limbs_of k N @ [of_nat (N div base ^ k)]"
    by (simp add: limbs_of_def)
  then have "val (limbs_of (Suc k) N) = N mod base ^ k + base ^ k * (N div base ^ k mod base)"
    by (simp add: val_append Suc unat_of_nat_base)
  then show ?case using mod_mult2_eq [of N "base ^ k" base] by (simp add: mult.commute)
qed (simp add: limbs_of_def)

lemma limbs_eqI: "length xs = length ys \<Longrightarrow> val xs = val ys \<Longrightarrow> xs = ys"
  using limbs_of_val [of xs] limbs_of_val [of ys] by simp

lemma val_replicate_0 [simp]: "val (replicate k 0) = 0"
  by (induction k) simp_all

lemma val_eq_0: "val xs = 0 \<longleftrightarrow> (\<forall>x \<in> set xs. x = 0)"
  by (induction xs) (auto simp: unat_eq_zero)

text \<open>Limb \<open>i\<close> of a number shifted right by \<open>s\<close> bits, from two neighbouring limbs.\<close>

lemma div_mod_two_limbs:
  fixes N P Q :: nat
  assumes "0 < P"
  shows "N div P mod (P * Q) = N mod (P * Q) div P + Q * (N div (P * Q) mod P)"
proof -
  have "N mod (P * Q) div P = N div P mod Q"
    using assms by (simp add: mod_mult2_eq)
  moreover have "N div P mod (Q * P) = Q * (N div P div Q mod P) + N div P mod Q"
    by (rule mod_mult2_eq)
  ultimately show ?thesis by (simp add: mult.commute div_mult2_eq)
qed

lemma limb_of_shifted:
  assumes "0 < s" "s < 64"
  shows "N div 2 ^ s mod base = N mod base div 2 ^ s + 2 ^ (64 - s) * (N div base mod 2 ^ s)"
proof -
  have "base = 2 ^ s * 2 ^ (64 - s)" using assms by (simp add: base_def flip: power_add)
  then show ?thesis using div_mod_two_limbs [of "2 ^ s" N "2 ^ (64 - s)"] by simp
qed

lemma unat_drop_bit_limb: "unat (drop_bit s (w :: u64)) = unat w div 2 ^ s"
  unfolding unsigned_drop_bit_eq using unat_bound [of w] by (simp add: drop_bit_eq_div take_bit_nat_eq_self)

lemma unat_push_bit_limb:
  assumes "s \<le> 64"
  shows "unat (push_bit (64 - s) (w :: u64)) = 2 ^ (64 - s) * (unat w mod 2 ^ s)"
proof -
  have "unat (push_bit (64 - s) w) = unat w * 2 ^ (64 - s) mod 2 ^ 64"
    unfolding unsigned_push_bit_eq by (simp add: push_bit_eq_mult take_bit_eq_mod)
  also have "(2::nat) ^ 64 = 2 ^ s * 2 ^ (64 - s)" using assms by (simp flip: power_add)
  also have "unat w * 2 ^ (64 - s) mod (2 ^ s * 2 ^ (64 - s)) = 2 ^ (64 - s) * (unat w mod 2 ^ s)"
    by (simp add: mod_mult_mult2 mult.commute)
  finally show ?thesis .
qed

section \<open>Leading zeros\<close>

lemma takeWhile_shorter:
  "\<exists>x \<in> set xs. P x \<Longrightarrow> length (takeWhile (\<lambda>x. \<not> P x) xs) < length xs"
  by (induction xs) auto

definition leading_zeros :: "'a::len word \<Rightarrow> nat" where
  "leading_zeros w = length (takeWhile (\<lambda>i. \<not> bit w i) (rev [0 ..< LENGTH('a)]))"

lemma leading_zeros_bounds:
  fixes w :: "'a::len word"
  assumes "w \<noteq> 0"
  shows "leading_zeros w < LENGTH('a)" "2 ^ (LENGTH('a) - leading_zeros w - 1) \<le> unat w"
    "unat w < 2 ^ (LENGTH('a) - leading_zeros w)"
proof -
  let ?xs = "rev [0 ..< LENGTH('a)]" and ?k = "leading_zeros w"
  obtain i where "bit w i" using assms by (metis bit_eqI bit_0_eq bot_apply bot_bool_def)
  then have "\<exists>i \<in> set ?xs. bit w i" using bit_imp_le_length [of w i] by (intro bexI [of _ i]) simp_all
  then have lt: "?k < LENGTH('a)"
    using takeWhile_shorter [of ?xs "bit w"] by (simp add: leading_zeros_def)
  have "bit w (?xs ! ?k)"
    using lt unfolding leading_zeros_def
    by (metis nth_length_takeWhile length_rev length_upt diff_zero)
  then have top: "bit w (LENGTH('a) - ?k - 1)" using lt by (simp add: rev_nth)
  have none: "\<not> bit w j" if "j \<ge> LENGTH('a) - ?k" for j
  proof (cases "j < LENGTH('a)")
    case True
    let ?i = "LENGTH('a) - 1 - j"
    have "?i < ?k" using that True by linarith
    then have "\<not> bit w (?xs ! ?i)"
      unfolding leading_zeros_def
      by (metis nth_mem set_takeWhileD takeWhile_nth)
    then show ?thesis using True by (simp add: rev_nth)
  qed (auto dest: bit_imp_le_length)
  have "take_bit (LENGTH('a) - ?k) w = w"
    by (rule bit_eqI) (metis bit_take_bit_iff none not_le)
  then have "unat w = take_bit (LENGTH('a) - ?k) (unat w)"
    by (metis unsigned_take_bit_eq)
  then show "unat w < 2 ^ (LENGTH('a) - ?k)"
    by (metis take_bit_nat_less_exp)
  have "bit (unat w) (LENGTH('a) - ?k - 1)" using top by (simp add: bit_unsigned_iff bit_imp_le_length)
  then show "2 ^ (LENGTH('a) - ?k - 1) \<le> unat w"
    by (metis bit_nat_iff bit_iff_odd div_less even_zero not_le)
  show "?k < LENGTH('a)" by (fact lt)
qed

lemma leading_zeros_0 [simp]: "leading_zeros (0 :: 'a::len word) = LENGTH('a)"
proof -
  have *: "takeWhile (\<lambda>i. True) xs = xs" for xs :: "nat list" by (induction xs) simp_all
  show ?thesis by (simp add: leading_zeros_def *)
qed

end
