(* ===== verification/Containers.thy ===== *)
theory Containers
  imports Numbers "HOL-Library.AList" "HOL-Library.List_Lexorder" "HOL-Library.Char_ord"
begin

text \<open>
  The containers of the Rust standard library that the ledger's state is made of. A \<open>HashMap\<close> is an
  association list with distinct keys, in an arbitrary order (its iteration order is not
  specified); a \<open>BTreeMap\<close> is an association list sorted by its keys. Both are used through the
  same contract, the locale \<open>finite_map\<close>, in which the facts about extending a map are proved
  once. A \<open>BTreeSet\<close> is a list sorted by the comparison of its elements. Strings are ordered byte by
  byte, as in Rust.
\<close>

type_synonym ('k, 'v) hash_map = "('k \<times> 'v) list"
type_synonym ('k, 'v) btree_map = "('k \<times> 'v) list"

abbreviation hm_insert :: "'k \<Rightarrow> 'v \<Rightarrow> ('k, 'v) hash_map \<Rightarrow> ('k, 'v) hash_map" where
  "hm_insert \<equiv> AList.update"

abbreviation hm_remove :: "'k \<Rightarrow> ('k, 'v) hash_map \<Rightarrow> ('k, 'v) hash_map" where
  "hm_remove \<equiv> AList.delete"

abbreviation hm_ok :: "('k, 'v) hash_map \<Rightarrow> bool" where
  "hm_ok m \<equiv> distinct (map fst m)"

fun bt_insert :: "'k::linorder \<Rightarrow> 'v \<Rightarrow> ('k, 'v) btree_map \<Rightarrow> ('k, 'v) btree_map" where
  "bt_insert k v [] = [(k, v)]"
| "bt_insert k v ((k', v') # m) =
     (if k < k' then (k, v) # (k', v') # m
      else if k = k' then (k, v) # m
      else (k', v') # bt_insert k v m)"

abbreviation bt_remove :: "'k::linorder \<Rightarrow> ('k, 'v) btree_map \<Rightarrow> ('k, 'v) btree_map" where
  "bt_remove \<equiv> AList.delete"

abbreviation bt_ok :: "('k::linorder, 'v) btree_map \<Rightarrow> bool" where
  "bt_ok m \<equiv> sorted_wrt (<) (map fst m)"

text \<open>\<open>extend\<close>, and \<open>collect\<close> into an empty map.\<close>

definition extend_with :: "('k \<Rightarrow> 'v \<Rightarrow> 'm \<Rightarrow> 'm) \<Rightarrow> 'm \<Rightarrow> ('k \<times> 'v) list \<Rightarrow> 'm" where
  "extend_with ins m es = fold (\<lambda>(k, v). ins k v) es m"

section \<open>The contract of a map\<close>

locale finite_map =
  fixes get :: "'m \<Rightarrow> 'k \<Rightarrow> 'v option"
    and ins :: "'k \<Rightarrow> 'v \<Rightarrow> 'm \<Rightarrow> 'm"
    and rem :: "'k \<Rightarrow> 'm \<Rightarrow> 'm"
    and ok :: "'m \<Rightarrow> bool"
  assumes get_ins: "ok m \<Longrightarrow> get (ins k v m) k' = (if k' = k then Some v else get m k')"
    and get_rem: "ok m \<Longrightarrow> get (rem k m) k' = (if k' = k then None else get m k')"
    and ok_ins: "ok m \<Longrightarrow> ok (ins k v m)"
    and ok_rem: "ok m \<Longrightarrow> ok (rem k m)"
begin

lemma ok_extend: "ok m \<Longrightarrow> ok (extend_with ins m es)"
  by (induction es arbitrary: m) (auto simp: extend_with_def ok_ins)

lemma get_extend:
  assumes "ok m" and "distinct (map fst es)"
  shows "get (extend_with ins m es) k = (case map_of es k of None \<Rightarrow> get m k | Some v \<Rightarrow> Some v)"
  using assms
proof (induction es arbitrary: m)
  case Nil
  then show ?case by (simp add: extend_with_def)
next
  case (Cons e es)
  obtain k' v where e: "e = (k', v)" by (cases e)
  from Cons.prems e have k': "map_of es k' = None" by (simp add: map_of_eq_None_iff)
  have "get (extend_with ins (ins k' v m) es) k
      = (case map_of es k of None \<Rightarrow> get (ins k' v m) k | Some w \<Rightarrow> Some w)"
    using Cons by (simp add: ok_ins)
  also have "\<dots> = (case map_of (e # es) k of None \<Rightarrow> get m k | Some w \<Rightarrow> Some w)"
    using Cons.prems(1) k' e by (cases "map_of es k") (auto simp: get_ins)
  finally show ?case by (simp add: extend_with_def e)
qed

end

lemma bt_insert_keys: "fst ` set (bt_insert k v m) = insert k (fst ` set m)"
  by (induction k v m rule: bt_insert.induct) auto

lemma bt_ok_insert: "bt_ok m \<Longrightarrow> bt_ok (bt_insert k v m)"
proof (induction k v m rule: bt_insert.induct)
  case (2 k v k' v' m)
  have "\<forall>x \<in> fst ` set (bt_insert k v m). k' < x" if "k' < k"
    using "2.prems" that by (simp add: bt_insert_keys)
  with 2 show ?case by fastforce
qed simp

lemma bt_ok_distinct: "bt_ok m \<Longrightarrow> hm_ok m"
  by (simp add: strict_sorted_iff)

lemma bt_get_insert:
  "bt_ok m \<Longrightarrow> map_of (bt_insert k v m) k' = (if k' = k then Some v else map_of m k')"
proof (induction k v m rule: bt_insert.induct)
  case (2 k v k'' v'' m)
  then show ?case by auto
qed simp

lemma hm_ok_delete: "hm_ok m \<Longrightarrow> hm_ok (AList.delete k m)"
  by (rule distinct_delete)

lemma bt_ok_delete: "bt_ok m \<Longrightarrow> bt_ok (AList.delete k m)"
  by (induction m) (auto simp: AList.delete_eq)

interpretation hm: finite_map map_of AList.update AList.delete "hm_ok"
  by unfold_locales (simp_all add: update_conv' delete_conv' distinct_update distinct_delete)

interpretation bt: finite_map map_of bt_insert AList.delete "bt_ok"
  by unfold_locales (simp_all add: bt_get_insert delete_conv' bt_ok_insert bt_ok_delete)

section \<open>Sets ordered by a comparison\<close>

text \<open>\<open>BTreeSet::insert\<close>: elements are found by the \<open>Ord\<close> of their type, and the element that is already
  there stays when the new one compares equal to it.\<close>

fun bset_insert :: "('a \<Rightarrow> 'a \<Rightarrow> ordering) \<Rightarrow> 'a \<Rightarrow> 'a list \<Rightarrow> 'a list" where
  "bset_insert cmp x [] = [x]"
| "bset_insert cmp x (y # ys) =
     (case cmp x y of
        Less \<Rightarrow> x # y # ys
      | Equal \<Rightarrow> y # ys
      | Greater \<Rightarrow> y # bset_insert cmp x ys)"

abbreviation bset_ok :: "('a \<Rightarrow> 'a \<Rightarrow> ordering) \<Rightarrow> 'a list \<Rightarrow> bool" where
  "bset_ok cmp xs \<equiv> sorted_wrt (\<lambda>x y. cmp x y = Less) xs"

text \<open>The contract: an \<open>Ord\<close> that compares a key of the elements.\<close>

locale keyed_order =
  fixes cmp :: "'a \<Rightarrow> 'a \<Rightarrow> ordering" and key_of :: "'a \<Rightarrow> 'k::linorder"
  assumes cmp_key: "cmp x y = compare_by (key_of x) (key_of y)"
begin

lemma bset_ok_keys: "bset_ok cmp xs \<longleftrightarrow> sorted_wrt (<) (map key_of xs)"
  by (simp add: cmp_key sorted_wrt_map)

lemma bset_insert_Cons: "bset_insert cmp x (y # ys) =
    (if key_of x < key_of y then x # y # ys else if key_of x = key_of y then y # ys else y # bset_insert cmp x ys)"
  by (simp add: cmp_key compare_by_def)

lemma bset_insert_keys: "key_of ` set (bset_insert cmp x xs) = insert (key_of x) (key_of ` set xs)"
  by (induction xs) (auto simp: bset_insert_Cons simp del: bset_insert.simps(2))

lemma bset_insert_sorted:
  "sorted_wrt (<) (map key_of xs) \<Longrightarrow> sorted_wrt (<) (map key_of (bset_insert cmp x xs))"
proof (induction xs)
  case (Cons y ys)
  have "\<forall>z \<in> key_of ` set (bset_insert cmp x ys). key_of y < z" if "key_of y < key_of x"
    unfolding bset_insert_keys using Cons.prems that by simp
  with Cons show ?case
    by (auto simp: bset_insert_Cons not_less_iff_gr_or_eq simp del: bset_insert.simps(2))
qed simp

lemma bset_insert_ok: "bset_ok cmp xs \<Longrightarrow> bset_ok cmp (bset_insert cmp x xs)"
  unfolding bset_ok_keys by (rule bset_insert_sorted)

lemma bset_insert_set:
  "sorted_wrt (<) (map key_of xs) \<Longrightarrow>
     set (bset_insert cmp x xs) = (if key_of x \<in> key_of ` set xs then set xs else insert x (set xs))"
proof (induction xs)
  case (Cons y ys)
  have "key_of x \<notin> key_of ` set (y # ys)" if "key_of x < key_of y" using Cons.prems that by fastforce
  with Cons show ?case by (auto simp: bset_insert_Cons simp del: bset_insert.simps(2))
qed simp

text \<open>Inserting a sequence of elements keeps the first one of every key.\<close>

lemma bset_insert_first:
  assumes "bset_ok cmp xs"
  shows "set (fold (bset_insert cmp) ys xs) = {x. find (\<lambda>y. key_of y = key_of x) (xs @ ys) = Some x}"
proof (induction ys rule: rev_induct)
  case Nil
  have "distinct (map key_of xs)" using assms by (simp add: bset_ok_keys strict_sorted_iff)
  then show ?case by (induction xs) (auto simp: image_iff)
next
  case (snoc y ys)
  let ?zs = "fold (bset_insert cmp) ys xs"
  have ok: "sorted_wrt (<) (map key_of ?zs)"
    using assms unfolding bset_ok_keys
    by (induction ys arbitrary: xs) (simp_all add: bset_insert_sorted)
  have keys: "key_of ` set ?zs = key_of ` set (xs @ ys)"
    by (induction ys arbitrary: xs) (simp_all add: image_Un bset_insert_keys)
  have find: "find P (zs @ [y]) = (case find P zs of None \<Rightarrow> if P y then Some y else None | r \<Rightarrow> r)"
    for P and zs :: "'a list" by (induction zs) auto
  have none: "find (\<lambda>z. key_of z = k) (xs @ ys) = None \<longleftrightarrow> k \<notin> key_of ` set ?zs" for k
    unfolding keys find_None_iff by auto
  show ?case
  proof (rule set_eqI)
    fix x
    show "x \<in> set (fold (bset_insert cmp) (ys @ [y]) xs) \<longleftrightarrow>
        x \<in> {x. find (\<lambda>y. key_of y = key_of x) (xs @ ys @ [y]) = Some x}"
      using none [of "key_of x"] snoc.IH bset_insert_set [OF ok, of y]
      unfolding append_assoc [symmetric] find by (auto split: option.split)
  qed
qed

end

section \<open>Keys, filters and equality of maps\<close>

lemma map_of_filter_val:
  assumes "hm_ok m"
  shows "map_of (filter (\<lambda>(k, v). P k v) m) k
    = (case map_of m k of None \<Rightarrow> None | Some v \<Rightarrow> if P k v then Some v else None)"
  using assms by (induction m) (auto simp: map_of_eq_None_iff split: option.splits)

lemma hm_ok_filter: "hm_ok m \<Longrightarrow> hm_ok (filter P m)"
  by (rule distinct_map_filter)

lemma bt_ok_filter: "bt_ok m \<Longrightarrow> bt_ok (filter P m)"
  by (induction m) auto

text \<open>A sorted association list is determined by the map it represents.\<close>

lemma bt_ext:
  assumes "bt_ok m" and "bt_ok m'" and "map_of m = map_of m'"
  shows "m = m'"
proof -
  have "(k, v) \<in> set m \<longleftrightarrow> (k, v) \<in> set m'" for k v
    using assms by (metis bt_ok_distinct map_of_eq_Some_iff)
  then have "set m = set m'" by auto
  then show ?thesis
    using assms(1,2) map_sorted_distinct_set_unique [of fst m m']
    by (auto simp: strict_sorted_iff distinct_map)
qed

lemma bt_ok_from_list: "bt_ok (extend_with bt_insert [] es)"
  by (rule bt.ok_extend) simp

lemma map_of_from_list:
  "distinct (map fst es) \<Longrightarrow> map_of (extend_with bt_insert [] es) = map_of es"
  by (rule ext) (simp add: bt.get_extend split: option.split)

end
