(* ===== verification/Uint_Division.thy ===== *)
theory Uint_Division
  imports Numbers
begin

unbundle bit_operations_syntax

text \<open>
  The wide division of \<open>core/src/types/uint.rs\<close> and the operations on \<open>Uint\<close> that rest on it:
  \<open>bits_512\<close>, the shifts, \<open>div_mod_small_512\<close>, \<open>div_mod_knuth_512\<close> (Knuth's algorithm D),
  \<open>div_mod_512\<close>, \<open>checked_mul_div\<close>, \<open>mul_div\<close>, \<open>fixed_precision_div\<close>, \<open>gcd\<close> and \<open>lcm\<close>.

  A \<open>Uint\<close> is a 256-bit word; its ordinary operators are those of a machine integer that panics on
  overflow. The helper routines that the crate \<open>uint\<close> generates for the type are not part of the
  repository: they are the record \<open>uint_prims\<close>, and \<open>prims_ok\<close> says what the sources rely on. A
  512-bit number is a list of eight words, least significant first, and its number is \<open>val\<close>.

  The lemmas follow the algorithm: the shifts compute quotients by powers of two, the estimated digit
  is the right one or one too large, one step leaves the remainder of its part of the dividend, and
  the loop over the digits leaves the remainder of the whole.
\<close>

section \<open>The generated primitives\<close>

record uint_prims =
  split_u128 :: "u128 \<Rightarrow> u64 \<times> u64"
  div_mod_word :: "u64 \<Rightarrow> u64 \<Rightarrow> u64 \<Rightarrow> u64 \<times> u64"
  full_mul_u64 :: "u256 \<Rightarrow> u64 \<Rightarrow> u64 list"
  sub_slice :: "u64 list \<Rightarrow> u64 list \<Rightarrow> u64 list \<times> bool"
  add_slice :: "u64 list \<Rightarrow> u64 list \<Rightarrow> u64 list \<times> bool"
  full_mul :: "u256 \<Rightarrow> u256 \<Rightarrow> u64 list"
  words :: "nat \<Rightarrow> nat"

definition prims_ok :: "uint_prims \<Rightarrow> bool" where
  "prims_ok P \<longleftrightarrow>
     (\<forall>x. unat x = base * unat (fst (split_u128 P x)) + unat (snd (split_u128 P x)))
   \<and> (\<forall>hi lo d. hi < d \<longrightarrow>
        base * unat hi + unat lo
          = unat (fst (div_mod_word P hi lo d)) * unat d + unat (snd (div_mod_word P hi lo d))
        \<and> snd (div_mod_word P hi lo d) < d)
   \<and> (\<forall>x y. length (full_mul_u64 P x y) = 5 \<and> val (full_mul_u64 P x y) = unat x * unat y)
   \<and> (\<forall>a b. length b \<le> length a \<longrightarrow>
        length (fst (sub_slice P a b)) = length a
        \<and> drop (length b) (fst (sub_slice P a b)) = drop (length b) a
        \<and> val (take (length b) (fst (sub_slice P a b))) + val b
          = val (take (length b) a) + (if snd (sub_slice P a b) then base ^ length b else 0))
   \<and> (\<forall>a b. length b \<le> length a \<longrightarrow>
        length (fst (add_slice P a b)) = length a
        \<and> drop (length b) (fst (add_slice P a b)) = drop (length b) a
        \<and> val (take (length b) (fst (add_slice P a b)))
            + (if snd (add_slice P a b) then base ^ length b else 0)
          = val (take (length b) a) + val b)
   \<and> (\<forall>x y. length (full_mul P x y) = 8 \<and> val (full_mul P x y) = unat x * unat y)
   \<and> (\<forall>b. 0 < b \<longrightarrow> words P b = 1 + (b - 1) div 64)"

definition plain_prims :: uint_prims where
  "plain_prims = \<lparr>
     split_u128 = (\<lambda>x. (of_nat (unat x div base), of_nat (unat x mod base))),
     div_mod_word = (\<lambda>hi lo d.
       let x = base * unat hi + unat lo in (of_nat (x div unat d), of_nat (x mod unat d))),
     full_mul_u64 = (\<lambda>x y. limbs_of 5 (unat x * unat y)),
     sub_slice = (\<lambda>a b. let k = length b; x = val (take k a) in
       (limbs_of k (x + base ^ k - val b) @ drop k a, x < val b)),
     add_slice = (\<lambda>a b. let k = length b; x = val (take k a) + val b in
       (limbs_of k x @ drop k a, base ^ k \<le> x)),
     full_mul = (\<lambda>x y. limbs_of 8 (unat x * unat y)),
     words = (\<lambda>b. 1 + (b - 1) div 64)\<rparr>"

text \<open>The words of a \<open>Uint\<close>, its field \<open>.0\<close>, and the constructor.\<close>

definition limbs :: "u256 \<Rightarrow> u64 list" where
  "limbs x = map (\<lambda>i. ucast (drop_bit (64 * i) x)) [0 ..< 4]"

definition from_limbs :: "u64 list \<Rightarrow> u256" where
  "from_limbs ls = of_nat (val ls)"

definition uint_bits :: "u256 \<Rightarrow> nat" where
  "uint_bits x = 256 - leading_zeros x"

section \<open>The routines\<close>

definition N_WORDS :: nat where "N_WORDS = 4"

definition bits_512 :: "u64 list \<Rightarrow> nat" where
  "bits_512 arr =
     (case find (\<lambda>i. arr ! (length arr - i) > 0) [1 ..< length arr] of
        Some i \<Rightarrow> 64 * (length arr - i + 1) - leading_zeros (arr ! (length arr - i))
      | None \<Rightarrow> 64 - leading_zeros (arr ! 0))"

fun div_small_loop :: "uint_prims \<Rightarrow> u64 \<Rightarrow> u64 \<Rightarrow> u64 list \<Rightarrow> u64 list \<times> u64" where
  "div_small_loop P other rem [] = ([], rem)"
| "div_small_loop P other rem (d # ds) =
     (let (q, r) = div_mod_word P rem d other;
          (qs, rem') = div_small_loop P other r ds
      in (q # qs, rem'))"

definition div_mod_small_512 :: "uint_prims \<Rightarrow> u64 list \<Rightarrow> u64 \<Rightarrow> u64 list \<times> u256" where
  "div_mod_small_512 P slf other =
     (let (qs, rem) = div_small_loop P other 0 (rev slf) in (rev qs, ucast rem))"

definition shr_512 :: "u64 list \<Rightarrow> nat \<Rightarrow> u64 list option" where
  "shr_512 original shift =
     (let word_shift = shift div 64; bit_shift = shift mod 64 in
      do {
        ret \<leftarrow> fold_opt (\<lambda>i ret. arr_set ret (i - word_shift) (drop_bit bit_shift (original ! i)))
          [word_shift ..< length original] (replicate (2 * N_WORDS) 0);
        if 0 < bit_shift
        then fold_opt (\<lambda>i ret. do {
            x \<leftarrow> arr_get ret (i - word_shift - 1);
            y \<leftarrow> checked_add x (push_bit (64 - bit_shift) (original ! i));
            arr_set ret (i - word_shift - 1) y })
          [word_shift + 1 ..< length original] ret
        else Some ret
      })"

definition full_shl_512 :: "u64 list \<Rightarrow> nat \<Rightarrow> u64 list option" where
  "full_shl_512 slf shift = do {
     u_hi \<leftarrow> shr_512 slf (64 - shift);
     Some (push_bit shift (slf ! 0) # u_hi)
   }"

definition full_shr_512 :: "u64 list \<Rightarrow> nat \<Rightarrow> u64 list" where
  "full_shr_512 u shift =
     (let res = map (\<lambda>i. drop_bit shift (u ! i)) [0 ..< 2 * N_WORDS] in
      if 0 < shift
      then map (\<lambda>i. res ! i OR push_bit (64 - shift) (u ! (i + 1))) [0 ..< 2 * N_WORDS]
      else res)"

function q_hat_loop :: "uint_prims \<Rightarrow> u64 \<Rightarrow> u64 \<Rightarrow> u64 \<Rightarrow> u64 \<Rightarrow> u64 \<Rightarrow> u64 option" where
  "q_hat_loop P v_n_1 v_n_2 u_n_2 q_hat r_hat =
     (let (hi, lo) = split_u128 P (ucast q_hat * ucast v_n_2) in
      if hi < r_hat \<or> hi = r_hat \<and> lo \<le> u_n_2 then Some q_hat
      else case checked_sub q_hat 1 of
        None \<Rightarrow> None
      | Some q_hat' \<Rightarrow>
          (if checked_add r_hat v_n_1 = None then Some q_hat'
           else q_hat_loop P v_n_1 v_n_2 u_n_2 q_hat' (r_hat + v_n_1)))"
  by pat_completeness auto
termination
  by (relation "measure (\<lambda>(P, v1, v2, u2, q_hat, r_hat). unat q_hat)") (auto simp: checked_sub_Some)

declare q_hat_loop.simps [simp del]

definition guess_digit :: "uint_prims \<Rightarrow> u64 list \<Rightarrow> nat \<Rightarrow> nat \<Rightarrow> u64 \<Rightarrow> u64 \<Rightarrow> u64 option" where
  "guess_digit P u n j v_n_1 v_n_2 = do {
     u_jn \<leftarrow> arr_get u (j + n);
     if u_jn < v_n_1 then do {
       u_n_1 \<leftarrow> arr_get u (j + n - 1);
       u_n_2 \<leftarrow> arr_get u (j + n - 2);
       let (q_hat, r_hat) = div_mod_word P u_jn u_n_1 v_n_1;
       q_hat_loop P v_n_1 v_n_2 u_n_2 q_hat r_hat
     } else Some (- 1)
   }"

definition knuth_step :: "uint_prims \<Rightarrow> u256 \<Rightarrow> nat \<Rightarrow> u64 \<Rightarrow> u64 \<Rightarrow> nat \<Rightarrow> u64 list \<times> u64 list
    \<Rightarrow> (u64 list \<times> u64 list) option" where
  "knuth_step P v n v_n_1 v_n_2 j = (\<lambda>(u, q). do {
     q_hat \<leftarrow> guess_digit P u n j v_n_1 v_n_2;
     let q_hat_v = full_mul_u64 P v q_hat;
     let (s, c) = sub_slice P (drop j u) (take (n + 1) q_hat_v);
     let u = take j u @ s;
     (u, q_hat) \<leftarrow>
       if c then do {
         q_hat \<leftarrow> checked_sub q_hat 1;
         let (s, c) = add_slice P (drop j u) (take n (limbs v));
         let u = take j u @ s;
         x \<leftarrow> arr_get u (j + n);
         u \<leftarrow> arr_set u (j + n) (x + of_bool c);
         Some (u, q_hat)
       } else Some (u, q_hat);
     q \<leftarrow> arr_set q j q_hat;
     Some (u, q)
   })"

definition div_mod_knuth_512 :: "uint_prims \<Rightarrow> u64 list \<Rightarrow> u256 \<Rightarrow> nat \<Rightarrow> nat \<Rightarrow> (u64 list \<times> u256) option" where
  "div_mod_knuth_512 P slf v n m = do {
     top \<leftarrow> arr_get (limbs v) (n - 1);
     let shift = leading_zeros top;
     let v = push_bit shift v;
     u \<leftarrow> full_shl_512 slf shift;
     v_n_1 \<leftarrow> arr_get (limbs v) (n - 1);
     v_n_2 \<leftarrow> arr_get (limbs v) (n - 2);
     (u, q) \<leftarrow> fold_opt (knuth_step P v n v_n_1 v_n_2) (rev [0 ..< m + 1]) (u, replicate (2 * N_WORDS) 0);
     Some (q, from_limbs (take N_WORDS (full_shr_512 u shift)))
   }"

definition div_mod_512 :: "uint_prims \<Rightarrow> u64 list \<Rightarrow> u256 \<Rightarrow> (u64 list \<times> u256) option" where
  "div_mod_512 P slf other =
     (let my_bits = bits_512 slf; your_bits = uint_bits other in
      if your_bits = 0 then None
      else if my_bits < your_bits then Some (replicate (2 * N_WORDS) 0, from_limbs (take N_WORDS slf))
      else if your_bits \<le> 64 then Some (div_mod_small_512 P slf (ucast other))
      else (let my_words = words P my_bits; your_words = words P your_bits
            in div_mod_knuth_512 P slf other your_words (my_words - your_words)))"

definition checked_mul_div :: "uint_prims \<Rightarrow> u256 \<Rightarrow> u256 \<Rightarrow> u256 \<Rightarrow> (u256 \<times> u256) option option" where
  "checked_mul_div P slf num denom =
     (if denom = 0 then Some None
      else do {
        (quotient, remainder) \<leftarrow> div_mod_512 P (full_mul P slf num) denom;
        Some (if list_ex (\<lambda>d. d \<noteq> 0) (drop N_WORDS quotient) then None
              else Some (from_limbs (take N_WORDS quotient), remainder))
      })"

definition mul_div :: "uint_prims \<Rightarrow> u256 \<Rightarrow> u256 \<Rightarrow> u256 \<Rightarrow> (u256 \<times> u256) option" where
  "mul_div P slf num denom = do {
     (quotient, remainder) \<leftarrow> div_mod_512 P (full_mul P slf num) denom;
     Some (from_limbs (take N_WORDS quotient), remainder)
   }"

definition fixed_precision_div :: "uint_prims \<Rightarrow> u256 \<Rightarrow> u256 \<Rightarrow> u8 \<Rightarrow> u256 option option" where
  "fixed_precision_div P slf rhs denom =
     (case checked_pow 10 (unat denom) of
        None \<Rightarrow> Some None
      | Some res \<Rightarrow> map_option (map_option fst) (checked_mul_div P res slf rhs))"

subsection \<open>Greatest common divisor\<close>

definition trailing_zeros :: "'a::len word \<Rightarrow> nat" where
  "trailing_zeros w = length (takeWhile (\<lambda>i. \<not> bit w i) [0 ..< LENGTH('a)])"

partial_function (option) gcd_loop :: "u256 \<Rightarrow> u256 \<Rightarrow> u256 option" where
  "gcd_loop u v =
     (let v = drop_bit (trailing_zeros v) v;
          (u, v) = (if u > v then (v, u) else (u, v));
          v = v - u
      in if v = 0 then Some u else gcd_loop u v)"

definition uint_gcd :: "u256 \<Rightarrow> u256 \<Rightarrow> u256 option" where
  "uint_gcd x y =
     (if x = 0 then Some x
      else if y = 0 then Some y
      else let shift = trailing_zeros (x OR y);
               u = drop_bit shift x;
               v = drop_bit shift y;
               u = drop_bit (trailing_zeros u) u
           in map_option (push_bit shift) (gcd_loop u v))"

definition uint_lcm :: "u256 \<Rightarrow> u256 \<Rightarrow> u256 option" where
  "uint_lcm x y = do {
     prod \<leftarrow> checked_mul x y;
     g \<leftarrow> uint_gcd x y;
     checked_div prod g
   }"

definition uint_divides :: "u256 \<Rightarrow> u256 \<Rightarrow> bool option" where
  "uint_divides x y = map_option (\<lambda>r. r = 0) (checked_rem y x)"

definition uint_is_even :: "u256 \<Rightarrow> bool" where
  "uint_is_even x \<longleftrightarrow> x AND 1 \<noteq> 1"


section \<open>Words\<close>

lemma base_power: "base ^ k = 2 ^ (64 * k)"
  unfolding base_def by (rule power_mult [symmetric])

lemma unat_lt_base4: "unat (x :: u256) < base ^ 4"
  using unat_bound [of x] by (simp add: base_power)

lemma length_limbs [simp]: "length (limbs x) = 4"
  by (simp add: limbs_def)

lemma limbs_limbs_of: "limbs x = limbs_of 4 (unat x)"
proof -
  have "unat (ucast (drop_bit (64 * i) x) :: u64) = unat x div base ^ i mod base" for i
  proof -
    have "unat (drop_bit (64 * i) x) = unat x div 2 ^ (64 * i)"
      unfolding unsigned_drop_bit_eq using unat_bound [of x]
      by (simp add: drop_bit_eq_div take_bit_nat_eq_self)
    then show ?thesis
      unfolding unsigned_ucast_eq base_power by (simp add: take_bit_eq_mod base_def)
  qed
  then show ?thesis by (simp add: limbs_def limbs_of_def word_unat_eq_iff unat_of_nat_base)
qed

lemma val_limbs [simp]: "val (limbs x) = unat x"
  by (simp add: limbs_limbs_of val_limbs_of unat_lt_base4)

lemma unat_from_limbs: "length ls \<le> 4 \<Longrightarrow> unat (from_limbs ls) = val ls"
proof -
  assume "length ls \<le> 4"
  then have "val ls < base ^ 4"
    using val_lt [of ls] power_increasing [of "length ls" 4 base] base_gt_1 by linarith
  then show ?thesis
    by (simp add: from_limbs_def unat_of_nat_lt base_power)
qed

lemma from_limbs_limbs [simp]: "from_limbs (limbs x) = x"
  by (simp add: word_unat_eq_iff unat_from_limbs)

lemma limbs_from_limbs: "length ls = 4 \<Longrightarrow> limbs (from_limbs ls) = ls"
  by (intro limbs_eqI) (simp_all add: unat_from_limbs)

text \<open>The number of bits of a value bounds it from both sides.\<close>

lemma uint_bits_bounds:
  assumes "x \<noteq> 0"
  shows "0 < uint_bits x" "2 ^ (uint_bits x - 1) \<le> unat x" "unat x < 2 ^ uint_bits x"
  using leading_zeros_bounds [OF assms] by (simp_all add: uint_bits_def)

lemma uint_bits_0 [simp]: "uint_bits x = 0 \<longleftrightarrow> x = 0"
  using uint_bits_bounds(1) [of x] by (cases "x = 0") (auto simp: uint_bits_def)

lemma find_upt_top:
  assumes "length (arr :: u64 list) = n" "0 < n"
  shows "\<exists>k < n. (\<forall>i. k < i \<and> i < n \<longrightarrow> arr ! i = 0) \<and> (k = 0 \<or> arr ! k \<noteq> 0)
    \<and> bits_512 arr = 64 * (k + 1) - leading_zeros (arr ! k)"
proof (cases "find (\<lambda>i. arr ! (length arr - i) > 0) [1 ..< length arr]")
  case None
  then have "arr ! (n - i) = 0" if "1 \<le> i" "i < n" for i
    using that assms by (auto simp: find_None_iff word_gt_0)
  then have "arr ! i = 0" if "0 < i" "i < n" for i
    using that by (metis diff_diff_cancel diff_less less_imp_le_nat less_one linorder_not_less zero_less_diff)
  then show ?thesis using None assms by (intro exI [of _ 0]) (simp add: bits_512_def)
next
  case (Some i)
  then obtain l where l: "l < length [1 ..< length arr]" "[1 ..< length arr] ! l = i"
      "arr ! (length arr - i) > 0" "\<forall>l' < l. \<not> arr ! (length arr - [1 ..< length arr] ! l') > 0"
    by (auto simp: find_Some_iff)
  then have i: "i = l + 1" "i < n" using assms by auto
  have "arr ! j = 0" if "n - i < j" "j < n" for j
  proof -
    have "n - j - 1 < l" using that i by linarith
    then have "\<not> arr ! (n - [1 ..< n] ! (n - j - 1)) > 0" using l(4) assms by simp
    moreover have "[1 ..< n] ! (n - j - 1) = n - j" using that by (simp add: nth_append)
    ultimately show ?thesis using that by (simp add: word_gt_0)
  qed
  moreover have "arr ! (n - i) \<noteq> 0" using l(3) assms by auto
  ultimately show ?thesis using Some assms i
    by (intro exI [of _ "n - i"]) (simp add: bits_512_def)
qed

lemma bits_512_bounds:
  assumes "length arr = 8"
  shows "val arr < 2 ^ bits_512 arr" "val arr \<noteq> 0 \<Longrightarrow> 2 ^ (bits_512 arr - 1) \<le> val arr"
    "val arr \<noteq> 0 \<Longrightarrow> 0 < bits_512 arr" "bits_512 arr \<le> 512"
proof -
  obtain k where k: "k < 8" "\<forall>i. k < i \<and> i < 8 \<longrightarrow> arr ! i = 0" "k = 0 \<or> arr ! k \<noteq> 0"
      "bits_512 arr = 64 * (k + 1) - leading_zeros (arr ! k)"
    using find_upt_top [OF assms] by auto
  have "val (drop (k + 1) arr) = 0"
    using k(2) assms by (auto simp: val_eq_0 in_set_conv_nth)
  then have v: "val arr = val (take k arr) + base ^ k * unat (arr ! k)"
    using val_split [of arr "k + 1"] k(1) assms by (simp add: take_Suc_conv_app_nth val_append)
  have lt: "val (take k arr) < base ^ k" using val_lt [of "take k arr"] k(1) assms by simp
  show "bits_512 arr \<le> 512" using k(1,4) by simp
  show "val arr < 2 ^ bits_512 arr"
  proof (cases "arr ! k = 0")
    case True
    then show ?thesis using k(3) v by simp
  next
    case False
    note b = leading_zeros_bounds [OF False]
    have "val arr < base ^ k * (unat (arr ! k) + 1)" using v lt by simp
    also have "\<dots> \<le> base ^ k * 2 ^ (64 - leading_zeros (arr ! k))"
      using b(3) by (intro mult_le_mono2) simp
    also have "\<dots> = 2 ^ bits_512 arr" using b(1) k(4) by (simp add: base_power flip: power_add)
    finally show ?thesis .
  qed
  assume nz: "val arr \<noteq> 0"
  have "arr ! k \<noteq> 0"
  proof
    assume "arr ! k = 0"
    with k(3) v nz show False by auto
  qed
  note b = leading_zeros_bounds [OF this]
  show "0 < bits_512 arr" using b(1) k(4) by simp
  have "(2::nat) ^ (bits_512 arr - 1) = base ^ k * 2 ^ (64 - leading_zeros (arr ! k) - 1)"
    using b(1) k(4) by (simp add: base_power flip: power_add)
  also have "\<dots> \<le> base ^ k * unat (arr ! k)" using b(2) by (intro mult_le_mono2) simp
  also have "\<dots> \<le> val arr" using v by simp
  finally show "2 ^ (bits_512 arr - 1) \<le> val arr" .
qed

section \<open>Shifts\<close>

lemma shifted_limb:
  fixes xs :: "u64 list"
  assumes "0 < b" "b < 64" "i < length xs"
  shows "val xs div 2 ^ b div base ^ i mod base
    = unat (drop_bit b (xs ! i)) + (if i + 1 < length xs then unat (push_bit (64 - b) (xs ! (i + 1))) else 0)"
proof -
  let ?N = "val xs div base ^ i"
  have "val xs div 2 ^ b div base ^ i = ?N div 2 ^ b"
    by (simp add: mult.commute flip: div_mult2_eq)
  moreover have "?N div base = val xs div base ^ (i + 1)"
    by (simp add: mult.commute flip: div_mult2_eq)
  moreover have "?N mod base = unat (xs ! i)" using assms(3) by (simp add: val_nth)
  moreover have "val xs div base ^ (i + 1) mod 2 ^ b
      = (if i + 1 < length xs then unat (xs ! (i + 1)) mod 2 ^ b else 0)"
  proof (cases "i + 1 < length xs")
    case True
    have "(2::nat) ^ b dvd base" using assms(2) unfolding base_def by (intro le_imp_power_dvd) simp
    then show ?thesis using True by (simp add: val_nth mod_mod_cancel)
  next
    case False
    then have "length xs = i + 1" using assms(3) by simp
    then have "val xs < base ^ (i + 1)" using val_lt [of xs] by simp
    then show ?thesis using False by simp
  qed
  ultimately show ?thesis
    using limb_of_shifted [OF assms(1,2), of ?N] assms
    by (simp add: unat_drop_bit_limb unat_push_bit_limb del: One_nat_def)
qed

lemma shifted_limb_lt:
  fixes xs :: "u64 list"
  assumes "0 < b" "b < 64" "i + 1 < length xs"
  shows "unat (drop_bit b (xs ! i)) + unat (push_bit (64 - b) (xs ! (i + 1))) < base"
proof -
  have "unat (drop_bit b (xs ! i)) + unat (push_bit (64 - b) (xs ! (i + 1)))
      = val xs div 2 ^ b div base ^ i mod base"
    using shifted_limb [OF assms(1,2), of i xs] assms(3) by (simp del: One_nat_def)
  also have "\<dots> < base" by (rule mod_less_divisor) simp
  finally show ?thesis .
qed

lemma shr_512_small:
  assumes "length xs = 8" "0 < b" "b < 64"
  shows "shr_512 xs b = Some (limbs_of 8 (val xs div 2 ^ b))"
proof -
  have "\<exists>r. fold_opt (\<lambda>i ret. arr_set ret (i - 0) (drop_bit b (xs ! i))) [0 ..< 8] (replicate 8 0) = Some r
      \<and> length r = 8 \<and> (\<forall>i. 0 \<le> i \<and> i < 8 \<longrightarrow> r ! i = drop_bit b (xs ! i))
      \<and> (\<forall>k. k \<notin> (\<lambda>i. i) ` {0 ..< 8} \<longrightarrow> r ! k = replicate 8 0 ! k)"
    by (rule fold_opt_fill) (auto simp: inj_on_def)
  then obtain r where r: "fold_opt (\<lambda>i ret. arr_set ret (i - 0) (drop_bit b (xs ! i))) [0 ..< 8] (replicate 8 0) = Some r"
      "length r = 8" "\<And>i. i < 8 \<Longrightarrow> r ! i = drop_bit b (xs ! i)" by auto
  let ?g = "\<lambda>i. drop_bit b (xs ! (i - 1)) + push_bit (64 - b) (xs ! i)"
  let ?f = "\<lambda>i ret. do {
            x \<leftarrow> arr_get ret (i - 0 - 1);
            y \<leftarrow> checked_add x (push_bit (64 - b) (xs ! i));
            arr_set ret (i - 0 - 1) y }"
  have no_ov: "checked_add (drop_bit b (xs ! (i - 1))) (push_bit (64 - b) (xs ! i)) = Some (?g i)"
    if "1 \<le> i" "i < 8" for i
  proof -
    have "unat (drop_bit b (xs ! (i - 1))) + unat (push_bit (64 - b) (xs ! i)) < base"
      using shifted_limb_lt [OF assms(2,3), of "i - 1" xs] that assms(1) by simp
    then show ?thesis by (simp add: checked_add_def base_def)
  qed
  have "\<exists>r'. fold_opt ?f [1 ..< 8] r = Some r' \<and> length r' = 8
      \<and> (\<forall>i. 1 \<le> i \<and> i < 8 \<longrightarrow> r' ! (i - 1) = ?g i)
      \<and> (\<forall>k. k \<notin> (\<lambda>i. i - 1) ` {1 ..< 8} \<longrightarrow> r' ! k = r ! k)"
  proof (rule fold_opt_fill [where h = "\<lambda>i. i - 1" and g = ?g])
    fix i ret
    assume i: "1 \<le> i" "i < 8" "length ret = 8" "ret ! (i - 1) = r ! (i - 1)"
    then have "ret ! (i - 1) = drop_bit b (xs ! (i - 1))" using r(3) [of "i - 1"] by simp
    moreover have "i - 1 < 8" using i by simp
    ultimately show "?f i ret = Some (ret[i - 1 := ?g i])"
      using no_ov [OF i(1,2)] i(3) by simp
  qed (auto simp: inj_on_def r(2))
  then obtain r' where r': "fold_opt ?f [1 ..< 8] r = Some r'" "length r' = 8"
      "\<forall>i. 1 \<le> i \<and> i < 8 \<longrightarrow> r' ! (i - 1) = ?g i"
      "\<forall>k. k \<notin> (\<lambda>i. i - 1) ` {1 ..< 8} \<longrightarrow> r' ! k = r ! k" by blast
  have "7 \<notin> (\<lambda>i. i - 1) ` {1 ..< 8 :: nat}" by auto
  with r'(4) have r7: "r' ! 7 = r ! 7" by blast
  have "r' ! i = of_nat (val xs div 2 ^ b div base ^ i)" if "i < 8" for i
  proof (cases "i < 7")
    case True
    then have "r' ! i = drop_bit b (xs ! i) + push_bit (64 - b) (xs ! (i + 1))" using r'(3) [rule_format, of "i + 1"] by simp
    moreover have "unat (drop_bit b (xs ! i) + push_bit (64 - b) (xs ! (i + 1)))
        = unat (drop_bit b (xs ! i)) + unat (push_bit (64 - b) (xs ! (i + 1)))"
      using no_ov [of "i + 1"] True by (simp add: checked_add_Some)
    ultimately show ?thesis
      using shifted_limb [OF assms(2,3), of i xs] True assms(1)
      by (simp add: word_unat_eq_iff unat_of_nat_base)
  next
    case False
    then have "i = 7" using that by simp
    then show ?thesis
      using shifted_limb [OF assms(2,3), of 7 xs] r7 r(3) [of 7] assms(1)
      by (simp add: word_unat_eq_iff unat_of_nat_base)
  qed
  then have "r' = limbs_of 8 (val xs div 2 ^ b)"
    by (intro nth_equalityI) (simp_all add: r'(2))
  then show ?thesis
    using r(1) r'(1) assms by (simp add: shr_512_def N_WORDS_def)
qed

lemma shr_512_word:
  assumes "length xs = 8"
  shows "shr_512 xs 64 = Some (limbs_of 8 (val xs div base))"
proof -
  have "\<exists>r. fold_opt (\<lambda>i ret. arr_set ret (i - 1) (drop_bit 0 (xs ! i))) [1 ..< 8] (replicate 8 0) = Some r
      \<and> length r = 8 \<and> (\<forall>i. 1 \<le> i \<and> i < 8 \<longrightarrow> r ! (i - 1) = xs ! i)
      \<and> (\<forall>k. k \<notin> (\<lambda>i. i - 1) ` {1 ..< 8} \<longrightarrow> r ! k = replicate 8 0 ! k)"
    by (rule fold_opt_fill) (auto simp: inj_on_def)
  then obtain r where r: "fold_opt (\<lambda>i ret. arr_set ret (i - 1) (drop_bit 0 (xs ! i))) [1 ..< 8] (replicate 8 0) = Some r"
      "length r = 8" "\<forall>i. 1 \<le> i \<and> i < 8 \<longrightarrow> r ! (i - 1) = xs ! i"
      "\<forall>k. k \<notin> (\<lambda>i. i - 1) ` {1 ..< 8} \<longrightarrow> r ! k = replicate 8 0 ! k" by blast
  have "7 \<notin> (\<lambda>i. i - 1) ` {1 ..< 8 :: nat}" by auto
  with r(4) have r7: "r ! 7 = 0" by simp
  have "r ! i = of_nat (val xs div base div base ^ i)" if "i < 8" for i
  proof (cases "i < 7")
    case True
    then show ?thesis
      using r(3) [rule_format, of "i + 1"] assms by (simp add: nth_of_val flip: div_mult2_eq)
  next
    case False
    then have "i = 7" using that by simp
    moreover have "val xs div base div base ^ 7 = 0"
      using val_lt [of xs] assms by (simp flip: div_mult2_eq power_Suc)
    ultimately show ?thesis using r7 by simp
  qed
  then have "r = limbs_of 8 (val xs div base)"
    by (intro nth_equalityI) (simp_all add: r(2))
  then show ?thesis using r(1) assms by (simp add: shr_512_def N_WORDS_def)
qed

lemma full_shl_512_val:
  assumes "length xs = 8" "s < 64"
  shows "\<exists>u. full_shl_512 xs s = Some u \<and> length u = 9 \<and> val u = val xs * 2 ^ s"
proof -
  have "base = 2 ^ (64 - s) * 2 ^ s" using assms by (simp add: base_def flip: power_add)
  then have hi: "val xs * 2 ^ s div base = val xs div 2 ^ (64 - s)"
    by (metis div_mult_mult2 power_not_zero zero_neq_numeral)
  have shr: "shr_512 xs (64 - s) = Some (limbs_of 8 (val xs div 2 ^ (64 - s)))"
    using shr_512_small [OF assms(1), of "64 - s"] shr_512_word [OF assms(1)] assms(2)
    by (cases "s = 0") (auto simp: base_def)
  have "val xs div 2 ^ (64 - s) < base ^ 8"
    using val_lt [of xs] assms(1) by (metis div_le_dividend le_less_trans)
  then have v: "val (limbs_of 8 (val xs div 2 ^ (64 - s))) = val xs div 2 ^ (64 - s)"
    by (simp add: val_limbs_of)
  have "unat (push_bit s (xs ! 0)) = unat (xs ! 0) * 2 ^ s mod base"
    unfolding unsigned_push_bit_eq by (simp add: push_bit_eq_mult take_bit_eq_mod base_def)
  also have "\<dots> = val xs * 2 ^ s mod base"
    using val_nth [of 0 xs] assms(1) by (simp add: mod_mult_left_eq)
  finally have "val (push_bit s (xs ! 0) # limbs_of 8 (val xs div 2 ^ (64 - s))) = val xs * 2 ^ s"
    using v hi mod_mult_div_eq [of "val xs * 2 ^ s" base] by simp
  then show ?thesis using shr by (simp add: full_shl_512_def)
qed

lemma full_shr_512_val:
  assumes "length u = 9" "s < 64"
  shows "full_shr_512 u s = limbs_of 8 (val u div 2 ^ s)"
proof (cases "s = 0")
  case True
  then show ?thesis using assms(1)
    by (intro nth_equalityI) (simp_all add: full_shr_512_def N_WORDS_def flip: nth_of_val)
next
  case False
  have "drop_bit s (u ! i) OR push_bit (64 - s) (u ! (i + 1)) = of_nat (val u div 2 ^ s div base ^ i)"
    if "i < 8" for i
  proof -
    have "drop_bit s (u ! i) AND push_bit (64 - s) (u ! (i + 1)) = 0"
      by (intro bit_eqI) (auto simp: bit_and_iff bit_drop_bit_eq bit_push_bit_iff dest: bit_imp_le_length)
    then have "drop_bit s (u ! i) OR push_bit (64 - s) (u ! (i + 1))
        = drop_bit s (u ! i) + push_bit (64 - s) (u ! (i + 1))"
      by (simp add: disjunctive_add_eq_or)
    moreover have "unat (drop_bit s (u ! i)) + unat (push_bit (64 - s) (u ! (i + 1))) < base"
      using shifted_limb_lt [of s i u] False assms that by simp
    ultimately show ?thesis
      using shifted_limb [of s i u] False assms that
      by (simp add: word_unat_eq_iff unat_of_nat_base unat_word_ariths base_def)
  qed
  then show ?thesis using False assms(1)
    by (intro nth_equalityI) (simp_all add: full_shr_512_def N_WORDS_def)
qed

section \<open>One digit\<close>

text \<open>The laws of the primitives, one by one.\<close>

lemma prims_okD:
  assumes "prims_ok P"
  shows split_u128_law: "unat x = base * unat (fst (split_u128 P x)) + unat (snd (split_u128 P x))"
    and div_mod_word_law: "hi < d \<Longrightarrow> base * unat hi + unat lo
          = unat (fst (div_mod_word P hi lo d)) * unat d + unat (snd (div_mod_word P hi lo d))"
      "hi < d \<Longrightarrow> snd (div_mod_word P hi lo d) < d"
    and full_mul_u64_law: "length (full_mul_u64 P y z) = 5" "val (full_mul_u64 P y z) = unat y * unat z"
    and sub_slice_law: "length b \<le> length a \<Longrightarrow> length (fst (sub_slice P a b)) = length a"
      "length b \<le> length a \<Longrightarrow> drop (length b) (fst (sub_slice P a b)) = drop (length b) a"
      "length b \<le> length a \<Longrightarrow> val (take (length b) (fst (sub_slice P a b))) + val b
          = val (take (length b) a) + (if snd (sub_slice P a b) then base ^ length b else 0)"
    and add_slice_law: "length b \<le> length a \<Longrightarrow> length (fst (add_slice P a b)) = length a"
      "length b \<le> length a \<Longrightarrow> drop (length b) (fst (add_slice P a b)) = drop (length b) a"
      "length b \<le> length a \<Longrightarrow> val (take (length b) (fst (add_slice P a b)))
            + (if snd (add_slice P a b) then base ^ length b else 0)
          = val (take (length b) a) + val b"
    and full_mul_law: "length (full_mul P y y') = 8" "val (full_mul P y y') = unat y * unat y'"
    and words_law: "0 < k \<Longrightarrow> words P k = 1 + (k - 1) div 64"
  using assms unfolding prims_ok_def by blast+

text \<open>
  Estimating a quotient digit from the leading digits. The dividend \<open>W\<close> is \<open>T * D\<close> and something
  below \<open>D\<close>, the divisor \<open>v\<close> is \<open>V * D\<close> and something below \<open>D\<close>.
\<close>

lemma guess_too_large:
  fixes W v T V D :: nat
  assumes "W < (T + 1) * D" "V * D \<le> v" "T < q * V"
  shows "W div v < q"
proof -
  have "(T + 1) * D \<le> q * V * D" using assms(3) by (intro mult_le_mono1) simp
  also have "\<dots> \<le> q * v" using assms(2) by (simp add: mult.assoc)
  finally have "W < q * v" using assms(1) by simp
  then show ?thesis by (simp add: less_mult_imp_div_less)
qed

lemma digit_le:
  fixes W v T V D :: nat
  assumes "T * D \<le> W" "v \<le> (V + 1) * D" "p * (V + 1) \<le> T" "0 < v"
  shows "p \<le> W div v"
proof -
  have "p * v \<le> p * (V + 1) * D" using mult_le_mono2 [OF assms(2), of p] by (simp only: mult.assoc)
  also have "\<dots> \<le> W" using assms(1,3) by (meson le_trans mult_le_mono1)
  finally have "p * v div v \<le> W div v" by (rule div_le_mono)
  then show ?thesis using assms(4) by simp
qed

lemma guess_too_small:
  fixes W v T V D :: nat
  assumes "T * D \<le> W" "v \<le> (V + 1) * D" "q * V \<le> T" "q \<le> V + 1" "0 < v"
  shows "q \<le> W div v + 1"
proof (cases q)
  case (Suc p)
  then show ?thesis using digit_le [OF assms(1,2) _ assms(5), of p] assms(3,4) by simp
qed simp

lemma lex_le_iff:
  fixes lo lo' hi hi' :: nat
  assumes "lo < base" "lo' < base"
  shows "base * hi + lo \<le> base * hi' + lo' \<longleftrightarrow> hi < hi' \<or> hi = hi' \<and> lo \<le> lo'"
proof (cases hi hi' rule: linorder_cases)
  case less
  then have "base * (hi + 1) \<le> base * hi'" by (intro mult_le_mono2) simp
  with assms less show ?thesis by simp
next
  case greater
  then have "base * (hi' + 1) \<le> base * hi" by (intro mult_le_mono2) simp
  with assms greater show ?thesis by simp
qed simp

lemma unat_mult_u128: "unat (ucast (a :: u64) * ucast (b :: u64) :: u128) = unat a * unat b"
proof -
  have "unat a * unat b < base * base" by (intro mult_strict_mono) simp_all
  then have "unat a * unat b < 2 ^ 128" by (simp add: base_def)
  then show ?thesis by (simp add: unat_word_ariths unsigned_ucast_eq take_bit_nat_eq_self
    less_trans [OF unat_bound])
qed

lemma q_hat_loop_correct:
  fixes v1 v2 u2 q r :: u64 and T1 W v D :: nat
  defines "V \<equiv> unat v1 * base + unat v2" and "T \<equiv> T1 * base + unat u2"
  assumes P: "prims_ok P"
    and v1: "base \<le> 2 * unat v1" and D: "T * D \<le> W" "W < (T + 1) * D" "V * D \<le> v" "v \<le> (V + 1) * D" "0 < v"
    and inv: "unat q * unat v1 + unat r = T1" "W div v \<le> unat q"
  shows "\<exists>q'. q_hat_loop P v1 v2 u2 q r = Some q' \<and> W div v \<le> unat q' \<and> unat q' \<le> W div v + 1"
  using inv
proof (induction "unat q" arbitrary: q r rule: less_induct)
  case less
  obtain hi lo where s: "split_u128 P (ucast q * ucast v2) = (hi, lo)" by fastforce
  have hl: "base * unat hi + unat lo = unat q * unat v2"
    using split_u128_law [OF P, of "ucast q * ucast v2"] s by (simp add: unat_mult_u128)
  have T: "T = unat q * unat v1 * base + (base * unat r + unat u2)"
    unfolding T_def less.prems(1) [symmetric] by (simp add: algebra_simps)
  have V: "unat q * V = unat q * unat v1 * base + unat q * unat v2"
    by (simp add: V_def algebra_simps)
  have test: "(hi < r \<or> hi = r \<and> lo \<le> u2) \<longleftrightarrow> unat q * V \<le> T"
    using lex_le_iff [of "unat lo" "unat u2" "unat hi" "unat r"] T V hl
    by (simp add: word_less_nat_alt word_le_nat_alt word_unat_eq_iff)
  have V_ge: "base \<le> V"
  proof -
    have "1 \<le> unat v1" using v1 base_pos by linarith
    then show ?thesis unfolding V_def by (metis mult_le_mono1 mult_1 trans_le_add1)
  qed
  note step = q_hat_loop.simps [of P v1 v2 u2 q r, unfolded s, simplified]
  show ?case
  proof (cases "unat q * V \<le> T")
    case True
    have "unat q \<le> V + 1" using V_ge unat_lt_base [of q] by linarith
    with True show ?thesis
      using step test less.prems(2) guess_too_small [OF D(1,4) True] D(5) by simp
  next
    case False
    then have lt: "W div v < unat q" using guess_too_large [OF D(2,3)] by simp
    then obtain q' where q': "checked_sub q 1 = Some q'" "unat q = unat q' + 1"
      by (cases "checked_sub q 1") (auto simp: checked_sub_Some checked_sub_None)
    show ?thesis
    proof (cases "checked_add r v1 = None")
      case True
      then have "base \<le> unat r + unat v1" by (simp add: checked_add_None base_def)
      moreover have "unat q' * unat v2 \<le> base * base" by (intro mult_le_mono less_imp_le) simp_all
      moreover have "T = unat q' * unat v1 * base + (unat r + unat v1) * base + unat u2"
        using T q'(2) by (simp add: algebra_simps)
      moreover have "base * base \<le> (unat r + unat v1) * base" using calculation(1) by (rule mult_le_mono1)
      ultimately have "unat q' * V \<le> T" by (simp add: V_def algebra_simps)
      moreover have "unat q' \<le> V + 1" using V_ge unat_lt_base [of q'] by linarith
      ultimately show ?thesis
        using step test False True q' lt guess_too_small [OF D(1,4), of "unat q'"] D(5) by simp
    next
      case ov: False
      then have "unat (r + v1) = unat r + unat v1"
        by (auto simp: checked_add_def unat_word_ariths split: if_splits)
      then have "unat q' * unat v1 + unat (r + v1) = T1"
        using less.prems(1) q'(2) by (simp add: algebra_simps)
      then have "\<exists>q''. q_hat_loop P v1 v2 u2 q' (r + v1) = Some q'' \<and> W div v \<le> unat q'' \<and> unat q'' \<le> W div v + 1"
        using lt q'(2) by (intro less.hyps) simp_all
      then show ?thesis using step test False ov q'(1) by simp
    qed
  qed
qed

lemma div_digit: "(x :: nat) div D = x div (D * B) * B + x div D mod B"
  by (simp add: div_mult2_eq)

lemma top_digits:
  fixes x k :: nat
  shows "x div base ^ k = (x div base ^ Suc (Suc k) * base + x div base ^ Suc k mod base) * base
    + x div base ^ k mod base"
  using div_digit [of x "base ^ k" base] div_digit [of x "base ^ Suc k" base] by (simp add: mult.commute)

lemma digit_bounds:
  fixes x D :: nat
  assumes "0 < D"
  shows "x div D * D \<le> x" "x < (x div D + 1) * D" "x \<le> (x div D + 1) * D"
  using dividend_less_div_times [OF assms, of x]
  by (simp_all add: div_times_less_eq_dividend add.commute less_imp_le)

text \<open>The two leading digits of the divisor; the leading one is at least half the base.\<close>

lemma divisor_digits:
  fixes v :: u256
  assumes n: "n = Suc (Suc k)" "n \<le> 4" and v: "base ^ n \<le> 2 * unat v" "unat v < base ^ n"
  shows "unat (limbs v ! (n - 1)) = unat v div base ^ Suc k"
    "unat v div base ^ k = unat (limbs v ! (n - 1)) * base + unat (limbs v ! (n - 2))"
    "base \<le> 2 * unat (limbs v ! (n - 1))" "0 < unat v"
proof -
  show v1: "unat (limbs v ! (n - 1)) = unat v div base ^ Suc k"
    using val_nth [of "Suc k" "limbs v"] n(1,2) v(2) by (simp add: less_mult_imp_div_less)
  have v2: "unat (limbs v ! (n - 2)) = unat v div base ^ k mod base"
    using val_nth [of k "limbs v"] n by simp
  show "unat v div base ^ k = unat (limbs v ! (n - 1)) * base + unat (limbs v ! (n - 2))"
    unfolding v1 v2 using div_digit [of "unat v" "base ^ k" base] by (simp add: mult.commute)
  have "base * base ^ Suc k < (2 * (unat (limbs v ! (n - 1)) + 1)) * base ^ Suc k"
    using v(1) digit_bounds(2) [of "base ^ Suc k" "unat v"] n(1) unfolding v1 by simp
  then have "base < 2 * (unat (limbs v ! (n - 1)) + 1)" by (metis mult_less_cancel2)
  moreover have "even base" by (simp add: base_def)
  ultimately show "base \<le> 2 * unat (limbs v ! (n - 1))" by presburger
  show "0 < unat v" using v(1) by (metis base_pos gr0I le_0_eq mult_0_right not_less0 zero_less_power)
qed

text \<open>The three leading digits of the part of the dividend that a step looks at.\<close>

lemma dividend_digits:
  assumes "length u = 9" and n: "n = Suc (Suc k)" "j + n \<le> 8"
    and W: "W = val u div base ^ j" "W < base * base ^ n"
  shows "W div base ^ Suc k = unat (u ! (j + n)) * base + unat (u ! (j + n - 1))"
    "W div base ^ k = (unat (u ! (j + n)) * base + unat (u ! (j + n - 1))) * base + unat (u ! (j + n - 2))"
proof -
  have limb: "unat (u ! (j + i)) = W div base ^ i mod base" if "j + i \<le> 8" for i
    using val_nth [of "j + i" u] that assms(1) by (simp add: W(1) power_add div_mult2_eq)
  have u0: "unat (u ! (j + n)) = W div base ^ n"
    using limb [of n] n(2) W(2) by (simp add: less_mult_imp_div_less)
  have u1: "unat (u ! (j + n - 1)) = W div base ^ Suc k mod base"
    and u2: "unat (u ! (j + n - 2)) = W div base ^ k mod base"
    using limb [of "Suc k"] limb [of k] n by simp_all
  show "W div base ^ Suc k = unat (u ! (j + n)) * base + unat (u ! (j + n - 1))"
    unfolding u0 u1 unfolding n(1) using div_digit [of W "base ^ Suc k" base] by (simp add: mult.commute)
  show "W div base ^ k = (unat (u ! (j + n)) * base + unat (u ! (j + n - 1))) * base + unat (u ! (j + n - 2))"
    unfolding u0 u1 u2 unfolding n(1) by (rule top_digits)
qed

lemma guess_digit_correct:
  fixes v :: u256
  assumes P: "prims_ok P" and u: "length u = 9" "val u < unat v * base ^ Suc j"
    and n: "n = Suc (Suc k)" "n \<le> 4" "j + n \<le> 8"
    and v: "base ^ n \<le> 2 * unat v" "unat v < base ^ n"
    and W: "W = val u div base ^ j"
  shows "\<exists>q. guess_digit P u n j (limbs v ! (n - 1)) (limbs v ! (n - 2)) = Some q
    \<and> W div unat v \<le> unat q \<and> unat q \<le> W div unat v + 1"
proof -
  let ?v1 = "limbs v ! (n - 1)" and ?v2 = "limbs v ! (n - 2)"
  let ?u0 = "u ! (j + n)" and ?u1 = "u ! (j + n - 1)" and ?u2 = "u ! (j + n - 2)"
  let ?T1 = "unat ?u0 * base + unat ?u1"
  note V = divisor_digits [OF n(1,2) v]
  have W_lt: "W < unat v * base" using u(2) unfolding W by (simp add: less_mult_imp_div_less mult.assoc)
  moreover have "unat v * base \<le> base * base ^ n" using v(2) by simp
  ultimately have "W < base * base ^ n" by (rule less_le_trans)
  note T = dividend_digits [OF u(1) n(1,3) W this]
  note W1 = digit_bounds [of "base ^ Suc k" W, unfolded T(1)]
    and V1 = digit_bounds [of "base ^ Suc k" "unat v", folded V(1)]
    and W2 = digit_bounds [of "base ^ k" W, unfolded T(2)]
    and V2 = digit_bounds [of "base ^ k" "unat v", unfolded V(2)]
  show ?thesis
  proof (cases "?u0 < ?v1")
    case True
    obtain q r where qr: "div_mod_word P ?u0 ?u1 ?v1 = (q, r)" by fastforce
    have eq: "base * unat ?u0 + unat ?u1 = unat q * unat ?v1 + unat r" and r: "unat r < unat ?v1"
      using div_mod_word_law [OF P True, of ?u1] qr by (simp_all add: word_less_nat_alt)
    have "W div unat v < unat q + 1"
      by (rule guess_too_large [OF W1(2) V1(1)]) (use eq r in \<open>simp_all add: algebra_simps\<close>)
    then have "\<exists>q'. q_hat_loop P ?v1 ?v2 ?u2 q r = Some q' \<and> W div unat v \<le> unat q' \<and> unat q' \<le> W div unat v + 1"
      using eq by (intro q_hat_loop_correct [OF P V(3) W2(1,2) V2(1,3) V(4)]) (simp_all add: mult.commute)
    then show ?thesis using True qr u(1) n by (simp add: guess_digit_def)
  next
    case False
    have "base - 2 \<le> W div unat v"
    proof (rule digit_le [OF W1(1) V1(3) _ V(4)])
      obtain p where p: "base = p + 2" using base_gt_1 by (metis add.commute le_Suc_ex one_add_one Suc_leI plus_1_eq_Suc)
      have "(base - 2) * (unat ?v1 + 1) \<le> base * unat ?v1" using V(3) unfolding p by simp
      also have "\<dots> \<le> base * unat ?u0" using False by (simp add: word_le_nat_alt not_less)
      finally show "(base - 2) * (unat ?v1 + 1) \<le> ?T1" by (simp add: mult.commute)
    qed simp_all
    moreover have "W div unat v < base" using W_lt by (simp add: less_mult_imp_div_less mult.commute)
    moreover have "unat (- 1 :: u64) = base - 1" by (simp add: base_def unsigned_minus_1_eq_mask mask_eq_exp_minus_1)
    ultimately have "W div unat v \<le> unat (- 1 :: u64)" "unat (- 1 :: u64) \<le> W div unat v + 1" by linarith+
    then show ?thesis using False u(1) n by (simp add: guess_digit_def)
  qed
qed

lemma val_of_slice:
  assumes "length s = length a" "drop m s = drop m a" "m \<le> length a" "val a < base ^ m"
  shows "val s = val (take m s)" "val (take m a) = val a"
proof -
  have "val (drop m a) = 0" using assms(3,4) by (simp add: val_drop)
  then show "val s = val (take m s)" "val (take m a) = val a"
    using val_split [of s m] val_split [of a m] assms by simp_all
qed

text \<open>Subtracting the guessed multiple of the divisor, and adding the divisor back if it was too much.\<close>

lemma subtract_guess:
  assumes P: "prims_ok P" and len: "n + 1 \<le> length a" "n \<le> 4"
    and W: "W = val a" "W < base ^ (n + 1)" and v: "unat v < base ^ n" "0 < unat v"
    and q: "W div unat v \<le> unat q" "unat q \<le> W div unat v + 1"
    and s: "sub_slice P a (take (n + 1) (full_mul_u64 P v q)) = (s, c)"
  shows "length s = length a" "drop (n + 1) s = drop (n + 1) a"
    "\<not> c \<Longrightarrow> unat q = W div unat v \<and> val s = W mod unat v"
    "c \<Longrightarrow> unat q = W div unat v + 1 \<and> val s + unat v = W mod unat v + base ^ (n + 1)"
proof -
  let ?b = "take (n + 1) (full_mul_u64 P v q)"
  have lb: "length ?b = n + 1" using len(2) by (simp add: full_mul_u64_law [OF P])
  have "unat v * unat q < base ^ n * base" using v by (intro mult_strict_mono) simp_all
  then have vb: "val ?b = unat q * unat v"
    using len(2) by (simp add: val_take full_mul_u64_law [OF P] mult.commute del: take_Suc)
  show ls: "length s = length a" and ds: "drop (n + 1) s = drop (n + 1) a"
    using sub_slice_law(1,2) [OF P, of ?b a] lb len(1) s by simp_all
  note sl = val_of_slice [OF ls ds len(1) W(2) [unfolded W(1)]]
  have eq: "val s + unat q * unat v = W + (if c then base ^ (n + 1) else 0)"
    using sub_slice_law(3) [OF P, of ?b a, unfolded lb vb] len(1) s sl W(1) by simp
  have W_split: "W = W div unat v * unat v + W mod unat v" by simp
  have "val s < base ^ (n + 1)" using sl(1) val_lt [of "take (n + 1) s"] ls len(1) by simp
  {
    assume "\<not> c"
    then have "unat q * unat v \<le> W" using eq by simp
    then have "unat q \<le> W div unat v" using v(2) by (simp add: less_eq_div_iff_mult_less_eq)
    then have "unat q = W div unat v" using q(1) by simp
    moreover from this have "val s + W div unat v * unat v = W" using eq \<open>\<not> c\<close> by simp
    ultimately show "unat q = W div unat v \<and> val s = W mod unat v" using W_split by linarith
  next
    assume c
    then have "W < unat q * unat v" using eq \<open>val s < base ^ (n + 1)\<close> by simp
    then have "unat q \<noteq> W div unat v" using W_split by (metis le_add1 not_less)
    then have "unat q = W div unat v + 1" using q by simp
    moreover from this have "val s + (W div unat v * unat v + unat v) = W + base ^ (n + 1)"
      using eq \<open>c\<close> by simp
    ultimately show "unat q = W div unat v + 1 \<and> val s + unat v = W mod unat v + base ^ (n + 1)"
      using W_split by linarith
  }
qed

lemma two_digits_unique:
  fixes x y r z b :: nat
  assumes "x + b * y = r + b * z" "x < b" "r < b"
  shows "x = r \<and> y = z"
proof -
  have "(x + b * y) mod b = x" "(x + b * y) div b = y" "(r + b * z) mod b = r" "(r + b * z) div b = z"
    using assms(2,3) by simp_all
  then show ?thesis using assms(1) by simp
qed

lemma add_back:
  assumes P: "prims_ok P" and len: "n + 1 \<le> length a" "n \<le> 4" and small: "val a < base ^ (n + 1)"
    and v: "unat v < base ^ n" and eq: "val a + unat v = r + base ^ (n + 1)" "r < unat v"
    and s: "add_slice P a (take n (limbs v)) = (s, c)"
  shows "length s = length a" "val (s[n := s ! n + of_bool c]) = r"
proof -
  let ?b = "take n (limbs v)"
  have lb: "length ?b = n" using len(2) by simp
  have vb: "val ?b = unat v" using len(2) v by (simp add: val_take)
  show ls: "length s = length a" using add_slice_law(1) [OF P, of ?b a] lb len(1) s by simp
  have ds: "drop n s = drop n a" using add_slice_law(2) [OF P, of ?b a] lb len(1) s by simp
  have sum: "val (take n s) + (if c then base ^ n else 0) = val (take n a) + unat v"
    using add_slice_law(3) [OF P, of ?b a, unfolded lb vb] len(1) s by simp
  have nth: "s ! n = a ! n" using ds len(1) ls by (metis Suc_eq_plus1 Suc_le_eq hd_drop_conv_nth)
  have zero: "val (drop (n + 1) s) = 0"
    using ds small len(1) ls val_drop [of "n + 1" a]
    by (metis add.commute div_less drop_drop)
  have a: "val a = val (take n a) + base ^ n * unat (a ! n)"
    using val_of_slice(2) [OF refl refl len(1) small] len(1)
    by (simp add: take_Suc_conv_app_nth val_append)
  have "val (take n s) + base ^ n * (unat (s ! n) + of_bool c) = r + base ^ n * base"
    using sum a eq(1) nth by (simp add: algebra_simps split: if_splits)
  moreover have lt: "val (take n s) < base ^ n" "r < base ^ n"
    using val_lt [of "take n s"] ls len(1) v eq(2) by simp_all
  ultimately have "val (take n s) = r \<and> unat (s ! n) + of_bool c = base"
    by (intro two_digits_unique)
  moreover from this have "unat (s ! n + of_bool c) = 0"
    using unat_lt_base [of "s ! n"] by (cases c) (simp_all add: unat_word_ariths base_def)
  ultimately show "val (s[n := s ! n + of_bool c]) = r"
    using zero ls len(1) by (simp add: upd_conv_take_nth_drop val_append)
qed

lemma word_of_unat: "unat w = k \<Longrightarrow> w = of_nat k"
  using unat_bound [of w] by (auto simp: word_unat_eq_iff unat_of_nat_lt)

lemma knuth_step_correct:
  fixes v :: u256
  assumes P: "prims_ok P" and u: "length u = 9" "val u < unat v * base ^ Suc j" and q: "length q = 8"
    and n: "n = Suc (Suc k)" "n \<le> 4" "j + n \<le> 8"
    and v: "base ^ n \<le> 2 * unat v" "unat v < base ^ n"
    and W: "W = val u div base ^ j"
  shows "\<exists>u'. knuth_step P v n (limbs v ! (n - 1)) (limbs v ! (n - 2)) j (u, q)
      = Some (u', q[j := of_nat (W div unat v)])
    \<and> length u' = 9 \<and> val u' = W mod unat v * base ^ j + val u mod base ^ j"
proof -
  let ?v1 = "limbs v ! (n - 1)" and ?v2 = "limbs v ! (n - 2)" and ?a = "drop j u"
  obtain g where g: "guess_digit P u n j ?v1 ?v2 = Some g"
      "W div unat v \<le> unat g" "unat g \<le> W div unat v + 1"
    using guess_digit_correct [OF P u n v W] by blast
  obtain s c where s: "sub_slice P ?a (take (n + 1) (full_mul_u64 P v g)) = (s, c)" by fastforce
  have a: "n + 1 \<le> length ?a" "W = val ?a" using u(1) n(3) by (simp_all add: W val_drop)
  have v_pos: "0 < unat v" using v(1) by (metis base_pos gr0I le_0_eq mult_0_right not_less0 zero_less_power)
  have "W < unat v * base" using u(2) unfolding W by (simp add: less_mult_imp_div_less mult.assoc)
  also have "\<dots> \<le> base ^ (n + 1)" using v(2) by simp
  finally have W_lt: "W < base ^ (n + 1)" .
  note sub = subtract_guess [OF P a(1) n(2) a(2) W_lt v(2) v_pos g(2,3) s]
  have join: "val (take j u @ t) = val t * base ^ j + val u mod base ^ j" for t
    using u(1) n(3) by (simp add: val_append val_take mult.commute)
  have len: "length (take j u @ t) = 9" if "length t = length ?a" for t using that u(1) n(3) by simp
  show ?thesis
  proof (cases c)
    case False
    then have "g = of_nat (W div unat v)" "val s = W mod unat v"
      using sub(3) by (simp_all add: word_of_unat)
    then show ?thesis
      using g(1) s False q n join [of s] len [OF sub(1)] by (simp add: knuth_step_def)
  next
    case True
    then have c: "unat g = W div unat v + 1" "val s + unat v = W mod unat v + base ^ (n + 1)"
      using sub(4) by simp_all
    obtain t d where t: "add_slice P s (take n (limbs v)) = (t, d)" by fastforce
    have "val s < base ^ (n + 1)"
      using val_of_slice(1) [OF sub(1,2) a(1)] W_lt a(2) val_lt [of "take (n + 1) s"] sub(1) a(1) by simp
    then have restored: "length t = length s" "val (t[n := t ! n + of_bool d]) = W mod unat v"
      using add_back [OF P _ n(2) _ v(2) c(2) _ t] sub(1) a(1) v_pos by simp_all
    obtain g' where g': "checked_sub g 1 = Some g'" "unat g = unat g' + 1"
      using c(1) by (cases "checked_sub g 1") (auto simp: checked_sub_Some checked_sub_None)
    then have "g' = of_nat (W div unat v)"
      using c(1) by (simp add: word_of_unat)
    moreover have "(take j u @ t)[j + n := (take j u @ t) ! (j + n) + of_bool d]
        = take j u @ t[n := t ! n + of_bool d]"
      using u(1) n(3) by (simp add: list_update_append nth_append)
    ultimately show ?thesis
      using g(1) s True g'(1) t q n join [of "t[n := t ! n + of_bool d]"] restored sub(1) u(1) len
      by (simp add: knuth_step_def)
  qed
qed

section \<open>The whole division\<close>

lemma step_arith:
  fixes u W v b :: nat
  assumes "W = u div b" "u1 = W mod v * b + u mod b" "0 < b" "0 < v"
  shows "u = W div v * b * v + u1" "u1 < v * b"
proof -
  have "u = (W div v * v + W mod v) * b + u mod b" using assms(1) by simp
  then show "u = W div v * b * v + u1" unfolding assms(2) by (simp only: algebra_simps)
  have "u1 < (W mod v + 1) * b" using assms by simp
  also have "\<dots> \<le> v * b" using assms(4) by (intro mult_le_mono1) (simp add: Suc_leI)
  finally show "u1 < v * b" .
qed

lemma knuth_loop_correct:
  fixes v :: u256
  assumes P: "prims_ok P" and n: "n = Suc (Suc k)" "n \<le> 4"
    and v: "base ^ n \<le> 2 * unat v" "unat v < base ^ n"
    and "length u = 9" "length q = 8" "val u < unat v * base ^ Suc m" "m + n \<le> 8"
  shows "\<exists>u' q'. fold_opt (knuth_step P v n (limbs v ! (n - 1)) (limbs v ! (n - 2))) (rev [0 ..< m + 1]) (u, q)
      = Some (u', q')
    \<and> length u' = 9 \<and> length q' = 8 \<and> val u' = val u mod unat v
    \<and> val (take (m + 1) q') = val u div unat v \<and> drop (m + 1) q' = drop (m + 1) q"
  using assms(6-)
proof (induction m arbitrary: u q)
  case 0
  obtain u' where "knuth_step P v n (limbs v ! (n - 1)) (limbs v ! (n - 2)) 0 (u, q)
      = Some (u', q[0 := of_nat (val u div unat v)])" "length u' = 9" "val u' = val u mod unat v"
    using knuth_step_correct [OF P "0.prems"(1,3,2) n _ v refl] "0.prems"(4) by auto
  moreover have "val u div unat v < base" using "0.prems"(3) by (simp add: less_mult_imp_div_less mult.commute)
  ultimately show ?case
    using "0.prems"(2) by (cases q) (simp_all add: unat_of_nat_base)
next
  case (Suc m)
  let ?W = "val u div base ^ Suc m" and ?v = "unat v"
  obtain u1 where u1: "knuth_step P v n (limbs v ! (n - 1)) (limbs v ! (n - 2)) (Suc m) (u, q)
      = Some (u1, q[Suc m := of_nat (?W div ?v)])" "length u1 = 9"
      "val u1 = ?W mod ?v * base ^ Suc m + val u mod base ^ Suc m"
    using knuth_step_correct [OF P Suc.prems(1,3,2) n _ v refl] Suc.prems(4) by auto
  have v_pos: "0 < ?v" using v(1) by (metis base_pos gr0I le_0_eq mult_0_right not_less0 zero_less_power)
  note ar = step_arith [OF refl u1(3) _ v_pos]
  let ?q1 = "q[Suc m := of_nat (?W div ?v)]"
  obtain u' q' where r: "fold_opt (knuth_step P v n (limbs v ! (n - 1)) (limbs v ! (n - 2))) (rev [0 ..< m + 1]) (u1, ?q1)
      = Some (u', q')" "length u' = 9" "length q' = 8" "val u' = val u1 mod ?v"
      "val (take (m + 1) q') = val u1 div ?v" "drop (m + 1) q' = drop (m + 1) ?q1"
    using Suc.IH [of u1 ?q1] u1(2) Suc.prems(2,4) ar(2) by auto
  have "?W < base * ?v"
    using Suc.prems(3) by (simp add: less_mult_imp_div_less mult.commute mult.left_commute)
  then have d: "?W div ?v < base" by (simp add: less_mult_imp_div_less)
  have m8: "Suc m < 8" using Suc.prems(4) n by simp
  have "q' ! Suc m = ?q1 ! Suc m"
    using r(6) m8 r(3) Suc.prems(2) by (metis Suc_eq_plus1 hd_drop_conv_nth length_list_update)
  then have digit: "unat (q' ! Suc m) = ?W div ?v"
    using m8 Suc.prems(2) d by (simp add: unat_of_nat_base)
  have "take (Suc m + 1) q' = take (m + 1) q' @ [q' ! Suc m]"
    using m8 r(3) by (simp add: take_Suc_conv_app_nth)
  then have "val (take (Suc m + 1) q') = val u1 div ?v + base ^ Suc m * (?W div ?v)"
    using digit r(3,5) m8 by (simp add: val_append del: take_Suc)
  also have "\<dots> = val u div ?v"
    using v_pos by (subst (2) ar(1)) (simp_all add: mult.commute)
  finally have "val (take (Suc m + 1) q') = val u div ?v" .
  moreover have "val u mod ?v = val u1 mod ?v" by (subst ar(1)) simp_all
  moreover have "drop (Suc m + 1) q' = drop (Suc m + 1) q"
    using arg_cong [OF r(6), of tl] by (simp add: tl_drop flip: drop_Suc)
  ultimately show ?case using u1(1) r(1-4) by simp
qed

text \<open>Normalising the divisor: its top bit is set after the shift, and nothing is shifted out.\<close>

lemma normalised_divisor:
  fixes v :: u256
  assumes n: "n = Suc (Suc k)" "n \<le> 4" and v: "base ^ Suc k \<le> unat v" "unat v < base ^ n"
    and s: "s = leading_zeros (limbs v ! (n - 1))"
  shows "s < 64" "unat (push_bit s v) = unat v * 2 ^ s"
    "base ^ n \<le> 2 * (unat v * 2 ^ s)" "unat v * 2 ^ s < base ^ n"
proof -
  let ?t = "limbs v ! (n - 1)"
  have t: "unat ?t = unat v div base ^ Suc k"
    using val_nth [of "Suc k" "limbs v"] n v(2) by (simp add: less_mult_imp_div_less)
  have "0 < unat v div base ^ Suc k" using v(1) by (simp add: div_greater_zero_iff)
  then have "?t \<noteq> 0" using t by (metis unat_0 less_numeral_extra(3))
  note lz = leading_zeros_bounds [OF this, folded s]
  show s64: "s < 64" using lz(1) by simp
  have "base = 2 ^ (64 - s) * 2 ^ s" "base = 2 * (2 ^ (64 - s - 1) * 2 ^ s)"
    using s64 by (simp_all add: base_def flip: power_add power_Suc)
  note b = this
  have "unat v < (unat ?t + 1) * base ^ Suc k" unfolding t by (simp add: dividend_less_div_times del: power_Suc)
  also have "\<dots> \<le> 2 ^ (64 - s) * base ^ Suc k" using lz(3) by (intro mult_le_mono1) simp
  finally have "unat v * 2 ^ s < 2 ^ (64 - s) * base ^ Suc k * 2 ^ s" by simp
  also have "\<dots> = base ^ n" unfolding n(1) power_Suc [of base "Suc k"] by (subst (2) b(1)) (simp only: ac_simps)
  finally show lt: "unat v * 2 ^ s < base ^ n" .
  have "base ^ n = 2 * (2 ^ (64 - s - 1) * base ^ Suc k * 2 ^ s)"
    unfolding n(1) power_Suc [of base "Suc k"] by (subst b(2)) (simp only: ac_simps)
  also have "\<dots> \<le> 2 * (unat ?t * base ^ Suc k * 2 ^ s)" using lz(2) by simp
  also have "\<dots> \<le> 2 * (unat v * 2 ^ s)" unfolding t
    by (intro mult_le_mono2 mult_le_mono1) (rule div_times_less_eq_dividend)
  finally show "base ^ n \<le> 2 * (unat v * 2 ^ s)" .
  have "base ^ n \<le> base ^ 4" using n(2) less_imp_le [OF base_gt_1] by (rule power_increasing)
  with lt have "unat v * 2 ^ s < 2 ^ 256" by (simp add: base_power)
  then show "unat (push_bit s v) = unat v * 2 ^ s"
    unfolding unsigned_push_bit_eq by (simp add: push_bit_eq_mult take_bit_nat_eq_self)
qed

lemma div_mod_knuth_512_correct:
  fixes v :: u256
  assumes P: "prims_ok P" and x: "length x = 8" "val x < base ^ (m + n)" and n: "n = Suc (Suc k)" "n \<le> 4" "m + n \<le> 8"
    and v: "base ^ Suc k \<le> unat v" "unat v < base ^ n"
  shows "\<exists>q r. div_mod_knuth_512 P x v n m = Some (q, r) \<and> length q = 8
    \<and> val q = val x div unat v \<and> unat r = val x mod unat v"
proof -
  define s where "s = leading_zeros (limbs v ! (n - 1))"
  note norm = normalised_divisor [OF n(1,2) v s_def]
  obtain u where u: "full_shl_512 x s = Some u" "length u = 9" "val u = val x * 2 ^ s"
    using full_shl_512_val [OF x(1) norm(1)] by blast
  let ?v = "push_bit s v"
  have "2 * val u < 2 * (unat ?v * base ^ Suc m)"
  proof -
    have "2 * val u < base ^ (m + n) * (2 * 2 ^ s)" using x(2) unfolding u(3) by simp
    also have "\<dots> \<le> base ^ (m + n) * base"
    proof (intro mult_le_mono2)
      have "(2::nat) ^ Suc s \<le> 2 ^ 64" using norm(1) by (intro power_increasing) simp_all
      then show "2 * 2 ^ s \<le> base" by (simp add: base_def)
    qed
    also have "\<dots> = base ^ n * base ^ Suc m" by (simp add: power_add)
    also have "\<dots> \<le> 2 * (unat v * 2 ^ s) * base ^ Suc m" using norm(3) by (intro mult_le_mono1)
    finally show ?thesis unfolding norm(2) by (simp only: mult.assoc)
  qed
  then have u_lt: "val u < unat ?v * base ^ Suc m" by simp
  obtain u' q where l: "fold_opt (knuth_step P ?v n (limbs ?v ! (n - 1)) (limbs ?v ! (n - 2))) (rev [0 ..< m + 1])
        (u, replicate 8 0) = Some (u', q)"
      "length u' = 9" "length q = 8" "val u' = val u mod unat ?v"
      "val (take (m + 1) q) = val u div unat ?v" "drop (m + 1) q = drop (m + 1) (replicate 8 0)"
    using knuth_loop_correct [OF P n(1,2) norm(3,4) [folded norm(2)] u(2) _ u_lt n(3), of "replicate 8 0"] by auto
  have "val q = val (take (m + 1) q)"
    using val_split [of q "m + 1"] l(6) by (simp del: take_Suc)
  then have q: "val q = val x div unat v" unfolding l(5) u(3) norm(2) by simp
  have "val u' div 2 ^ s = val x mod unat v" unfolding l(4) u(3) norm(2) by (simp flip: mult_mod_left)
  moreover have "val x mod unat v < base ^ 4"
  proof -
    have "0 < unat v" using v(1) base_pos by (metis gr0I le_0_eq not_less0 zero_less_power)
    then show ?thesis using unat_lt_base4 [of v] mod_less_divisor [of "unat v" "val x"] by linarith
  qed
  ultimately have "unat (from_limbs (take N_WORDS (full_shr_512 u' s))) = val x mod unat v"
    using full_shr_512_val [OF l(2) norm(1)]
    by (simp add: N_WORDS_def unat_from_limbs val_take val_limbs_of mod_mod_cancel le_imp_power_dvd)
  moreover have get: "arr_get (limbs w) (n - 1) = Some (limbs w ! (n - 1))"
      "arr_get (limbs w) (n - 2) = Some (limbs w ! (n - 2))" for w using n by simp_all
  moreover have "2 * N_WORDS = 8" by (simp add: N_WORDS_def)
  then have "div_mod_knuth_512 P x v n m = Some (q, from_limbs (take N_WORDS (full_shr_512 u' s)))"
    unfolding div_mod_knuth_512_def Let_def
    by (simp only: get bind.bind_lunit u(1) l(1) case_prod_conv flip: s_def)
  ultimately show ?thesis using l(3) q by simp
qed

lemma div_small_loop_correct:
  assumes "prims_ok P" "rem < d" "div_small_loop P d rem ds = (qs, r)"
  shows "length qs = length ds
    \<and> val (rev ds) + base ^ length ds * unat rem = val (rev qs) * unat d + unat r \<and> r < d"
  using assms(2,3)
proof (induction ds arbitrary: rem qs r)
  case (Cons x ds)
  obtain q r1 where dm: "div_mod_word P rem x d = (q, r1)" by fastforce
  obtain qs' where qs: "div_small_loop P d r1 ds = (qs', r)" "qs = q # qs'"
    using Cons.prems(2) dm by (auto split: prod.splits)
  have w: "base * unat rem + unat x = unat q * unat d + unat r1" "r1 < d"
    using div_mod_word_law [OF assms(1) Cons.prems(1), of x] dm by simp_all
  have ih: "length qs' = length ds" "val (rev ds) + base ^ length ds * unat r1 = val (rev qs') * unat d + unat r" "r < d"
    using Cons.IH [OF w(2) qs(1)] by simp_all
  have "val (rev (x # ds)) + base ^ length (x # ds) * unat rem
      = val (rev ds) + base ^ length ds * (base * unat rem + unat x)"
    by (simp add: val_append algebra_simps)
  also have "\<dots> = val (rev qs) * unat d + unat r"
    using ih(1,2) qs(2) unfolding w(1) by (simp add: val_append algebra_simps)
  finally show ?case using ih qs(2) by simp
qed simp

lemma div_mod_eqI:
  fixes x q d r :: nat
  assumes "x = q * d + r" "r < d"
  shows "q = x div d" "r = x mod d"
  using assms by simp_all

lemma div_mod_small_512_correct:
  assumes "prims_ok P" "d \<noteq> 0"
  shows "\<exists>q r. div_mod_small_512 P x d = (q, r) \<and> length q = length x
    \<and> val q = val x div unat d \<and> unat r = val x mod unat d"
proof -
  obtain qs r where l: "div_small_loop P d 0 (rev x) = (qs, r)" by fastforce
  have "length qs = length x" "val x = val (rev qs) * unat d + unat r" "unat r < unat d"
    using div_small_loop_correct [OF assms(1) _ l] assms(2)
    by (auto simp: word_gt_0 simp flip: word_less_nat_alt)
  moreover have "unat (ucast r :: u256) = unat r"
    using unat_bound [of r] by (simp add: unsigned_ucast_eq take_bit_nat_eq_self)
  ultimately show ?thesis
    using l by (auto simp: div_mod_small_512_def intro: div_mod_eqI)
qed

lemma words_bounds:
  assumes "prims_ok P" "0 < b" "2 ^ (b - 1) \<le> x" "x < 2 ^ b"
  shows "base ^ (words P b - 1) \<le> x" "x < base ^ words P b"
proof -
  have w: "words P b = 1 + (b - 1) div 64" using words_law [OF assms(1,2)] .
  have "64 * ((b - 1) div 64) \<le> b - 1" by simp
  then have "(2::nat) ^ (64 * (words P b - 1)) \<le> 2 ^ (b - 1)" using w by (intro power_increasing) simp_all
  then show "base ^ (words P b - 1) \<le> x" using assms(3) unfolding base_power by (rule le_trans)
  have "b \<le> 64 * words P b" using w assms(2) by simp
  then have "(2::nat) ^ b \<le> 2 ^ (64 * words P b)" by (intro power_increasing) simp_all
  then show "x < base ^ words P b" using assms(4) unfolding base_power by (rule less_le_trans [rotated])
qed

lemma div_mod_512_correct:
  assumes P: "prims_ok P" and x: "length x = 8" and d: "d \<noteq> 0"
  shows "\<exists>q r. div_mod_512 P x d = Some (q, r) \<and> length q = 8
    \<and> val q = val x div unat d \<and> unat r = val x mod unat d"
proof -
  note db = uint_bits_bounds [OF d] and xb = bits_512_bounds [OF x]
  consider "bits_512 x < uint_bits d" | "uint_bits d \<le> bits_512 x" "uint_bits d \<le> 64"
    | "uint_bits d \<le> bits_512 x" "64 < uint_bits d" by linarith
  then show ?thesis
  proof cases
    case 1
    have "(2::nat) ^ bits_512 x \<le> 2 ^ (uint_bits d - 1)" using 1 by (intro power_increasing) simp_all
    then have lt: "val x < unat d" using xb(1) db(2) by linarith
    then have "val x < base ^ 4" using unat_lt_base4 [of d] by linarith
    then show ?thesis
      using 1 lt d x by (simp add: div_mod_512_def Let_def N_WORDS_def unat_from_limbs val_take)
  next
    case 2
    have "(2::nat) ^ uint_bits d \<le> 2 ^ 64" using 2(2) by (intro power_increasing) simp_all
    then have "unat (ucast d :: u64) = unat d"
      using db(3) by (simp add: unsigned_ucast_eq take_bit_nat_eq_self)
    moreover from this have "(ucast d :: u64) \<noteq> 0" using d by (metis unat_eq_zero)
    ultimately show ?thesis
      using 2 d x div_mod_small_512_correct [OF P, of "ucast d" x] by (auto simp: div_mod_512_def Let_def)
  next
    case 3
    have "val x \<noteq> 0"
    proof
      assume "val x = 0"
      then have "\<forall>i < 8. x ! i = 0" using x by (simp add: val_eq_0)
      then show False using 3 xb(4) find_upt_top [OF x] by auto
    qed
    then have xb: "0 < bits_512 x" "2 ^ (bits_512 x - 1) \<le> val x" using xb by simp_all
    let ?n = "words P (uint_bits d)" and ?mw = "words P (bits_512 x)"
    note wd = words_bounds [OF P db] and wx = words_bounds [OF P xb bits_512_bounds(1) [OF x]]
    have n: "2 \<le> ?n" "?n \<le> 4" "?n \<le> ?mw" "?mw \<le> 8"
      using 3 db(1) xb(1) bits_512_bounds(4) [OF x] words_law [OF P db(1)] words_law [OF P xb(1)]
      by (auto simp: uint_bits_def intro!: div_le_mono)
    then obtain k where k: "?n = Suc (Suc k)" by (metis add_2_eq_Suc le_Suc_ex)
    have "\<exists>q r. div_mod_knuth_512 P x d ?n (?mw - ?n) = Some (q, r) \<and> length q = 8
        \<and> val q = val x div unat d \<and> unat r = val x mod unat d"
    proof (rule div_mod_knuth_512_correct [OF P x _ k n(2)])
      show "val x < base ^ (?mw - ?n + ?n)" "?mw - ?n + ?n \<le> 8" using wx(2) n by simp_all
      show "base ^ Suc k \<le> unat d" "unat d < base ^ ?n" using wd k by simp_all
    qed
    then show ?thesis using 3 d by (simp add: div_mod_512_def Let_def)
  qed
qed

lemma checked_mul_div_eq:
  assumes "prims_ok P"
  shows "checked_mul_div P x y d =
    Some (if d = 0 \<or> 2 ^ 256 \<le> unat x * unat y div unat d then None
          else Some (of_nat (unat x * unat y div unat d), of_nat (unat x * unat y mod unat d)))"
proof (cases "d = 0")
  case False
  obtain q r where qr: "div_mod_512 P (full_mul P x y) d = Some (q, r)" "length q = 8"
      "val q = unat x * unat y div unat d" "unat r = unat x * unat y mod unat d"
    using div_mod_512_correct [OF assms _ False, of "full_mul P x y"] full_mul_law [OF assms] by auto
  have "list_ex (\<lambda>d. d \<noteq> 0) (drop 4 q) \<longleftrightarrow> val (drop 4 q) \<noteq> 0" by (simp add: val_eq_0 list_ex_iff)
  also have "\<dots> \<longleftrightarrow> 2 ^ 256 \<le> val q"
    using qr(2) by (simp add: val_drop base_power div_eq_0_iff not_less)
  finally show ?thesis
    using qr False
    by (auto simp: checked_mul_div_def N_WORDS_def from_limbs_def val_take base_power word_of_unat)
qed (simp add: checked_mul_div_def)

lemma mul_div_eq:
  assumes "prims_ok P" "d \<noteq> 0"
  shows "mul_div P x y d = Some (of_nat (unat x * unat y div unat d), of_nat (unat x * unat y mod unat d))"
proof -
  obtain q r where qr: "div_mod_512 P (full_mul P x y) d = Some (q, r)" "length q = 8"
      "val q = unat x * unat y div unat d" "unat r = unat x * unat y mod unat d"
    using div_mod_512_correct [OF assms(1) _ assms(2), of "full_mul P x y"] full_mul_law [OF assms(1)] by auto
  have "from_limbs (take 4 q) = of_nat (val q)"
    unfolding from_limbs_def using qr(2)
    by (simp add: word_unat_eq_iff val_take unsigned_of_nat take_bit_eq_mod base_power)
  then show ?thesis using qr by (simp add: mul_div_def N_WORDS_def word_of_unat)
qed

lemma fixed_precision_div_eq:
  assumes "prims_ok P"
  shows "fixed_precision_div P x y k =
    Some (if y = 0 \<or> (2::nat) ^ 256 \<le> 10 ^ unat k \<or> 2 ^ 256 \<le> unat x * 10 ^ unat k div unat y then None
          else Some (of_nat (unat x * 10 ^ unat k div unat y)))"
proof (cases "checked_pow (10 :: u256) (unat k)")
  case None
  then have "(2::nat) ^ 256 \<le> 10 ^ unat k" by (simp add: checked_pow_None)
  with None show ?thesis by (simp add: fixed_precision_div_def)
next
  case (Some p)
  then have "unat p = 10 ^ unat k" "(10::nat) ^ unat k < 2 ^ 256"
    using unat_bound [of p] by (simp_all add: checked_pow_Some)
  then show ?thesis
    using Some by (simp add: fixed_precision_div_def checked_mul_div_eq [OF assms] mult.commute)
qed

section \<open>An instance of the primitives\<close>

lemma plain_split: "unat (x :: u128) = base * unat (of_nat (unat x div base) :: u64) + unat (of_nat (unat x mod base) :: u64)"
proof -
  have "unat x < base * base" using unat_bound [of x] by (simp add: base_def)
  then have "unat x div base < base" by (simp add: less_mult_imp_div_less)
  then show ?thesis by (simp add: unat_of_nat_base)
qed

lemma plain_div_mod_word:
  fixes hi lo d :: u64
  defines "x \<equiv> base * unat hi + unat lo"
  assumes "hi < d"
  shows "x = unat (of_nat (x div unat d) :: u64) * unat d + unat (of_nat (x mod unat d) :: u64)"
    "(of_nat (x mod unat d) :: u64) < d"
proof -
  have d: "unat hi + 1 \<le> unat d" using assms(2) by (simp add: word_less_nat_alt)
  have "x < base * (unat hi + 1)" unfolding x_def by simp
  also have "\<dots> \<le> base * unat d" using d by (rule mult_le_mono2)
  finally have "x div unat d < base" by (simp add: less_mult_imp_div_less)
  moreover have "x mod unat d < unat d" using d by (intro mod_less_divisor) simp
  moreover from this have "x mod unat d < base" using unat_lt_base [of d] by linarith
  ultimately show "x = unat (of_nat (x div unat d) :: u64) * unat d + unat (of_nat (x mod unat d) :: u64)"
    "(of_nat (x mod unat d) :: u64) < d"
    by (simp_all add: unat_of_nat_base word_less_nat_alt)
qed

lemma plain_slices:
  assumes "length b \<le> length a"
  shows "val (limbs_of (length b) (val (take (length b) a) + base ^ length b - val b)) + val b
      = val (take (length b) a) + (if val (take (length b) a) < val b then base ^ length b else 0)"
    "val (limbs_of (length b) (val (take (length b) a) + val b))
      + (if base ^ length b \<le> val (take (length b) a) + val b then base ^ length b else 0)
      = val (take (length b) a) + val b"
proof -
  let ?x = "val (take (length b) a)" and ?B = "base ^ length b"
  have lt: "?x < ?B" "val b < ?B"
    using val_lt [of "take (length b) a"] val_lt [of b] assms by (simp_all add: min_absorb2)
  have "(?x + ?B - val b) mod ?B = (if ?x < val b then ?x + ?B - val b else ?x - val b)"
  proof (cases "?x < val b")
    case False
    then have "?x + ?B - val b = (?x - val b) + ?B" by simp
    then have "(?x + ?B - val b) mod ?B = (?x - val b) mod ?B" by (simp only: mod_add_self2)
    with False lt show ?thesis by simp
  qed (use lt in simp)
  then show "val (limbs_of (length b) (?x + ?B - val b)) + val b = ?x + (if ?x < val b then ?B else 0)"
    using lt by (auto simp: val_limbs_of)
  show "val (limbs_of (length b) (?x + val b)) + (if ?B \<le> ?x + val b then ?B else 0) = ?x + val b"
    using lt by (auto simp: val_limbs_of mod_if)
qed

lemma plain_prims_ok: "prims_ok plain_prims"
proof -
  have m1: "unat x * unat y < base ^ 5" for x :: u256 and y :: u64
  proof -
    have "unat x * unat y < base ^ 4 * base" using unat_lt_base4 [of x] by (intro mult_strict_mono) simp_all
    then show ?thesis by (simp add: power_numeral_reduce mult.assoc)
  qed
  have m2: "unat x * unat y < base ^ 8" for x y :: u256
  proof -
    have "unat x * unat y < base ^ 4 * base ^ 4"
      using unat_lt_base4 [of x] unat_lt_base4 [of y] by (intro mult_strict_mono) simp_all
    then show ?thesis by (simp flip: power_add)
  qed
  show ?thesis
    unfolding prims_ok_def plain_prims_def
    using plain_split plain_div_mod_word plain_slices m1 m2
    by (simp add: Let_def val_limbs_of)
qed

section \<open>The greatest common divisor is exact\<close>

lemma trailing_zeros_bits:
  fixes w :: "'a::len word"
  assumes "w \<noteq> 0"
  shows "bit w (trailing_zeros w)" "i < trailing_zeros w \<Longrightarrow> \<not> bit w i"
proof -
  let ?xs = "[0 ..< LENGTH('a)]" and ?k = "trailing_zeros w"
  obtain j where "bit w j" using assms by (metis bit_eqI bit_0_eq bot_apply bot_bool_def)
  then have "\<exists>i \<in> set ?xs. bit w i" using bit_imp_le_length [of w j] by (intro bexI [of _ j]) simp_all
  then have lt: "?k < LENGTH('a)" using takeWhile_shorter [of ?xs "bit w"] by (simp add: trailing_zeros_def)
  then show "bit w ?k"
    using nth_length_takeWhile [of "\<lambda>i. \<not> bit w i" ?xs] by (simp add: trailing_zeros_def)
  assume "i < ?k"
  then show "\<not> bit w i"
    using lt unfolding trailing_zeros_def
    by (metis (no_types, lifting) add_0 less_trans nth_mem nth_upt set_takeWhileD takeWhile_nth)
qed

lemma low_zeros:
  fixes w :: "'a::len word"
  assumes "\<And>i. i < k \<Longrightarrow> \<not> bit w i"
  shows "unat w = unat (drop_bit k w) * 2 ^ k" "odd (unat (drop_bit k w)) \<longleftrightarrow> bit w k"
proof -
  have d: "unat (drop_bit k w) = unat w div 2 ^ k"
    unfolding unsigned_drop_bit_eq using unat_bound [of w]
    by (simp add: drop_bit_eq_div take_bit_nat_eq_self)
  have "take_bit k w = 0" using assms by (intro bit_eqI) (auto simp: bit_take_bit_iff)
  then have "take_bit k (unat w) = 0" by (metis unsigned_take_bit_eq unsigned_0)
  then show "unat w = unat (drop_bit k w) * 2 ^ k"
    unfolding d by (simp add: take_bit_eq_mod mod_0_imp_dvd)
  show "odd (unat (drop_bit k w)) \<longleftrightarrow> bit w k"
    unfolding d using bit_imp_le_length [of w k]
    by (auto simp: bit_unsigned_iff simp flip: bit_iff_odd)
qed

lemma odd_part:
  fixes w :: "'a::len word"
  assumes "w \<noteq> 0"
  shows "odd (unat (drop_bit (trailing_zeros w) w))"
    "unat w = unat (drop_bit (trailing_zeros w) w) * 2 ^ trailing_zeros w"
  using low_zeros [of "trailing_zeros w" w] trailing_zeros_bits [OF assms] by auto

lemma gcd_odd_part:
  assumes "odd (u :: nat)"
  shows "gcd u (v * 2 ^ k) = gcd u v"
proof -
  have "coprime u (2 ^ k)" using assms by simp
  then show ?thesis by (simp add: gcd_mult_right_right_cancel)
qed

lemma gcd_loop_correct:
  assumes "odd (unat u)" "v \<noteq> 0"
  shows "gcd_loop u v = Some (of_nat (gcd (unat u) (unat v)))"
  using assms
proof (induction "unat u + unat v" arbitrary: u v rule: less_induct)
  case less
  define w where "w = drop_bit (trailing_zeros v) v"
  have w: "odd (unat w)" "unat v = unat w * 2 ^ trailing_zeros v"
    using odd_part [OF less.prems(2)] by (simp_all add: w_def)
  then have g: "gcd (unat u) (unat v) = gcd (unat u) (unat w)" using gcd_odd_part [OF less.prems(1)] by simp
  have "unat w \<le> unat v" using w(2) by simp
  define a b where "a = min u w" and "b = max u w - min u w"
  have ab: "odd (unat a)" using less.prems(1) w(1) by (simp add: a_def min_def)
  have b: "unat b = max (unat u) (unat w) - min (unat u) (unat w)" "unat a = min (unat u) (unat w)"
    by (auto simp: a_def b_def min_def max_def unat_sub word_le_nat_alt)
  have gab: "gcd (unat u) (unat w) = gcd (unat a) (unat b)"
    unfolding b using gcd_diff1_nat [of "unat u" "unat w"] gcd_diff1_nat [of "unat w" "unat u"]
    by (auto simp: min_def max_def gcd.commute)
  have step: "gcd_loop u v = (if b = 0 then Some a else gcd_loop a b)"
    by (subst gcd_loop.simps) (auto simp: Let_def a_def b_def min_def max_def w_def [symmetric])
  show ?case
  proof (cases "b = 0")
    case True
    then show ?thesis using step g gab by simp
  next
    case False
    have "0 < unat a" using ab by (metis even_zero gr0I)
    then have "unat a + unat b < unat u + unat v" using b \<open>unat w \<le> unat v\<close> by linarith
    then show ?thesis using less.hyps [of a b] ab False step g gab by simp
  qed
qed

lemma uint_gcd_correct:
  assumes "x \<noteq> 0" "y \<noteq> 0"
  shows "uint_gcd x y = Some (of_nat (gcd (unat x) (unat y)))"
proof -
  define s where "s = trailing_zeros (x OR y)"
  define u v where "u = drop_bit s x" and "v = drop_bit s y"
  define d where "d = drop_bit (trailing_zeros u) u"
  have xy: "x OR y \<noteq> 0" using assms(1) by (metis or_eq_0_iff)
  have z: "\<not> bit x i" "\<not> bit y i" if "i < s" for i
    using trailing_zeros_bits(2) [OF xy, of i] that by (simp_all add: s_def bit_or_iff)
  have x: "unat x = unat u * 2 ^ s" and y: "unat y = unat v * 2 ^ s"
    using low_zeros(1) [of s x] low_zeros(1) [of s y] z by (simp_all add: u_def v_def)
  have odd: "odd (unat u) \<or> odd (unat v)"
    using trailing_zeros_bits(1) [OF xy] low_zeros(2) [of s x] low_zeros(2) [of s y] z
    by (auto simp: u_def v_def s_def [symmetric] bit_or_iff)
  have nz: "u \<noteq> 0" "v \<noteq> 0" using x y assms by (metis mult_zero_left unat_eq_zero)+
  have d: "odd (unat d)" "unat u = unat d * 2 ^ trailing_zeros u" using odd_part [OF nz(1)] by (simp_all add: d_def)
  have "gcd (unat u) (unat v) = gcd (unat d) (unat v)"
  proof (cases "odd (unat v)")
    case True
    then show ?thesis using gcd_odd_part [of "unat v" "unat d"] d(2) by (simp add: gcd.commute)
  next
    case False
    then have "trailing_zeros u = 0" using odd d(2) by auto
    then show ?thesis using d(2) by simp
  qed
  then have "gcd (unat x) (unat y) = gcd (unat d) (unat v) * 2 ^ s"
    unfolding x y using gcd_mult_distrib_nat [of "2 ^ s" "unat u" "unat v"] by (simp add: mult.commute)
  then have "push_bit s (of_nat (gcd (unat d) (unat v)) :: u256) = of_nat (gcd (unat x) (unat y))"
    by (simp add: push_bit_eq_mult)
  then show ?thesis
    unfolding uint_gcd_def Let_def
    unfolding s_def [symmetric] u_def [symmetric] v_def [symmetric] d_def [symmetric]
    using assms gcd_loop_correct [OF d(1) nz(2)] by simp
qed

lemma uint_lcm_correct:
  assumes "x \<noteq> 0" "y \<noteq> 0"
  shows "uint_lcm x y = (if unat x * unat y < 2 ^ 256 then Some (of_nat (lcm (unat x) (unat y))) else None)"
proof (cases "unat x * unat y < 2 ^ 256")
  case True
  let ?g = "gcd (unat x) (unat y)"
  have pos: "0 < unat x" using assms(1) by (simp add: unat_gt_0)
  then have "?g \<le> unat x" by (simp add: gcd_le1_nat)
  then have g: "unat (of_nat ?g :: u256) = ?g"
    using unat_bound [of x] by (intro unat_of_nat_lt) (simp add: le_less_trans)
  have g0: "(of_nat ?g :: u256) \<noteq> 0" using g pos by (metis gcd_eq_0_iff not_gr0 unat_0)
  have "unat (x * y) = unat x * unat y" using True by (simp add: unat_word_ariths)
  moreover have "unat x * unat y div ?g = lcm (unat x) (unat y)"
    by (simp add: lcm_gcd)
  ultimately have "x * y div of_nat ?g = of_nat (lcm (unat x) (unat y))"
    using g by (intro word_of_unat) (simp add: unat_div)
  then show ?thesis
    using True g0 by (simp add: uint_lcm_def uint_gcd_correct [OF assms] checked_mul_def checked_div_def)
qed (simp add: uint_lcm_def checked_mul_def)

section \<open>Properties\<close>

text \<open>(C13) The division of 512-bit numbers, including Knuth's algorithm D with its estimated digits, is
  the division of natural numbers: for every dividend and every non-zero divisor it returns, without
  an underflow or an access out of range, the exact quotient and remainder; it panics only for zero.\<close>

theorem wide_division_exact:
  assumes "prims_ok P" and "length slf = 8"
  shows "div_mod_512 P slf other =
    (if other = 0 then None
     else Some (limbs_of 8 (val slf div unat other), of_nat (val slf mod unat other)))"
proof (cases "other = 0")
  case False
  then obtain q r where "div_mod_512 P slf other = Some (q, r)" "length q = 8"
      "val q = val slf div unat other" "unat r = val slf mod unat other"
    using div_mod_512_correct [OF assms] by blast
  then show ?thesis using False limbs_of_val [of q] by (simp add: word_of_unat)
qed (simp add: div_mod_512_def Let_def)

theorem wide_division_exact_witness:
  "prims_ok plain_prims \<and> length (replicate 8 (- 1 :: u64)) = 8
   \<and> div_mod_512 plain_prims (replicate 8 (- 1)) (2 ^ 200 + 1) =
       Some (limbs_of 8 (val (replicate 8 (- 1)) div unat (2 ^ 200 + 1 :: u256)),
             of_nat (val (replicate 8 (- 1)) mod unat (2 ^ 200 + 1 :: u256)))
   \<and> div_mod_512 plain_prims (replicate 8 (- 1)) 0 = None"
proof -
  have nz: "(2 ^ 200 + 1 :: u256) \<noteq> 0" by simp
  have len: "length (replicate 8 (- 1 :: u64)) = 8" by simp
  show ?thesis
    using wide_division_exact [OF plain_prims_ok len, of "2 ^ 200 + 1"]
      wide_division_exact [OF plain_prims_ok len, of 0] plain_prims_ok len
    unfolding if_not_P [OF nz] by simp
qed

text \<open>(C35) Multiplying and then dividing goes through the full 512-bit product. \<open>checked_mul_div\<close> returns
  \<open>None\<close> exactly for a zero divisor or a quotient of more than 256 bits, and the exact quotient and
  remainder otherwise. \<open>mul_div\<close> panics exactly for a zero divisor; its remainder is exact, and of a
  quotient of more than 256 bits it silently returns the low 256. \<open>fixed_precision_div\<close> returns the
  truncated quotient also where the scaled dividend does not fit into 256 bits, and \<open>None\<close> exactly for a
  zero divisor, a quotient that does not fit, or a scale \<open>10 ^ k\<close> that alone does not fit.\<close>

theorem mul_div_exact:
  assumes "prims_ok P"
  shows "checked_mul_div P x y d =
      Some (if d = 0 \<or> 2 ^ 256 \<le> unat x * unat y div unat d then None
            else Some (of_nat (unat x * unat y div unat d), of_nat (unat x * unat y mod unat d)))
    \<and> fixed_precision_div P x d k =
      Some (if d = 0 \<or> (2::nat) ^ 256 \<le> 10 ^ unat k \<or> 2 ^ 256 \<le> unat x * 10 ^ unat k div unat d then None
            else Some (of_nat (unat x * 10 ^ unat k div unat d)))
    \<and> mul_div P x y d = (if d = 0 then None
            else Some (of_nat (unat x * unat y div unat d), of_nat (unat x * unat y mod unat d)))"
proof -
  have "mul_div P x y 0 = None" by (simp add: mul_div_def div_mod_512_def Let_def)
  then show ?thesis
    using checked_mul_div_eq [OF assms] fixed_precision_div_eq [OF assms] mul_div_eq [OF assms] by auto
qed

theorem mul_div_exact_witness:
  "prims_ok plain_prims \<and> checked_mul_div plain_prims 7 9 4 = Some (Some (15, 3))
   \<and> fixed_precision_div plain_prims 7 2 1 = Some (Some 35)"
  using mul_div_exact [OF plain_prims_ok, of 7 9 4 1] mul_div_exact [OF plain_prims_ok, of 7 9 2 1] plain_prims_ok
  by simp

text \<open>(C36) The binary algorithm for the greatest common divisor ends and is exact for two non-zero
  numbers, and so is the least common multiple when the product fits into 256 bits. When an argument
  is zero the result is zero instead of the other argument, and the least common multiple panics.\<close>

theorem uint_gcd_exact:
  "uint_gcd x y = Some (if x = 0 \<or> y = 0 then 0 else of_nat (gcd (unat x) (unat y)))
   \<and> uint_lcm x y = (if x = 0 \<or> y = 0 \<or> 2 ^ 256 \<le> unat x * unat y then None
                    else Some (of_nat (lcm (unat x) (unat y))))"
proof (cases "x = 0 \<or> y = 0")
  case True
  then show ?thesis by (auto simp: uint_gcd_def uint_lcm_def checked_mul_def checked_div_def)
next
  case False
  then show ?thesis using uint_gcd_correct [of x y] uint_lcm_correct [of x y] by auto
qed

end
