(* ===== verification/Signed_Int.thy ===== *)
theory Signed_Int
  imports Uint_Division "HOL-Library.Signed_Division"
begin

unbundle bit_operations_syntax

text \<open>
  The signed 256-bit integers of \<open>core/src/types/uint.rs\<close>: \<open>I256\<close>, a \<open>Uint\<close> read as two's complement
  in which the word \<open>MINUS_ZERO\<close> is not used, with its sign tests, checked and unchecked arithmetic,
  comparison and conversions.

  \<open>i256_val\<close> is the integer that a value stands for and \<open>i256_ok\<close> says that it is canonical. The lemmas
  give each operation in terms of the values; \<open>i256_of\<close> is the representation of an integer.
\<close>

section \<open>Model\<close>

definition MAX_VALUE :: u256 where "MAX_VALUE = - 1"

definition MAX_SIGNED_VALUE :: u256 where "MAX_SIGNED_VALUE = 2 ^ 255 - 1"

definition MINUS_ZERO :: u256 where "MINUS_ZERO = 2 ^ 255"

definition uint_canonical :: "u256 \<Rightarrow> u256" where
  "uint_canonical x = (if x = MINUS_ZERO then 0 else x)"

definition uint_negate :: "u256 \<Rightarrow> u256" where
  "uint_negate x = uint_canonical (from_limbs (map (\<lambda>w. w XOR - 1) (limbs x)) + 1)"

datatype i256 = I256 (i256_raw: u256)

definition non_negative :: "i256 \<Rightarrow> bool" where
  "non_negative x \<longleftrightarrow> 0 < leading_zeros (limbs (i256_raw x) ! 3)"

definition is_negative :: "i256 \<Rightarrow> bool" where
  "is_negative x \<longleftrightarrow> \<not> non_negative x"

definition i256_is_zero :: "i256 \<Rightarrow> bool" where
  "i256_is_zero x \<longleftrightarrow> i256_raw x = 0"

definition is_positive :: "i256 \<Rightarrow> bool" where
  "is_positive x \<longleftrightarrow> non_negative x \<and> \<not> i256_is_zero x"

definition i256_abs :: "i256 \<Rightarrow> u256" where
  "i256_abs x = (if non_negative x then i256_raw x else uint_negate (i256_raw x))"

definition i256_canonical :: "i256 \<Rightarrow> i256" where
  "i256_canonical x = I256 (uint_canonical (i256_raw x))"

definition i256_try_from :: "u256 \<Rightarrow> i256 option" where
  "i256_try_from v = (if v \<le> MAX_SIGNED_VALUE then Some (I256 v) else None)"

definition i256_neg :: "i256 \<Rightarrow> i256" where
  "i256_neg x = I256 (uint_negate (i256_raw x))"

definition i256_cmp :: "i256 \<Rightarrow> i256 \<Rightarrow> ordering" where
  "i256_cmp x y =
     (case (non_negative x, non_negative y) of
        (True, False) \<Rightarrow> Greater
      | (False, True) \<Rightarrow> Less
      | (True, True) \<Rightarrow> compare_by (i256_abs x) (i256_abs y)
      | (False, False) \<Rightarrow> compare_by (i256_abs y) (i256_abs x))"

definition i256_add :: "i256 \<Rightarrow> i256 \<Rightarrow> i256 option" where
  "i256_add x y = map_option i256_canonical
     (case (non_negative x, non_negative y) of
        (True, True) \<Rightarrow> map_option I256 (checked_add (i256_raw x) (i256_raw y))
      | (False, False) \<Rightarrow> map_option (\<lambda>s. i256_neg (I256 s)) (checked_add (i256_abs x) (i256_abs y))
      | (True, False) \<Rightarrow>
          (if i256_abs y \<le> i256_raw x then map_option I256 (checked_sub (i256_raw x) (i256_abs y))
           else map_option (\<lambda>s. i256_neg (I256 s)) (checked_sub (i256_abs y) (i256_raw x)))
      | (False, True) \<Rightarrow>
          (if i256_abs x \<le> i256_raw y then map_option I256 (checked_sub (i256_raw y) (i256_abs x))
           else map_option (\<lambda>s. i256_neg (I256 s)) (checked_sub (i256_abs x) (i256_raw y))))"

definition i256_sub :: "i256 \<Rightarrow> i256 \<Rightarrow> i256 option" where
  "i256_sub x y = i256_add x (i256_neg y)"

definition i256_checked_add :: "i256 \<Rightarrow> i256 \<Rightarrow> i256 option option" where
  "i256_checked_add x y =
     (if non_negative x = non_negative y
      then Some (do {
        val \<leftarrow> checked_add (i256_abs x) (i256_abs y);
        val \<leftarrow> i256_try_from val;
        Some (if \<not> non_negative x then i256_neg val else val)
      })
      else map_option Some (i256_add x y))"

definition i256_checked_sub :: "i256 \<Rightarrow> i256 \<Rightarrow> i256 option option" where
  "i256_checked_sub x y = i256_checked_add x (i256_neg y)"

definition i256_mul_uint :: "i256 \<Rightarrow> u256 \<Rightarrow> i256 option" where
  "i256_mul_uint x rhs = do {
     prod \<leftarrow> checked_mul (i256_abs x) rhs;
     Some (if is_negative x then i256_neg (I256 prod) else I256 prod)
   }"

definition i256_checked_mul :: "i256 \<Rightarrow> i256 \<Rightarrow> i256 option" where
  "i256_checked_mul x v = do {
     prod \<leftarrow> checked_mul (i256_abs x) (i256_abs v);
     unsigned_res \<leftarrow> i256_try_from prod;
     Some (if is_negative x \<noteq> is_negative v then i256_neg unsigned_res else unsigned_res)
   }"

definition i256_mul :: "i256 \<Rightarrow> i256 \<Rightarrow> i256 option" where
  "i256_mul x rhs =
     (if is_negative rhs then i256_mul_uint (i256_neg x) (i256_abs rhs)
      else i256_mul_uint x (i256_abs rhs))"

definition i256_div_uint :: "uint_prims \<Rightarrow> i256 \<Rightarrow> u256 \<Rightarrow> i256 option" where
  "i256_div_uint P x rhs = do {
     q \<leftarrow> fixed_precision_div P (i256_abs x) rhs 0;
     let quot = unwrap_or q 0;
     Some (if is_negative x then i256_neg (I256 quot) else I256 quot)
   }"

definition i256_div :: "uint_prims \<Rightarrow> i256 \<Rightarrow> i256 \<Rightarrow> i256 option" where
  "i256_div P x rhs =
     (if is_negative rhs then map_option i256_neg (i256_div_uint P x (i256_abs rhs))
      else i256_div_uint P x (i256_abs rhs))"

definition i256_rem :: "i256 \<Rightarrow> i256 \<Rightarrow> i256 option" where
  "i256_rem x rhs =
     (if is_negative x then map_option (\<lambda>r. i256_neg (I256 r)) (checked_rem (i256_abs x) (i256_abs rhs))
      else map_option I256 (checked_rem (i256_abs x) (i256_abs rhs)))"

definition i256_from_u64 :: "u64 \<Rightarrow> i256 option" where
  "i256_from_u64 v = i256_try_from (ucast v)"

text \<open>An \<open>i128\<close> is a 128-bit word read with its sign; negating the smallest one panics.\<close>

definition i256_from_i128 :: "u128 \<Rightarrow> i256 option" where
  "i256_from_i128 v =
     (if sint v < 0
      then if v = 2 ^ 127 then None else Some (i256_neg (I256 (ucast (- v))))
      else Some (I256 (ucast v)))"

definition u128_try_from :: "u256 \<Rightarrow> u128 option" where
  "u128_try_from v = (if list_all (\<lambda>w. w = 0) (drop 2 (limbs v)) then Some (ucast v) else None)"

text \<open>The result is \<open>None\<close> when the negation of the cast panics, \<open>Some None\<close> for the error.\<close>

definition i128_try_from :: "i256 \<Rightarrow> u128 option option" where
  "i128_try_from x =
     (case u128_try_from (i256_abs x) of
        None \<Rightarrow> Some None
      | Some v \<Rightarrow>
          (if \<not> non_negative x then if v = 2 ^ 127 then None else Some (Some (- v))
           else Some (Some v)))"

fun i256_sum :: "i256 \<Rightarrow> i256 list \<Rightarrow> i256 option" where
  "i256_sum acc [] = Some acc"
| "i256_sum acc (x # xs) = do { acc' \<leftarrow> i256_add acc x; i256_sum acc' xs }"

section \<open>The value of a signed integer\<close>

definition i256_val :: "i256 \<Rightarrow> int" where
  "i256_val x = sint (i256_raw x)"

definition i256_ok :: "i256 \<Rightarrow> bool" where
  "i256_ok x \<longleftrightarrow> i256_raw x \<noteq> MINUS_ZERO"

text \<open>The bound is kept as a constant so that the proofs stay linear.\<close>

definition half :: int where "half = 2 ^ 255"

definition in_range :: "int \<Rightarrow> bool" where
  "in_range z \<longleftrightarrow> \<bar>z\<bar> < half"

named_theorems i256_simps \<open>operations on signed integers in terms of their value\<close>

lemma leading_zeros_pos_iff: "0 < leading_zeros (w :: u64) \<longleftrightarrow> unat w < 2 ^ 63"
proof (cases "w = 0")
  case False
  note b = leading_zeros_bounds [OF False]
  show ?thesis
  proof (cases "leading_zeros w = 0")
    case True
    then show ?thesis using b(2) by simp
  next
    case nz: False
    then have "(2::nat) ^ (64 - leading_zeros w) \<le> 2 ^ 63" using b(1) by (intro power_increasing) simp_all
    then have "unat w < 2 ^ 63" using b(3) by simp
    then show ?thesis using nz by simp
  qed
qed simp

lemma top_limb_iff: "0 < leading_zeros (limbs x ! 3) \<longleftrightarrow> unat x < 2 ^ 255"
proof -
  have "unat x div base ^ 3 < base" using unat_lt_base4 [of x] by (simp add: less_mult_imp_div_less power_numeral_reduce)
  then have "unat (limbs x ! 3) = unat x div base ^ 3" using val_nth [of 3 "limbs x"] by simp
  then show ?thesis
    unfolding leading_zeros_pos_iff by (simp add: div_less_iff_less_mult base_def)
qed

lemma val_complement: "val (map (\<lambda>w. w XOR - 1) ls) + val ls + 1 = base ^ length ls"
proof (induction ls)
  case (Cons l ls)
  have "l XOR - 1 = - 1 - l" by (simp add: not_eq_complement)
  moreover have "unat (- 1 - l) = base - 1 - unat l"
    by (subst unat_sub) (simp_all add: base_def unsigned_minus_1_eq_mask mask_eq_exp_minus_1)
  ultimately have "unat (l XOR - 1) = base - 1 - unat l" by simp
  then have "unat (l XOR - 1) + unat l + 1 = base" using unat_lt_base [of l] by linarith
  moreover have "val (map (\<lambda>w. w XOR - 1) (l # ls)) + val (l # ls) + 1
      = (unat (l XOR - 1) + unat l + 1) + base * (val (map (\<lambda>w. w XOR - 1) ls) + val ls)"
    by (simp only: list.map val.simps algebra_simps)
  ultimately have "val (map (\<lambda>w. w XOR - 1) (l # ls)) + val (l # ls) + 1
      = base * (val (map (\<lambda>w. w XOR - 1) ls) + val ls + 1)"
    by (simp only: distrib_left mult_1_right add.commute)
  then show ?case unfolding Cons by simp
qed simp

lemma uint_negate_eq: "uint_negate x = uint_canonical (- x)"
proof -
  let ?c = "from_limbs (map (\<lambda>w. w XOR - 1) (limbs x))"
  have "unat ?c + unat x + 1 = base ^ 4"
    using val_complement [of "limbs x"] by (simp add: unat_from_limbs)
  then have "(of_nat (unat ?c + unat x + 1) :: u256) = of_nat (2 ^ 256)" by (simp add: base_power)
  also have "\<dots> = 0" by (simp only: of_nat_power of_nat_numeral) simp
  finally have "?c + 1 = - x" by (simp add: eq_neg_iff_add_eq_0 algebra_simps)
  then show ?thesis by (simp add: uint_negate_def)
qed

lemma half_pos: "0 < half" and half_gt_1: "1 < half"
  by (simp_all add: half_def)

lemma u256_bounds: "0 \<le> uint (x :: u256) \<and> uint x < 2 * half \<and> 0 < half"
proof -
  have "uint x < 2 ^ 256" using unsigned_less [of x] by simp
  then show ?thesis by (simp add: half_def)
qed

lemma sint_cases: "sint (x :: u256) = (if uint x < half then uint x else uint x - 2 * half)"
proof -
  have s: "sint x = (uint x + half) mod (2 * half) - half"
    using int_word_sint [where 'a = 256, of "uint x"] by (simp add: half_def)
  show ?thesis
  proof (cases "uint x < half")
    case True
    then show ?thesis using s u256_bounds [of x] by (simp add: mod_pos_pos_trivial)
  next
    case False
    have "(uint x + half) mod (2 * half) = (uint x - half) mod (2 * half)"
      using mod_add_self2 [of "uint x - half" "2 * half"] by (simp add: add.commute)
    also have "\<dots> = uint x - half" using False u256_bounds [of x] by (intro mod_pos_pos_trivial) linarith+
    finally show ?thesis using s False by simp
  qed
qed

lemma uint_eq_0: "uint (x :: u256) = 0 \<longleftrightarrow> x = 0"
  by (simp add: word_uint_eq_iff)

lemma uint_pos: "0 < uint (x :: u256) \<longleftrightarrow> x \<noteq> 0"
  using u256_bounds [of x] uint_eq_0 [of x] by linarith

lemma uint_uminus: "uint (- x :: u256) = (if x = 0 then 0 else 2 * half - uint x)"
proof (cases "x = 0")
  case False
  then have "0 < uint x" using u256_bounds [of x] uint_eq_0 [of x] by linarith
  have "uint (- x) = (- uint x) mod (2 * half)" by (simp add: uint_word_ariths half_def)
  also have "\<dots> = (2 * half - uint x) mod (2 * half)" using mod_add_self2 [of "- uint x" "2 * half"] by (simp add: algebra_simps)
  also have "\<dots> = 2 * half - uint x"
    using \<open>0 < uint x\<close> u256_bounds [of x] by (intro mod_pos_pos_trivial) linarith+
  finally show ?thesis using False by simp
qed simp

text \<open>The sign, the negation and the absolute value; the words of \<open>i256_ok\<close> integers are two's complement.\<close>

lemma uint_MINUS_ZERO: "uint MINUS_ZERO = half"
  by (simp add: MINUS_ZERO_def half_def)

lemma uint_MAX_SIGNED_VALUE: "uint MAX_SIGNED_VALUE = half - 1"
  by (simp add: MAX_SIGNED_VALUE_def half_def)

lemma val_cases:
  "i256_val x = (if uint (i256_raw x) < half then uint (i256_raw x) else uint (i256_raw x) - 2 * half)"
  by (simp add: i256_val_def sint_cases)

lemma val_range: "- half \<le> i256_val x" "i256_val x < half"
  using u256_bounds [of "i256_raw x"] unfolding val_cases
  by (cases "uint (i256_raw x) < half"; simp only: if_True if_False; linarith)+

lemma ok_iff: "i256_ok x \<longleftrightarrow> in_range (i256_val x)"
proof -
  have "i256_ok x \<longleftrightarrow> uint (i256_raw x) \<noteq> half"
    by (simp add: i256_ok_def word_uint_eq_iff uint_MINUS_ZERO)
  also have "\<dots> \<longleftrightarrow> in_range (i256_val x)"
    using u256_bounds [of "i256_raw x"] unfolding in_range_def val_cases
    by (cases "uint (i256_raw x) < half"; simp only: if_True if_False; arith)
  finally show ?thesis .
qed

lemma non_negative_iff [i256_simps]: "non_negative x \<longleftrightarrow> 0 \<le> i256_val x"
proof -
  have "non_negative x \<longleftrightarrow> int (unat (i256_raw x)) < int (2 ^ 255)"
    unfolding non_negative_def top_limb_iff by (rule of_nat_less_iff [symmetric])
  then have "non_negative x \<longleftrightarrow> uint (i256_raw x) < half" by (simp add: half_def)
  then show ?thesis using u256_bounds [of "i256_raw x"] val_cases [of x] by (auto split: if_splits)
qed

lemma is_negative_iff [i256_simps]: "is_negative x \<longleftrightarrow> i256_val x < 0"
  by (auto simp: is_negative_def non_negative_iff)

lemma canonical_uminus: "x \<noteq> MINUS_ZERO \<Longrightarrow> uint_canonical (- x) = - x"
proof -
  assume "x \<noteq> MINUS_ZERO"
  moreover have "- MINUS_ZERO = MINUS_ZERO" by (simp add: MINUS_ZERO_def)
  ultimately have "- x \<noteq> MINUS_ZERO" by (metis minus_minus)
  then show ?thesis by (simp add: uint_canonical_def)
qed

lemma abs_raw: "i256_ok x \<Longrightarrow> i256_abs x = (if 0 \<le> i256_val x then i256_raw x else - i256_raw x)"
  by (simp add: i256_abs_def non_negative_iff uint_negate_eq canonical_uminus i256_ok_def)

lemma uint_abs [i256_simps]:
  assumes "i256_ok x"
  shows "uint (i256_abs x) = \<bar>i256_val x\<bar>"
proof (cases "uint (i256_raw x) < half")
  case True
  then show ?thesis using assms u256_bounds [of "i256_raw x"] by (simp add: abs_raw val_cases)
next
  case False
  then have "i256_raw x \<noteq> 0" using half_pos by auto
  then show ?thesis using False assms u256_bounds [of "i256_raw x"] by (simp add: abs_raw val_cases uint_uminus)
qed

lemma neg_ok [simp]: "i256_ok (i256_neg x)"
proof -
  have "(0 :: u256) \<noteq> MINUS_ZERO" by (simp add: MINUS_ZERO_def)
  then show ?thesis by (simp add: i256_neg_def uint_negate_eq uint_canonical_def i256_ok_def)
qed

lemma neg_raw: "i256_ok x \<Longrightarrow> i256_neg x = I256 (- i256_raw x)"
  by (simp add: i256_neg_def uint_negate_eq canonical_uminus i256_ok_def)

lemma val_neg [i256_simps]:
  assumes "i256_ok x"
  shows "i256_val (i256_neg x) = - i256_val x"
proof -
  have "uint (i256_raw x) \<noteq> half" using assms by (simp add: i256_ok_def word_uint_eq_iff uint_MINUS_ZERO)
  then show ?thesis
    using assms u256_bounds [of "i256_raw x"] by (simp add: neg_raw val_cases uint_uminus)
qed

text \<open>A word is the canonical representation of a value in range.\<close>

lemma val_of_int: "in_range z \<Longrightarrow> i256_val (I256 (word_of_int z)) = z"
proof -
  assume z: "in_range z"
  have "sint (word_of_int z :: u256) = (z + half) mod (2 * half) - half"
    using int_word_sint [where 'a = 256, of z] by (simp add: half_def)
  also have "(z + half) mod (2 * half) = z + half"
    using z by (intro mod_pos_pos_trivial) (simp_all add: in_range_def)
  finally show ?thesis by (simp add: i256_val_def)
qed

lemma val_inject: "i256_val x = i256_val y \<longleftrightarrow> x = y"
  by (cases x; cases y) (auto simp: i256_val_def intro: signed_word_eqI)

section \<open>Operations on values\<close>

definition i256_of :: "int \<Rightarrow> i256" where
  "i256_of z = I256 (word_of_int z)"

lemma val_i256_of [i256_simps]: "in_range z \<Longrightarrow> i256_val (i256_of z) = z"
  by (simp add: i256_of_def val_of_int)

lemma i256_of_ok: "in_range z \<Longrightarrow> i256_ok (i256_of z)"
  by (simp add: ok_iff val_i256_of)

lemma i256_of_val [simp]: "i256_of (i256_val x) = x"
  by (simp add: i256_of_def i256_val_def)

lemma i256_eqI: "in_range z \<Longrightarrow> i256_val x = z \<Longrightarrow> x = i256_of z"
  by auto

lemma canonical_ok: "i256_ok x \<Longrightarrow> i256_canonical x = x"
  by (simp add: i256_canonical_def i256_ok_def uint_canonical_def)

lemma unat_uint: "unat x = nat (uint x)"
  by simp

lemma checked_add_uint: "checked_add (a :: u256) b = (if uint a + uint b < 2 * half then Some (a + b) else None)"
proof -
  have "unat a + unat b < 2 ^ LENGTH(256) \<longleftrightarrow> int (unat a + unat b) < int (2 ^ 256)"
    by (simp only: of_nat_less_iff) simp
  also have "\<dots> \<longleftrightarrow> uint a + uint b < 2 * half" by (simp add: half_def)
  finally show ?thesis by (simp add: checked_add_def)
qed

lemma checked_mul_uint: "checked_mul (a :: u256) b = (if uint a * uint b < 2 * half then Some (a * b) else None)"
proof -
  have "unat a * unat b < 2 ^ LENGTH(256) \<longleftrightarrow> int (unat a * unat b) < int (2 ^ 256)"
    by (simp only: of_nat_less_iff) simp
  also have "\<dots> \<longleftrightarrow> uint a * uint b < 2 * half" by (simp add: half_def)
  finally show ?thesis by (simp add: checked_mul_def)
qed

lemma uint_add_u256: "uint a + uint b < 2 * half \<Longrightarrow> uint (a + b :: u256) = uint a + uint b"
  using u256_bounds [of a] u256_bounds [of b] by (simp add: uint_word_ariths half_def)

lemma uint_mul_u256: "uint a * uint b < 2 * half \<Longrightarrow> uint (a * b :: u256) = uint a * uint b"
  by (simp add: uint_word_ariths half_def)

lemma val_small: "uint w < half \<Longrightarrow> i256_val (I256 w) = uint w"
  by (simp add: val_cases)

lemma try_from_eq: "i256_try_from w = (if uint w < half then Some (I256 w) else None)"
  by (simp add: i256_try_from_def word_le_def uint_MAX_SIGNED_VALUE)

text \<open>Addition of canonical integers is addition of words; the only special case is the word \<open>MINUS_ZERO\<close>.\<close>

lemma add_raw:
  assumes "i256_ok x" "i256_ok y"
  shows "i256_add x y = Some (i256_canonical (I256 (i256_raw x + i256_raw y)))"
proof -
  note b = val_range [of x] val_range [of y] uint_abs [OF assms(1)] uint_abs [OF assms(2)]
    u256_bounds [of "i256_raw x"] ok_iff [of x] ok_iff [of y]
  have canon: "i256_canonical (i256_neg (I256 w)) = i256_canonical (I256 (- w))" for w
    by (simp add: i256_canonical_def i256_neg_def uint_negate_eq uint_canonical_def)
  have nn: "0 \<le> i256_val z \<Longrightarrow> uint (i256_raw z) = i256_val z" for z
    using val_cases [of z] u256_bounds [of "i256_raw z"] by (simp split: if_splits)
  consider "0 \<le> i256_val x" "0 \<le> i256_val y" | "i256_val x < 0" "i256_val y < 0"
    | "0 \<le> i256_val x" "i256_val y < 0" | "i256_val x < 0" "0 \<le> i256_val y" by linarith
  then show ?thesis
  proof cases
    case 1
    then show ?thesis using b(2,4) nn [of x] nn [of y]
      by (simp add: i256_add_def non_negative_iff checked_add_uint)
  next
    case 2
    have "uint (i256_abs x) + uint (i256_abs y) < 2 * half"
      using b assms 2 by (simp add: in_range_def)
    then show ?thesis using 2 assms
      by (simp add: i256_add_def non_negative_iff checked_add_uint canon abs_raw add.commute)
  next
    case 3
    then show ?thesis using assms
      by (auto simp: i256_add_def non_negative_iff checked_sub_def canon abs_raw add.commute)
  next
    case 4
    then show ?thesis using assms
      by (auto simp: i256_add_def non_negative_iff checked_sub_def canon abs_raw add.commute)
  qed
qed

lemma add_exact:
  assumes "i256_ok x" "i256_ok y" "in_range (i256_val x + i256_val y)"
  shows "i256_add x y = Some (i256_of (i256_val x + i256_val y))"
proof -
  have "I256 (i256_raw x + i256_raw y) = i256_of (i256_val x + i256_val y)"
    by (simp add: i256_of_def i256_val_def)
  then show ?thesis
    using add_raw [OF assms(1,2)] canonical_ok [OF i256_of_ok [OF assms(3)]] by simp
qed

lemma sub_exact:
  assumes "i256_ok x" "i256_ok y" "in_range (i256_val x - i256_val y)"
  shows "i256_sub x y = Some (i256_of (i256_val x - i256_val y))"
  using add_exact [OF assms(1) neg_ok [of y]] assms by (simp add: i256_sub_def val_neg)

lemma neg_zero [simp]: "i256_neg (I256 0) = I256 0"
  by (simp add: i256_neg_def uint_negate_eq uint_canonical_def MINUS_ZERO_def)

text \<open>A sign and an absolute value; the sign of zero does not matter.\<close>

lemma signed_of_abs:
  assumes "in_range z" "uint w = \<bar>z\<bar>" "z \<noteq> 0 \<Longrightarrow> neg \<longleftrightarrow> z < 0"
  shows "(if neg then i256_neg (I256 w) else I256 w) = i256_of z"
proof (cases "z = 0")
  case True
  then have "w = 0" using assms(2) by (simp add: uint_eq_0)
  then show ?thesis using True by (simp add: i256_of_def)
next
  case False
  have "uint w < half" using assms by (simp add: in_range_def)
  then have v: "i256_val (I256 w) = \<bar>z\<bar>" using assms(2) by (simp add: val_small)
  then have "i256_ok (I256 w)" using assms(1) by (simp add: ok_iff in_range_def)
  then have "i256_val (if neg then i256_neg (I256 w) else I256 w) = z"
    using v False assms(3) by (auto simp: val_neg)
  then show ?thesis using assms(1) by (rule i256_eqI [rotated])
qed

lemma checked_add_exact:
  assumes "i256_ok x" "i256_ok y"
  shows "i256_checked_add x y =
    Some (if in_range (i256_val x + i256_val y) then Some (i256_of (i256_val x + i256_val y)) else None)"
proof (cases "0 \<le> i256_val x \<longleftrightarrow> 0 \<le> i256_val y")
  case True
  let ?z = "i256_val x + i256_val y" and ?w = "i256_abs x + i256_abs y"
  have abs: "\<bar>i256_val x\<bar> + \<bar>i256_val y\<bar> = \<bar>?z\<bar>" "\<not> 0 \<le> i256_val x \<longleftrightarrow> ?z < 0" using True by auto
  have "\<bar>?z\<bar> < 2 * half" using assms by (simp add: ok_iff in_range_def)
  then have w: "checked_add (i256_abs x) (i256_abs y) = Some ?w" "uint ?w = \<bar>?z\<bar>"
    using assms by (simp_all add: checked_add_uint uint_add_u256 uint_abs abs(1))
  show ?thesis
  proof (cases "in_range ?z")
    case r: True
    then have "i256_try_from ?w = Some (I256 ?w)" using w(2) by (simp add: try_from_eq in_range_def)
    then show ?thesis
      using True r w(1) signed_of_abs [OF r w(2), of "\<not> 0 \<le> i256_val x"] abs(2) by (simp add: i256_checked_add_def non_negative_iff)
  next
    case False
    then show ?thesis
      using True w by (simp add: i256_checked_add_def non_negative_iff try_from_eq in_range_def)
  qed
next
  case False
  then have "in_range (i256_val x + i256_val y)" using assms by (auto simp: ok_iff in_range_def)
  then show ?thesis
    using False add_exact [OF assms] by (simp add: i256_checked_add_def non_negative_iff)
qed

lemma checked_sub_exact:
  assumes "i256_ok x" "i256_ok y"
  shows "i256_checked_sub x y =
    Some (if in_range (i256_val x - i256_val y) then Some (i256_of (i256_val x - i256_val y)) else None)"
  using checked_add_exact [OF assms(1) neg_ok [of y]] assms(2) by (simp add: i256_checked_sub_def val_neg)


lemma mul_uint_exact:
  assumes "i256_ok x" "in_range (i256_val x * uint r)"
  shows "i256_mul_uint x r = Some (i256_of (i256_val x * uint r))"
proof -
  let ?z = "i256_val x * uint r" and ?w = "i256_abs x * r"
  have abs: "uint (i256_abs x) * uint r = \<bar>?z\<bar>" using assms(1) by (simp add: uint_abs abs_mult)
  moreover have "\<bar>?z\<bar> < 2 * half" using assms(2) half_pos by (simp add: in_range_def)
  ultimately have w: "checked_mul (i256_abs x) r = Some ?w" "uint ?w = \<bar>?z\<bar>"
    by (simp_all add: checked_mul_uint uint_mul_u256)
  have "i256_val x < 0 \<longleftrightarrow> ?z < 0" if "?z \<noteq> 0"
    using that uint_pos [of r] by (auto simp: mult_less_0_iff)
  then show ?thesis
    using w(1) signed_of_abs [OF assms(2) w(2)] by (simp add: i256_mul_uint_def is_negative_iff)
qed

lemma mul_exact:
  assumes "i256_ok x" "i256_ok y" "in_range (i256_val x * i256_val y)"
  shows "i256_mul x y = Some (i256_of (i256_val x * i256_val y))"
proof (cases "i256_val y < 0")
  case True
  then have "i256_val (i256_neg x) * uint (i256_abs y) = i256_val x * i256_val y"
    using assms by (simp add: val_neg uint_abs)
  then show ?thesis
    using True mul_uint_exact [OF neg_ok, of x "i256_abs y"] assms(3) by (simp add: i256_mul_def is_negative_iff)
next
  case False
  then show ?thesis
    using mul_uint_exact [OF assms(1), of "i256_abs y"] assms by (simp add: i256_mul_def is_negative_iff uint_abs)
qed

text \<open>Outside of the range the product sets the sign bit, and panics only from \<open>2 ^ 256\<close> on.\<close>

lemma i256_of_period: "i256_of (z + 2 * half) = i256_of z" "i256_of (z - 2 * half) = i256_of z"
proof -
  have "word_of_int (2 * half) = (0 :: u256)" by (simp add: half_def)
  then show "i256_of (z + 2 * half) = i256_of z" "i256_of (z - 2 * half) = i256_of z"
    by (simp_all only: i256_of_def wi_hom_add [symmetric] wi_hom_sub [symmetric]) simp_all
qed

lemma mul_uint_wraps:
  assumes "i256_ok x" "half < \<bar>i256_val x * uint r\<bar>" "\<bar>i256_val x * uint r\<bar> < 2 * half"
  shows "i256_mul_uint x r = Some (i256_of (i256_val x * uint r))"
proof -
  let ?p = "i256_abs x * r"
  have u: "uint (i256_abs x) * uint r = \<bar>i256_val x * uint r\<bar>"
    using uint_abs [OF assms(1)] u256_bounds [of r] by (simp add: abs_mult)
  then have p: "checked_mul (i256_abs x) r = Some ?p" "uint ?p = \<bar>i256_val x * uint r\<bar>"
    using assms(3) by (simp_all add: checked_mul_uint uint_mul_u256)
  then have w: "?p = word_of_int \<bar>i256_val x * uint r\<bar>" by (metis word_of_int_uint)
  have "?p \<noteq> MINUS_ZERO" using p(2) assms(2) by (auto simp: word_uint_eq_iff uint_MINUS_ZERO)
  then have n: "i256_neg (I256 ?p) = I256 (- ?p)" by (intro neg_raw [of "I256 ?p", simplified]) (simp add: i256_ok_def)
  show ?thesis
  proof (cases "i256_val x < 0")
    case True
    then have "\<bar>i256_val x * uint r\<bar> = - (i256_val x * uint r)"
      using uint_pos [of r] by (intro abs_of_nonpos) (simp add: mult_le_0_iff)
    then show ?thesis using True p(1) n w by (simp add: i256_mul_uint_def is_negative_iff i256_of_def)
  next
    case False
    then have "\<bar>i256_val x * uint r\<bar> = i256_val x * uint r" using u256_bounds [of r] by simp
    then show ?thesis using False p(1) w by (simp add: i256_mul_uint_def is_negative_iff i256_of_def)
  qed
qed

lemma mul_wraps:
  assumes "i256_ok x" "i256_ok y" "half < \<bar>i256_val x * i256_val y\<bar>" "\<bar>i256_val x * i256_val y\<bar> < 2 * half"
  shows "i256_mul x y = Some (i256_of (i256_val x * i256_val y))"
proof (cases "i256_val y < 0")
  case True
  then have "i256_val (i256_neg x) * uint (i256_abs y) = i256_val x * i256_val y"
    using assms by (simp add: val_neg uint_abs)
  then show ?thesis using True mul_uint_wraps [OF neg_ok [of x], of "i256_abs y"] assms(3,4) by (simp add: i256_mul_def is_negative_iff)
next
  case False
  then show ?thesis
    using mul_uint_wraps [OF assms(1), of "i256_abs y"] assms by (simp add: i256_mul_def is_negative_iff uint_abs)
qed

lemma mul_None:
  assumes "i256_ok x" "i256_ok y"
  shows "i256_mul x y = None \<longleftrightarrow> 2 * half \<le> \<bar>i256_val x * i256_val y\<bar>"
proof -
  have "i256_mul_uint x' r = None \<longleftrightarrow> 2 * half \<le> \<bar>i256_val x'\<bar> * uint r" if "i256_ok x'" for x' r
    using uint_abs [OF that] by (auto simp: i256_mul_uint_def checked_mul_uint)
  then show ?thesis using assms by (simp add: i256_mul_def uint_abs val_neg abs_mult)
qed

lemma checked_mul_exact:
  assumes "i256_ok x" "i256_ok y"
  shows "i256_checked_mul x y =
    (if in_range (i256_val x * i256_val y) then Some (i256_of (i256_val x * i256_val y)) else None)"
proof -
  let ?z = "i256_val x * i256_val y" and ?w = "i256_abs x * i256_abs y"
  have abs: "uint (i256_abs x) * uint (i256_abs y) = \<bar>?z\<bar>" using assms by (simp add: uint_abs abs_mult)
  show ?thesis
  proof (cases "in_range ?z")
    case True
    then have "\<bar>?z\<bar> < 2 * half" using half_pos by (simp add: in_range_def)
    then have w: "checked_mul (i256_abs x) (i256_abs y) = Some ?w" "uint ?w = \<bar>?z\<bar>"
      using abs by (simp_all add: checked_mul_uint uint_mul_u256)
    then have t: "i256_try_from ?w = Some (I256 ?w)" using True by (simp add: try_from_eq in_range_def)
    have "(i256_val x < 0) \<noteq> (i256_val y < 0) \<longleftrightarrow> ?z < 0" if "?z \<noteq> 0"
      using that by (auto simp: mult_less_0_iff)
    then have "(if (i256_val x < 0) \<noteq> (i256_val y < 0) then i256_neg (I256 ?w) else I256 ?w) = i256_of ?z"
      by (intro signed_of_abs [OF True w(2)])
    then show ?thesis using True w(1) t by (simp add: i256_checked_mul_def is_negative_iff)
  next
    case False
    then show ?thesis
      using abs by (auto simp: i256_checked_mul_def checked_mul_uint try_from_eq uint_mul_u256 in_range_def)
  qed
qed

lemma cmp_exact:
  assumes "i256_ok x" "i256_ok y"
  shows "i256_cmp x y = compare_by (i256_val x) (i256_val y)"
  using uint_abs [OF assms(1)] uint_abs [OF assms(2)]
  by (cases "0 \<le> i256_val x"; cases "0 \<le> i256_val y")
    (auto simp: i256_cmp_def compare_by_def non_negative_iff word_less_def word_uint_eq_iff)

text \<open>Division truncates towards zero; dividing by zero gives zero and the remainder by zero panics.\<close>

lemma fixed_precision_div_0:
  assumes "prims_ok P"
  shows "fixed_precision_div P x y 0 = Some (if y = 0 then None else Some (x div y))"
proof -
  have "unat x div unat y < 2 ^ 256"
    using unat_bound [of x] by (intro le_less_trans [OF div_le_dividend]) simp
  then show ?thesis
    using fixed_precision_div_eq [OF assms, of x y 0] by (simp add: word_of_unat [OF unat_div])
qed

lemma abs_sdiv: "\<bar>a sdiv b\<bar> = \<bar>a\<bar> div \<bar>b :: int\<bar>"
  by (cases "b = 0"; cases "a = 0")
    (simp_all add: signed_divide_int_def abs_mult abs_sgn_eq pos_imp_zdiv_nonneg_iff)

lemma in_range_sdiv: "in_range a \<Longrightarrow> in_range (a sdiv b)"
proof -
  assume "in_range a"
  moreover have "\<bar>a\<bar> div \<bar>b\<bar> \<le> \<bar>a\<bar>"
    using zdiv_mono2 [of "\<bar>a\<bar>" 1 "\<bar>b\<bar>"] by (cases "b = 0") simp_all
  ultimately show ?thesis by (simp add: in_range_def abs_sdiv)
qed

lemma div_uint_exact:
  assumes "prims_ok P" "i256_ok x"
  shows "i256_div_uint P x r = Some (i256_of (i256_val x sdiv uint r))"
proof -
  let ?z = "i256_val x sdiv uint r" and ?w = "if r = 0 then 0 else i256_abs x div r"
  have abs: "uint ?w = \<bar>?z\<bar>"
    using assms(2) u256_bounds [of r] by (auto simp: abs_sdiv uint_div uint_abs)
  have r: "in_range ?z" using assms(2) by (simp add: ok_iff in_range_sdiv)
  have "i256_val x < 0 \<longleftrightarrow> ?z < 0" if "?z \<noteq> 0"
  proof -
    have "0 < uint r" using that by (auto simp: uint_pos signed_divide_int_def)
    moreover have "0 \<le> \<bar>i256_val x\<bar> div uint r" using calculation by (simp add: pos_imp_zdiv_nonneg_iff)
    ultimately show ?thesis using that by (auto simp: signed_divide_int_def sgn_if)
  qed
  then have "(if i256_val x < 0 then i256_neg (I256 ?w) else I256 ?w) = i256_of ?z"
    by (intro signed_of_abs [OF r abs])
  then show ?thesis
    by (auto simp: i256_div_uint_def fixed_precision_div_0 [OF assms(1)] is_negative_iff)
qed

lemma sdiv_uminus_right: "a sdiv (- b) = - (a sdiv (b :: int))"
  by (simp add: signed_divide_int_def sgn_minus)

lemma div_exact:
  assumes "prims_ok P" "i256_ok x" "i256_ok y"
  shows "i256_div P x y = Some (i256_of (i256_val x sdiv i256_val y))"
proof (cases "i256_val y < 0")
  case True
  let ?q = "i256_val x sdiv \<bar>i256_val y\<bar>"
  have r: "in_range ?q" using assms(2) by (simp add: ok_iff in_range_sdiv)
  have "i256_neg (i256_of ?q) = i256_of (- ?q)"
    using r by (intro i256_eqI) (simp_all add: val_neg i256_of_ok val_i256_of in_range_def)
  also have "- ?q = i256_val x sdiv i256_val y" using True by (simp add: sdiv_uminus_right)
  finally show ?thesis
    using True assms by (simp add: i256_div_def is_negative_iff div_uint_exact uint_abs)
next
  case False
  then show ?thesis using assms by (simp add: i256_div_def is_negative_iff div_uint_exact uint_abs)
qed

lemma rem_exact:
  assumes "i256_ok x" "i256_ok y"
  shows "i256_rem x y = (if i256_val y = 0 then None else Some (i256_of (i256_val x smod i256_val y)))"
proof (cases "i256_val y = 0")
  case True
  then have "i256_abs y = 0" using uint_abs [OF assms(2)] by (simp add: uint_eq_0)
  with True show ?thesis by (simp add: i256_rem_def checked_rem_def)
next
  case False
  let ?z = "i256_val x smod i256_val y" and ?w = "i256_abs x mod i256_abs y"
  have nz: "i256_abs y \<noteq> 0" using False uint_abs [OF assms(2)] by (auto simp: uint_eq_0)
  have abs: "uint ?w = \<bar>?z\<bar>"
    using assms False by (auto simp: uint_mod uint_abs signed_modulo_int_def abs_mult abs_sgn_eq)
  have r: "in_range ?z"
    using smod_int_range [OF False, of "i256_val x"] assms(2) by (auto simp: ok_iff in_range_def)
  define k where "k = \<bar>i256_val x\<bar> mod \<bar>i256_val y\<bar>"
  have "0 \<le> k" using False by (simp add: k_def)
  moreover have "?z = sgn (i256_val x) * k" by (simp add: signed_modulo_int_def k_def)
  ultimately have "i256_val x < 0 \<longleftrightarrow> ?z < 0" if "?z \<noteq> 0" using that by (auto simp: sgn_if)
  then have "(if i256_val x < 0 then i256_neg (I256 ?w) else I256 ?w) = i256_of ?z"
    by (intro signed_of_abs [OF r abs])
  then show ?thesis using False nz by (auto simp: i256_rem_def is_negative_iff checked_rem_def)
qed

section \<open>Conversions\<close>

lemma u128_try_from_eq: "u128_try_from v = (if uint v < 2 ^ 128 then Some (ucast v) else None)"
proof -
  have "list_all (\<lambda>w. w = 0) (drop 2 (limbs v)) \<longleftrightarrow> val (drop 2 (limbs v)) = 0"
    by (simp add: val_eq_0 list_all_iff)
  also have "\<dots> \<longleftrightarrow> unat v < 2 ^ 128" by (simp add: val_drop base_power div_eq_0_iff)
  also have "\<dots> \<longleftrightarrow> int (unat v) < int (2 ^ 128)" by (rule of_nat_less_iff [symmetric])
  finally show ?thesis by (simp add: u128_try_from_def)
qed

lemma i128_try_from_exact:
  assumes "i256_ok x"
  shows "i128_try_from x =
    (if 2 ^ 128 \<le> \<bar>i256_val x\<bar> then Some None
     else if i256_val x = - (2 ^ 127) then None
     else Some (Some (word_of_int (i256_val x))))"
proof (cases "2 ^ 128 \<le> \<bar>i256_val x\<bar>")
  case True
  then show ?thesis using assms by (simp add: i128_try_from_def u128_try_from_eq uint_abs)
next
  case False
  have c: "(ucast (i256_abs x) :: u128) = word_of_int \<bar>i256_val x\<bar>"
    by (simp only: ucast_eq uint_abs [OF assms])
  have "uint (word_of_int \<bar>i256_val x\<bar> :: u128) = \<bar>i256_val x\<bar>"
    using False by (simp add: uint_word_of_int)
  then have "(word_of_int \<bar>i256_val x\<bar> :: u128) = 2 ^ 127 \<longleftrightarrow> \<bar>i256_val x\<bar> = 2 ^ 127"
    by (simp add: word_uint_eq_iff)
  then show ?thesis
    using False assms c
    by (cases "0 \<le> i256_val x") (simp_all add: i128_try_from_def u128_try_from_eq uint_abs non_negative_iff)
qed

lemma i256_from_i128_exact:
  "i256_from_i128 v = (if sint v = - (2 ^ 127) then None else Some (i256_of (sint v)))"
proof -
  define q :: int where "q = 2 ^ 127"
  have b: "0 \<le> uint v" "uint v < 2 * q" "0 < q" "q < half"
    using unsigned_less [of v] by (simp_all add: q_def half_def)
  have s: "sint v = (if uint v < q then uint v else uint v - 2 * q)"
  proof -
    have e: "sint v = (uint v + q) mod (2 * q) - q"
      using int_word_sint [where 'a = 128, of "uint v"] by (simp add: q_def)
    show ?thesis
    proof (cases "uint v < q")
      case True
      then have "(uint v + q) mod (2 * q) = uint v + q" using b by (intro mod_pos_pos_trivial) linarith+
      then have "sint v = uint v" using e by linarith
      then show ?thesis using True by (simp only: if_True)
    next
      case False
      then have "(uint v - q) mod (2 * q) = uint v - q" using b by (intro mod_pos_pos_trivial) linarith+
      moreover have "(uint v - q + 2 * q) mod (2 * q) = (uint v - q) mod (2 * q)" by (rule mod_add_self2)
      moreover have "uint v - q + 2 * q = uint v + q" by simp
      ultimately have "(uint v + q) mod (2 * q) = uint v - q" by (simp only:)
      then have "sint v = uint v - 2 * q" using e by linarith
      then show ?thesis using False by (simp only: if_False)
    qed
  qed
  have "uint (2 ^ 127 :: u128) = q" by (simp add: q_def)
  then have min: "v = 2 ^ 127 \<longleftrightarrow> uint v = q" using word_uint_eq_iff [of v "2 ^ 127"] by (simp only:)
  show ?thesis
    unfolding i256_from_i128_def min unfolding q_def [symmetric]
  proof (cases "uint v < q")
    case True
    then have sv: "sint v = uint v" using s by (simp only: if_True)
    then have c: "(ucast v :: u256) = word_of_int (sint v)" by (simp only: ucast_eq)
    have "\<not> sint v < 0" "sint v \<noteq> - q" using sv b by linarith+
    then show "(if sint v < 0 then if uint v = q then None else Some (i256_neg (I256 (ucast (- v)))) else Some (I256 (ucast v)))
        = (if sint v = - q then None else Some (i256_of (sint v)))"
      by (simp only: if_False c i256_of_def)
  next
    case False
    then have sv: "sint v = uint v - 2 * q" using s by (simp only: if_False)
    have "uint (- v) = (2 * q - uint v) mod (2 * q)"
      using mod_add_self2 [of "- uint v" "2 * q"] by (simp add: uint_word_ariths q_def algebra_simps)
    also have "\<dots> = 2 * q - uint v" using b False by (intro mod_pos_pos_trivial) linarith+
    finally have neg: "uint (- v) = - sint v" using sv by linarith
    have r: "in_range (sint v)" using sv b False by (auto simp: in_range_def)
    have "(ucast (- v) :: u256) = word_of_int (- sint v)" by (simp only: ucast_eq neg)
    then have "i256_neg (I256 (ucast (- v))) = i256_neg (i256_of (- sint v))" by (simp only: i256_of_def)
    also have "\<dots> = i256_of (sint v)"
      using r by (intro i256_eqI) (simp_all add: val_neg i256_of_ok val_i256_of in_range_def)
    finally show "(if sint v < 0 then if uint v = q then None else Some (i256_neg (I256 (ucast (- v)))) else Some (I256 (ucast v)))
        = (if sint v = - q then None else Some (i256_of (sint v)))"
    proof -
      assume n: "i256_neg (I256 (ucast (- v))) = i256_of (sint v)"
      have "sint v < 0" "uint v = q \<longleftrightarrow> sint v = - q" using sv b by linarith+
      then show ?thesis by (simp only: if_True n)
    qed
  qed
qed

section \<open>Properties\<close>

text \<open>(C15) Signed 256-bit arithmetic refines integer arithmetic on canonical values: comparison is that of
  the values, the checked operations return the exact result when it is in range and \<open>None\<close> otherwise
  and never panic, division truncates towards zero with zero for a zero divisor, and the remainder
  panics exactly for zero.\<close>

theorem signed_arithmetic_exact:
  assumes "prims_ok P" and "i256_ok x" and "i256_ok y"
  shows "i256_cmp x y = compare_by (i256_val x) (i256_val y)
    \<and> i256_checked_add x y = Some
        (if in_range (i256_val x + i256_val y) then Some (i256_of (i256_val x + i256_val y)) else None)
    \<and> i256_checked_sub x y = Some
        (if in_range (i256_val x - i256_val y) then Some (i256_of (i256_val x - i256_val y)) else None)
    \<and> i256_checked_mul x y =
        (if in_range (i256_val x * i256_val y) then Some (i256_of (i256_val x * i256_val y)) else None)
    \<and> i256_div P x y = Some (i256_of (i256_val x sdiv i256_val y))
    \<and> i256_rem x y = (if i256_val y = 0 then None else Some (i256_of (i256_val x smod i256_val y)))
    \<and> i256_val (i256_neg x) = - i256_val x
    \<and> i256_val (i256_of (i256_val x sdiv i256_val y)) = i256_val x sdiv i256_val y"
  using assms cmp_exact checked_add_exact checked_sub_exact checked_mul_exact div_exact rem_exact val_neg
    val_i256_of [OF in_range_sdiv] ok_iff
  by simp

lemma small_in_range: "\<bar>z\<bar> \<le> 10 ^ 60 \<Longrightarrow> in_range z"
  by (simp add: in_range_def half_def)

theorem signed_arithmetic_exact_witness:
  "prims_ok plain_prims \<and> i256_ok (i256_of (- 7)) \<and> i256_ok (i256_of 2)
   \<and> i256_div plain_prims (i256_of (- 7)) (i256_of 2) = Some (i256_of (- 3))
   \<and> i256_checked_mul (i256_of (- 7)) (i256_of 2) = Some (i256_of (- 14))
   \<and> i256_cmp (i256_of (- 7)) (i256_of 2) = Less"
proof -
  have r: "in_range (- 7)" "in_range 2" "in_range (- 14)" by (simp_all add: small_in_range)
  have v: "i256_val (i256_of (- 7)) = - 7" "i256_val (i256_of 2) = 2" using r val_i256_of by blast+
  note ok = i256_of_ok [OF r(1)] i256_of_ok [OF r(2)]
  have "(- 7 :: int) sdiv 2 = - 3" by (simp add: signed_divide_int_def)
  then show ?thesis
    using signed_arithmetic_exact [OF plain_prims_ok ok] plain_prims_ok ok r(3) unfolding v by simp
qed

text \<open>(C38) The operator \<open>+\<close> never panics on canonical values. It is exact while the sum is in range and
  silently wraps around outside it: one more than the largest value is zero.\<close>

theorem i256_add_wraps:
  assumes "i256_ok x" and "i256_ok y"
  shows "i256_add x y = Some (i256_canonical (I256 (i256_raw x + i256_raw y)))
    \<and> (in_range (i256_val x + i256_val y) \<longrightarrow> i256_add x y = Some (i256_of (i256_val x + i256_val y)))
    \<and> i256_add (I256 MAX_SIGNED_VALUE) (I256 1) = Some (I256 0)"
proof -
  have "i256_ok (I256 MAX_SIGNED_VALUE)" "i256_ok (I256 1)"
    by (simp_all add: i256_ok_def MAX_SIGNED_VALUE_def MINUS_ZERO_def)
  moreover have "MAX_SIGNED_VALUE + 1 = MINUS_ZERO"
    by (simp add: MAX_SIGNED_VALUE_def MINUS_ZERO_def)
  ultimately have "i256_add (I256 MAX_SIGNED_VALUE) (I256 1) = Some (I256 0)"
    using add_raw [of "I256 MAX_SIGNED_VALUE" "I256 1"] by (simp add: i256_canonical_def uint_canonical_def)
  then show ?thesis using add_raw [OF assms] add_exact [OF assms] by blast
qed

theorem i256_add_wraps_witness:
  "i256_ok (i256_of 5) \<and> i256_ok (i256_of (- 8)) \<and> i256_add (i256_of 5) (i256_of (- 8)) = Some (i256_of (- 3))"
proof -
  have r: "in_range 5" "in_range (- 8)" "in_range (- 3)" by (simp_all add: small_in_range)
  have v: "i256_val (i256_of 5) = 5" "i256_val (i256_of (- 8)) = - 8" using r val_i256_of by blast+
  have sum: "(5 :: int) + - 8 = - 3" by simp
  show ?thesis
    using i256_add_wraps [OF i256_of_ok [OF r(1)] i256_of_ok [OF r(2)]] r i256_of_ok unfolding v sum by blast
qed

text \<open>(C39) Converting a signed 256-bit integer to an \<open>i128\<close> is refused only from \<open>2 ^ 128\<close> on: below
  \<open>2 ^ 127\<close> it is exact and converting back gives the same integer, at \<open>- (2 ^ 127)\<close> it panics although
  the value fits, and between \<open>2 ^ 127\<close> and \<open>2 ^ 128\<close> it returns a different number.\<close>

theorem i128_conversion:
  assumes "i256_ok x"
  shows "i128_try_from x =
      (if 2 ^ 128 \<le> \<bar>i256_val x\<bar> then Some None
       else if i256_val x = - (2 ^ 127) then None
       else Some (Some (word_of_int (i256_val x))))
    \<and> (\<bar>i256_val x\<bar> < 2 ^ 127 \<longrightarrow> i256_from_i128 (word_of_int (i256_val x)) = Some x)
    \<and> (2 ^ 127 \<le> \<bar>i256_val x\<bar> \<and> \<bar>i256_val x\<bar> < 2 ^ 128 \<and> i256_val x \<noteq> - (2 ^ 127) \<longrightarrow>
         sint (word_of_int (i256_val x) :: u128) \<noteq> i256_val x)"
proof -
  define z where "z = i256_val x"
  have s: "sint (word_of_int z :: u128) = (z + 2 ^ 127) mod 2 ^ 128 - 2 ^ 127"
    using int_word_sint [where 'a = 128, of z] by simp
  have "i256_from_i128 (word_of_int z) = Some x" if z: "\<bar>z\<bar> < 2 ^ 127"
  proof -
    have "(z + 2 ^ 127) mod 2 ^ 128 = z + 2 ^ 127" using z by (intro mod_pos_pos_trivial) auto
    then have "sint (word_of_int z :: u128) = z" using s by simp
    then show ?thesis using z i256_from_i128_exact [of "word_of_int z"] by (auto simp: z_def)
  qed
  moreover have "sint (word_of_int z :: u128) \<noteq> z" if "2 ^ 127 \<le> \<bar>z\<bar>" "z \<noteq> - (2 ^ 127)"
    using s that pos_mod_sign [of "2 ^ 128" "z + 2 ^ 127"] pos_mod_bound [of "2 ^ 128" "z + 2 ^ 127"] by auto
  ultimately show ?thesis using i128_try_from_exact [OF assms] by (simp only: z_def) blast
qed

theorem i128_conversion_witness:
  "i256_ok (i256_of (2 ^ 127)) \<and> i128_try_from (i256_of (2 ^ 127)) = Some (Some (2 ^ 127))
   \<and> sint (2 ^ 127 :: u128) \<noteq> 2 ^ 127"
proof -
  have r: "in_range (2 ^ 127)" by (simp add: in_range_def half_def)
  have v: "i256_val (i256_of (2 ^ 127)) = 2 ^ 127" using val_i256_of [OF r] .
  show ?thesis using i128_conversion [OF i256_of_ok [OF r]] i256_of_ok [OF r] unfolding v by simp
qed

end
