(* ===== verification/Decimal_Text.thy ===== *)
theory Decimal_Text
  imports Main
begin

text \<open>
  Decimal notation of natural numbers, shared by the components that print and parse numbers: the
  digits of a number, the number of a sequence of digits, and how padding with zeros, dropping
  trailing zeros and splitting at a point act on them.
\<close>

definition digit_char :: "nat \<Rightarrow> char" where
  "digit_char d = char_of (48 + d)"

definition is_digit :: "char \<Rightarrow> bool" where
  "is_digit c \<longleftrightarrow> 48 \<le> (of_char c :: nat) \<and> (of_char c :: nat) \<le> 57"

definition digit_val :: "char \<Rightarrow> nat" where
  "digit_val c = of_char c - 48"

fun dec_digits :: "nat \<Rightarrow> string" where
  "dec_digits n = (if n < 10 then [digit_char n] else dec_digits (n div 10) @ [digit_char (n mod 10)])"

declare dec_digits.simps [simp del]

fun digits_val :: "string \<Rightarrow> nat" where
  "digits_val [] = 0"
| "digits_val (c # cs) = digit_val c * 10 ^ length cs + digits_val cs"

lemma digit_char_val: "d < 10 \<Longrightarrow> digit_val (digit_char d) = d"
  by (simp add: digit_val_def digit_char_def)

lemma digit_char_is_digit: "d < 10 \<Longrightarrow> is_digit (digit_char d)"
  by (simp add: is_digit_def digit_char_def)

lemma digit_val_lt: "is_digit c \<Longrightarrow> digit_val c < 10"
  unfolding is_digit_def digit_val_def by linarith

lemma digit_zero [simp]: "digit_val CHR ''0'' = 0" "is_digit CHR ''0''"
  by (simp_all add: digit_val_def is_digit_def)

lemma digit_point [simp]: "\<not> is_digit CHR ''.''" "\<not> is_digit CHR ''-''"
  by (simp_all add: is_digit_def)

lemma digit_char_0 [simp]: "digit_char 0 = CHR ''0''"
  unfolding digit_char_def by code_simp

lemma digit_eq_zero: "is_digit c \<Longrightarrow> digit_val c = 0 \<longleftrightarrow> c = CHR ''0''"
proof
  assume "is_digit c" "digit_val c = 0"
  then have "(of_char c :: nat) = of_char CHR ''0''" by (simp add: is_digit_def digit_val_def)
  then show "c = CHR ''0''" by (simp only: of_char_eq_iff)
qed simp

lemma digits_val_append: "digits_val (xs @ ys) = digits_val xs * 10 ^ length ys + digits_val ys"
  by (induction xs) (simp_all add: power_add algebra_simps)

lemma digits_val_zeros [simp]: "digits_val (replicate k CHR ''0'') = 0"
  by (induction k) simp_all

lemma digits_val_lt: "list_all is_digit s \<Longrightarrow> digits_val s < 10 ^ length s"
proof (induction s)
  case (Cons c s)
  then have "digit_val c + 1 \<le> 10" using digit_val_lt [of c] by simp
  then have "(digit_val c + 1) * 10 ^ length s \<le> 10 * 10 ^ length s" by (rule mult_le_mono1)
  moreover have "digits_val s < 10 ^ length s" using Cons by simp
  moreover have "(digit_val c + 1) * 10 ^ length s = digit_val c * 10 ^ length s + 10 ^ length s" by simp
  ultimately have "digit_val c * 10 ^ length s + digits_val s < 10 * 10 ^ length s" by linarith
  then show ?case by simp
qed simp

lemma digits_val_dec_digits [simp]: "digits_val (dec_digits n) = n"
proof (induction n rule: dec_digits.induct)
  case (1 n)
  then show ?case
    by (subst dec_digits.simps) (simp add: digit_char_val digits_val_append)
qed

lemma dec_digits_all: "list_all is_digit (dec_digits n)"
proof (induction n rule: dec_digits.induct)
  case (1 n)
  then show ?case by (subst dec_digits.simps) (simp add: digit_char_is_digit)
qed

lemma dec_digits_not_Nil [simp]: "dec_digits n \<noteq> []"
  by (subst dec_digits.simps) simp

lemma length_dec_digits_le: "0 < k \<Longrightarrow> length (dec_digits n) \<le> k \<longleftrightarrow> n < 10 ^ k"
proof (induction n arbitrary: k rule: dec_digits.induct)
  case (1 n)
  show ?case
  proof (cases "n < 10")
    case True
    have "(10::nat) ^ 1 \<le> 10 ^ k" using 1(2) by (intro power_increasing) simp_all
    then show ?thesis using True 1(2) by (subst dec_digits.simps) simp
  next
    case False
    show ?thesis
    proof (cases "k = 1")
      case True
      have "0 < length (dec_digits (n div 10))" by simp
      with True False show ?thesis by (subst dec_digits.simps) (simp add: Suc_le_eq)
    next
      case k: False
      then obtain j where j: "k = Suc j" "0 < j" using 1(2) by (cases k) auto
      have "n div 10 < 10 ^ j \<longleftrightarrow> n < 10 ^ k" using j by (simp add: div_less_iff_less_mult mult.commute)
      then show ?thesis using False 1(1) [OF False j(2)] j by (subst dec_digits.simps) simp
    qed
  qed
qed

lemma length_dec_digits_lt: "length (dec_digits n) < k \<longleftrightarrow> 1 < k \<and> n < 10 ^ (k - 1)"
  using length_dec_digits_le [of "k - 1" n] by (cases "1 < k") (auto simp: Suc_le_eq not_less le_Suc_eq)

text \<open>A sequence of digits without a leading zero is the notation of its number.\<close>

lemma dec_digits_unique:
  assumes "list_all is_digit s" "s \<noteq> []" "length s = 1 \<or> hd s \<noteq> CHR ''0''"
  shows "dec_digits (digits_val s) = s"
  using assms
proof (induction s rule: rev_induct)
  case (snoc c s)
  have c: "digit_val c < 10" using snoc.prems by (simp add: digit_val_lt)
  have dc: "digit_char (digit_val c) = c"
    using snoc.prems(1) by (simp add: digit_char_def digit_val_def is_digit_def)
  show ?case
  proof (cases "s = []")
    case True
    then show ?thesis using c dc by (subst dec_digits.simps) simp
  next
    case False
    then have hd: "hd s \<noteq> CHR ''0''" using snoc.prems by simp
    then have "0 < digits_val s"
      using False snoc.prems(1) by (cases s) (auto simp: digit_eq_zero [symmetric])
    then have ge: "\<not> digits_val (s @ [c]) < 10" by (simp add: digits_val_append)
    have "dec_digits (digits_val s) = s" using snoc.IH False snoc.prems(1) hd by simp
    then show ?thesis using ge c dc by (subst dec_digits.simps) (simp add: digits_val_append)
  qed
qed simp

lemma hd_dec_digits: "0 < n \<Longrightarrow> hd (dec_digits n) \<noteq> CHR ''0''"
proof (induction n rule: dec_digits.induct)
  case (1 n)
  show ?case
  proof (cases "n < 10")
    case True
    then have "digit_val (digit_char n) \<noteq> 0" using 1(2) by (simp add: digit_char_val)
    then show ?thesis using True by (subst dec_digits.simps) auto
  next
    case False
    then show ?thesis using 1 by (subst dec_digits.simps) (simp add: hd_append)
  qed
qed

section \<open>Trailing characters\<close>

text \<open>\<open>str::trim_end_matches\<close> with one character.\<close>

definition trim_end :: "char \<Rightarrow> string \<Rightarrow> string" where
  "trim_end c s = rev (dropWhile (\<lambda>x. x = c) (rev s))"

lemma trim_end_Nil [simp]: "trim_end c [] = []"
  by (simp add: trim_end_def)

lemma trim_end_snoc [simp]:
  "trim_end c (s @ [x]) = (if x = c then trim_end c s else s @ [x])"
  by (simp add: trim_end_def)

lemma trim_end_append_same [simp]: "trim_end c (s @ replicate k c) = trim_end c s"
  by (induction k) (simp_all add: replicate_append_same [symmetric] del: append_assoc flip: append_assoc)

lemma trim_end_split: "\<exists>k. s = trim_end c s @ replicate k c"
proof (induction s rule: rev_induct)
  case (snoc x s)
  then obtain k where k: "s = trim_end c s @ replicate k c" by blast
  have "s @ [c] = trim_end c s @ replicate (Suc k) c"
    by (subst k) (simp add: replicate_append_same)
  then have "\<exists>j. s @ [c] = trim_end c s @ replicate j c" by (rule exI)
  moreover have "\<exists>j. s @ [x] = (s @ [x]) @ replicate j c" by (intro exI [of _ 0]) simp
  ultimately show ?case by (cases "x = c") simp_all
qed (simp add: exI [of _ 0])

lemma trim_end_last: "trim_end c s \<noteq> [] \<Longrightarrow> last (trim_end c s) \<noteq> c"
  by (induction s rule: rev_induct) (auto split: if_splits)

lemma trim_end_id: "s = [] \<or> last s \<noteq> c \<Longrightarrow> trim_end c s = s"
  by (cases s rule: rev_cases) auto

lemma trim_end_append_stop: "x \<noteq> c \<Longrightarrow> trim_end c (s @ x # t) = s @ x # trim_end c t"
proof (induction t rule: rev_induct)
  case Nil
  then show ?case using trim_end_snoc [of c s x] by simp
next
  case (snoc y t)
  then show ?case using trim_end_snoc [of c "s @ x # t" y] trim_end_snoc [of c t y] by simp
qed

section \<open>A point among the digits\<close>

text \<open>The text with \<open>k\<close> decimal places that both printers build from the digits of a number.\<close>

definition point_text :: "nat \<Rightarrow> string \<Rightarrow> string" where
  "point_text k s =
     (if k < length s then take (length s - k) s @ CHR ''.'' # drop (length s - k) s
      else ''0.'' @ replicate (k - length s) CHR ''0'' @ s)"

lemma point_text_parts:
  assumes "0 < k"
  shows "\<exists>frac. point_text k (dec_digits a) = dec_digits (a div 10 ^ k) @ CHR ''.'' # frac
    \<and> length frac = k \<and> list_all is_digit frac \<and> digits_val frac = a mod 10 ^ k"
proof (cases "k < length (dec_digits a)")
  case True
  let ?s = "dec_digits a" and ?i = "length (dec_digits a) - k"
  have all: "list_all is_digit (take ?i ?s)" "list_all is_digit (drop ?i ?s)"
    using dec_digits_all [of a] by (simp_all add: list_all_iff) (meson in_set_takeD in_set_dropD)+
  have len: "length (drop ?i ?s) = k" using True by simp
  have "a = digits_val (take ?i ?s) * 10 ^ k + digits_val (drop ?i ?s)"
    using digits_val_append [of "take ?i ?s" "drop ?i ?s"] len by simp
  moreover have "digits_val (drop ?i ?s) < 10 ^ k" using digits_val_lt [OF all(2)] len by simp
  ultimately have parts: "digits_val (take ?i ?s) = a div 10 ^ k" "digits_val (drop ?i ?s) = a mod 10 ^ k"
    by (metis add.commute div_mult_self3 div_less add_0 power_not_zero zero_neq_numeral)
      (metis \<open>a = _\<close> \<open>_ < 10 ^ k\<close> add.commute mod_less mod_mult_self1)
  have "1 < length ?s" using True assms by simp
  then have "0 < a" using length_dec_digits_le [of 1 a] by (cases "a = 0") auto
  then have "hd (take ?i ?s) \<noteq> CHR ''0''" using hd_dec_digits [of a] True by simp
  then have "dec_digits (a div 10 ^ k) = take ?i ?s"
    using dec_digits_unique [OF all(1)] parts(1) True by simp
  then show ?thesis using True all(2) len parts(2) by (auto simp: point_text_def)
next
  case False
  then have "a < 10 ^ k" using length_dec_digits_le [OF assms, of a] by simp
  moreover have "dec_digits 0 = ''0''" by (subst dec_digits.simps) simp
  ultimately show ?thesis
    using False dec_digits_all [of a]
    by (intro exI [of _ "replicate (k - length (dec_digits a)) CHR ''0'' @ dec_digits a"])
      (auto simp: point_text_def digits_val_append list_all_iff)
qed

text \<open>Zeros at the end of the decimal places, and at the end of a text with a point.\<close>

lemma trimmed_decimals:
  assumes "list_all is_digit frac"
  shows "list_all is_digit (trim_end CHR ''0'' frac)" "length (trim_end CHR ''0'' frac) \<le> length frac"
    "digits_val frac = digits_val (trim_end CHR ''0'' frac) * 10 ^ (length frac - length (trim_end CHR ''0'' frac))"
proof -
  obtain k where k: "frac = trim_end CHR ''0'' frac @ replicate k CHR ''0''" using trim_end_split by blast
  then have len: "length frac = length (trim_end CHR ''0'' frac) + k" by (metis length_append length_replicate)
  show "list_all is_digit (trim_end CHR ''0'' frac)" using assms by (subst (asm) k) simp
  show "length (trim_end CHR ''0'' frac) \<le> length frac" using len by simp
  show "digits_val frac = digits_val (trim_end CHR ''0'' frac) * 10 ^ (length frac - length (trim_end CHR ''0'' frac))"
    by (subst k) (simp add: digits_val_append len)
qed

lemma trim_point:
  assumes "list_all is_digit i" "i \<noteq> []" "list_all is_digit f"
  shows "trim_end CHR ''.'' (trim_end CHR ''0'' (i @ CHR ''.'' # f))
    = i @ (if trim_end CHR ''0'' f = [] then [] else CHR ''.'' # trim_end CHR ''0'' f)"
proof -
  have last: "last s \<noteq> CHR ''.''" if "list_all is_digit s" "s \<noteq> []" for s
    using that by (metis digit_point(1) last_in_set list_all_iff)
  note t = trimmed_decimals(1) [OF assms(3)]
  have "trim_end CHR ''.'' (i @ [CHR ''.'']) = i" using last [OF assms(1,2)] by (simp add: trim_end_id)
  moreover have "trim_end CHR ''.'' (i @ CHR ''.'' # trim_end CHR ''0'' f) = i @ CHR ''.'' # trim_end CHR ''0'' f"
    if "trim_end CHR ''0'' f \<noteq> []"
    using last [OF t that] that by (intro trim_end_id) simp
  ultimately show ?thesis by (simp add: trim_end_append_stop)
qed

lemma digits_no_char: "list_all is_digit s \<Longrightarrow> \<not> is_digit c \<Longrightarrow> c \<notin> set s"
  by (auto simp: list_all_iff)

text \<open>\<open>str::split_once\<close> with one character.\<close>

definition split_once :: "char \<Rightarrow> string \<Rightarrow> (string \<times> string) option" where
  "split_once c s =
     (if c \<in> set s then Some (takeWhile (\<lambda>x. x \<noteq> c) s, tl (dropWhile (\<lambda>x. x \<noteq> c) s)) else None)"

lemma split_once_append [simp]: "c \<notin> set s \<Longrightarrow> split_once c (s @ c # t) = Some (s, t)"
  by (induction s) (auto simp: split_once_def)

lemma split_once_None [simp]: "c \<notin> set s \<Longrightarrow> split_once c s = None"
  by (simp add: split_once_def)

end
