(* ===== verification/Decimals.thy ===== *)
theory Decimals
  imports Signed_Int Decimal_Text
begin

text \<open>
  The fixed precision decimals of \<open>core/src/types/dec.rs\<close>: a \<open>Dec\<close> is a signed 256-bit integer read
  with twelve decimal places. The model has its arithmetic, rounding, conversions, printing and parsing,
  and the operations that multiply token amounts (\<open>core/src/types/token.rs\<close>) and signed integers by
  a decimal with rounding up.

  \<open>dec_val\<close> is the scaled integer of a decimal and \<open>dec_of\<close> its inverse; the lemmas give each operation
  in terms of it. A result \<open>None\<close> is a panic; an operation that returns an \<open>Option\<close> and may also panic
  has type \<open>'a option option\<close>. The printer and parser of \<open>Uint\<close> come from the crate that generates the
  type and are the parameter \<open>uint_text\<close>.
\<close>

section \<open>Model\<close>

definition POS_DECIMAL_PRECISION :: u8 where "POS_DECIMAL_PRECISION = 12"

definition NATIVE_MAX_DECIMAL_PLACES :: u8 where "NATIVE_MAX_DECIMAL_PLACES = 6"

text \<open>\<open>Uint::exp10\<close>: it panics when the power does not fit.\<close>

abbreviation exp10 :: "nat \<Rightarrow> u256 option" where
  "exp10 n \<equiv> checked_pow 10 n"

abbreviation precision :: nat where
  "precision \<equiv> unat POS_DECIMAL_PRECISION"

datatype dec = Dec (dec_raw: i256)

datatype amount = Amount (raw_amount: u256)

definition dec_is_negative :: "dec \<Rightarrow> bool" where
  "dec_is_negative d \<longleftrightarrow> is_negative (dec_raw d)"


definition dec_zero :: dec where
  "dec_zero = Dec (I256 0)"

definition dec_is_zero :: "dec \<Rightarrow> bool" where
  "dec_is_zero d \<longleftrightarrow> d = dec_zero"

definition dec_one :: "dec option" where
  "dec_one = do { e \<leftarrow> exp10 precision; p \<leftarrow> checked_mul 1 e; Some (Dec (I256 p)) }"

definition dec_add :: "dec \<Rightarrow> dec \<Rightarrow> dec option" where
  "dec_add x rhs = map_option Dec (i256_add (dec_raw x) (dec_raw rhs))"

definition dec_sub :: "dec \<Rightarrow> dec \<Rightarrow> dec option" where
  "dec_sub x rhs = map_option Dec (i256_sub (dec_raw x) (dec_raw rhs))"

definition dec_neg :: "dec \<Rightarrow> dec" where
  "dec_neg x = Dec (i256_neg (dec_raw x))"

definition dec_two :: "dec option" where
  "dec_two = do { o1 \<leftarrow> dec_one; o2 \<leftarrow> dec_one; dec_add o1 o2 }"

definition dec_gt :: "dec \<Rightarrow> dec \<Rightarrow> bool" where
  "dec_gt x y \<longleftrightarrow> i256_cmp (dec_raw x) (dec_raw y) = Greater"

text \<open>The mantissa is an \<open>i128\<close>; the absolute value of the smallest one panics.\<close>

definition dec_new :: "u128 \<Rightarrow> u8 \<Rightarrow> dec option option" where
  "dec_new mantissa scale =
     (if POS_DECIMAL_PRECISION < scale then Some None
      else if mantissa = 2 ^ 127 then None
      else let abs = (if sint mantissa < 0 then - mantissa else mantissa) in
        if 2 ^ 64 \<le> uint abs then Some None
        else do {
          e \<leftarrow> exp10 (unat (POS_DECIMAL_PRECISION - scale));
          Some (map_option (\<lambda>res. Dec (if sint mantissa < 0 then i256_neg (I256 res) else I256 res))
            (checked_mul e (ucast abs)))
        })"

definition abs_diff :: "dec \<Rightarrow> dec \<Rightarrow> dec option" where
  "abs_diff x other = (if dec_gt x other then dec_sub x other else dec_sub other x)"

definition dec_abs :: "dec \<Rightarrow> u256" where
  "dec_abs x = i256_abs (dec_raw x)"

definition to_i256 :: "uint_prims \<Rightarrow> dec \<Rightarrow> i256 option" where
  "to_i256 P x = do { e \<leftarrow> exp10 precision; i256_div_uint P (dec_raw x) e }"

definition to_uint :: "dec \<Rightarrow> u256 option option" where
  "to_uint x =
     (if dec_is_negative x then Some None
      else do { e \<leftarrow> exp10 precision; q \<leftarrow> checked_div (i256_abs (dec_raw x)) e; Some (Some q) })"

definition dec_checked_sub :: "dec \<Rightarrow> dec \<Rightarrow> dec option option" where
  "dec_checked_sub x other = (if dec_gt x other then map_option Some (dec_sub x other) else Some None)"


definition dec_ceil :: "uint_prims \<Rightarrow> dec \<Rightarrow> i256 option" where
  "dec_ceil P x =
     (if is_negative (dec_raw x) then to_i256 P x
      else do {
        floor \<leftarrow> to_i256 P x;
        d \<leftarrow> dec_sub x (Dec floor);
        if dec_is_zero d then Some floor else i256_add floor (I256 1)
      })"

definition dec_mul_uint :: "dec \<Rightarrow> u256 \<Rightarrow> dec option" where
  "dec_mul_uint x rhs = map_option Dec (i256_mul_uint (dec_raw x) rhs)"


definition dec_mul_change :: "uint_prims \<Rightarrow> dec \<Rightarrow> i256 \<Rightarrow> i256 option" where
  "dec_mul_change P x rhs = do {
     tot \<leftarrow> i256_mul rhs (dec_raw x);
     i256_div_uint P tot (10 ^ precision)
   }"



definition dec_div_u64 :: "uint_prims \<Rightarrow> dec \<Rightarrow> u64 \<Rightarrow> dec option" where
  "dec_div_u64 P x rhs = map_option Dec (i256_div_uint P (dec_raw x) (ucast rhs))"

fun dec_sum :: "dec \<Rightarrow> dec list \<Rightarrow> dec option" where
  "dec_sum acc [] = Some acc"
| "dec_sum acc (next # ds) = do { acc' \<leftarrow> dec_add acc next; dec_sum acc' ds }"

text \<open>Conversions. The amount of a native token has six decimal places, a decimal twelve.\<close>

definition dec_from_amount :: "amount \<Rightarrow> dec option" where
  "dec_from_amount amt =
     (case i256_try_from (raw_amount amt) of
        Some raw \<Rightarrow> do {
          e \<leftarrow> exp10 (unat (POS_DECIMAL_PRECISION - NATIVE_MAX_DECIMAL_PLACES));
          r \<leftarrow> i256_mul_uint raw e;
          Some (Dec r)
        }
      | None \<Rightarrow> Some dec_zero)"

definition dec_from_i256 :: "i256 \<Rightarrow> dec option" where
  "dec_from_i256 num = do { e \<leftarrow> exp10 precision; r \<leftarrow> i256_mul_uint num e; Some (Dec r) }"

definition dec_try_from_uint :: "u256 \<Rightarrow> dec option option" where
  "dec_try_from_uint v =
     (case i256_try_from v of None \<Rightarrow> Some None | Some i \<Rightarrow> map_option Some (dec_from_i256 i))"

definition dec_from_u64 :: "u64 \<Rightarrow> dec option" where
  "dec_from_u64 num = do { i \<leftarrow> i256_from_u64 num; dec_from_i256 i }"

definition dec_from_i128 :: "u128 \<Rightarrow> dec option" where
  "dec_from_i128 num = do { i \<leftarrow> i256_from_i128 num; dec_from_i256 i }"

definition amount_from_dec :: "dec \<Rightarrow> amount option" where
  "amount_from_dec d =
     (if \<not> dec_is_negative d
      then do { e \<leftarrow> exp10 precision; q \<leftarrow> checked_div (i256_abs (dec_raw d)) e; Some (Amount q) }
      else None)"

definition amount_mul_ceil :: "amount \<Rightarrow> dec \<Rightarrow> amount option" where
  "amount_mul_ceil a d =
     (if dec_is_negative d then None
      else do {
        tot \<leftarrow> checked_mul (raw_amount a) (dec_abs d);
        floor_div \<leftarrow> checked_div tot (10 ^ precision);
        rem \<leftarrow> checked_rem tot (10 ^ precision);
        raw \<leftarrow> if rem \<noteq> 0 then checked_add floor_div 1 else Some floor_div;
        Some (Amount raw)
      })"

definition i256_mul_ceil :: "i256 \<Rightarrow> dec \<Rightarrow> i256 option" where
  "i256_mul_ceil x d =
     (let is_res_negative = (is_negative x \<noteq> dec_is_negative d) in
      do {
        tot \<leftarrow> checked_mul (i256_abs x) (i256_abs (dec_raw d));
        floor_div \<leftarrow> checked_div tot (10 ^ precision);
        rem \<leftarrow> checked_rem tot (10 ^ precision);
        abs_res \<leftarrow> if rem \<noteq> 0 \<and> \<not> is_res_negative then checked_add floor_div 1 else Some floor_div;
        Some (if is_res_negative then i256_neg (I256 abs_res) else I256 abs_res)
      })"

section \<open>Text\<close>

text \<open>Printing and parsing of a \<open>Uint\<close>, provided by the crate that generates the type.\<close>

record uint_text =
  uint_to_string :: "u256 \<Rightarrow> string"
  from_str_radix_10 :: "string \<Rightarrow> u256 option"

definition text_ok :: "uint_text \<Rightarrow> bool" where
  "text_ok X \<longleftrightarrow>
     (\<forall>x. uint_to_string X x = dec_digits (unat x))
   \<and> (\<forall>s. s \<noteq> [] \<and> list_all is_digit s \<longrightarrow>
        from_str_radix_10 X s = (if digits_val s < 2 ^ 256 then Some (of_nat (digits_val s)) else None))
   \<and> (\<forall>s. \<not> list_all is_digit s \<longrightarrow> from_str_radix_10 X s = None)"

datatype dec_error = NotAnInteger | NoDecimals | NotDecimals | TooLarge | NotAnI256

definition dec_to_string :: "uint_text \<Rightarrow> dec \<Rightarrow> string" where
  "dec_to_string X d =
     (let is_neg = dec_is_negative d;
          string = uint_to_string X (i256_abs (dec_raw d));
          string =
            (if precision < length string
             then (let idx = length string - precision in take idx string @ CHR ''.'' # drop idx string)
             else ''0.'' @ replicate (precision - length string) CHR ''0'' @ string);
          stripped = trim_end CHR ''.'' (trim_end CHR ''0'' string)
      in if stripped = [] then ''0'' else if is_neg then CHR ''-'' # stripped else stripped)"

text \<open>\<open>Some (Inl e)\<close> is an error that the function returns, \<open>None\<close> the overflow of the final sum.\<close>

definition dec_from_str :: "uint_text \<Rightarrow> string \<Rightarrow> (dec_error + dec) option" where
  "dec_from_str X s =
     (let (strip, is_neg) = (case s of c # t \<Rightarrow> if c = CHR ''-'' then (t, True) else (s, False) | [] \<Rightarrow> (s, False));
          (large, small) = unwrap_or (split_once CHR ''.'' strip) (strip, ''0'')
      in case from_str_radix_10 X large of
        None \<Rightarrow> Some (Inl NotAnInteger)
      | Some num_large \<Rightarrow>
          (if small = [] then Some (Inl NoDecimals)
           else let trimmed = take precision (trim_end CHR ''0'' small) in
             case (if trimmed = [] then Some 0 else from_str_radix_10 X trimmed) of
               None \<Rightarrow> Some (Inl NotDecimals)
             | Some decimals \<Rightarrow> do {
                 e \<leftarrow> exp10 (if trimmed = [] then 0 else precision - length trimmed);
                 decimal_part \<leftarrow> checked_mul decimals e;
                 scale \<leftarrow> exp10 precision;
                 (case checked_mul scale num_large of
                    None \<Rightarrow> Some (Inl TooLarge)
                  | Some int_part \<Rightarrow> do {
                      total \<leftarrow> checked_add int_part decimal_part;
                      Some (case i256_try_from total of
                         None \<Rightarrow> Inl NotAnI256
                       | Some inner \<Rightarrow> Inr (if is_neg then Dec (i256_neg inner) else Dec inner))
                    })
               }))"

section \<open>Decimals as scaled integers\<close>

definition dec_val :: "dec \<Rightarrow> int" where
  "dec_val d = i256_val (dec_raw d)"

definition dec_ok :: "dec \<Rightarrow> bool" where
  "dec_ok d \<longleftrightarrow> i256_ok (dec_raw d)"

definition dec_of :: "int \<Rightarrow> dec" where
  "dec_of z = Dec (i256_of z)"

lemma precision_eq [simp]: "precision = 12" "unat (POS_DECIMAL_PRECISION - NATIVE_MAX_DECIMAL_PLACES) = 6"
  by (simp_all add: POS_DECIMAL_PRECISION_def NATIVE_MAX_DECIMAL_PLACES_def)

lemma exp10_small [simp]: "exp10 12 = Some (10 ^ 12)" "exp10 6 = Some (10 ^ 6)"
  by (simp_all add: checked_pow_def)

lemma dec_val_of [simp]: "in_range z \<Longrightarrow> dec_val (dec_of z) = z"
  by (simp add: dec_val_def dec_of_def val_i256_of)

lemma dec_of_ok: "in_range z \<Longrightarrow> dec_ok (dec_of z)"
  by (simp add: dec_ok_def dec_of_def i256_of_ok)

lemma dec_of_val [simp]: "dec_of (dec_val d) = d"
  by (cases d) (simp add: dec_of_def dec_val_def)

lemma dec_in_range: "dec_ok d \<Longrightarrow> in_range (dec_val d)"
  by (simp add: dec_ok_def dec_val_def ok_iff)

lemma dec_is_negative_iff: "dec_is_negative d \<longleftrightarrow> dec_val d < 0"
  by (simp add: dec_is_negative_def dec_val_def is_negative_iff)

lemma dec_gt_iff: "dec_ok x \<Longrightarrow> dec_ok y \<Longrightarrow> dec_gt x y \<longleftrightarrow> dec_val y < dec_val x"
  by (simp add: dec_gt_def dec_ok_def dec_val_def cmp_exact)

lemma to_i256_exact:
  assumes "prims_ok P" "dec_ok x"
  shows "to_i256 P x = Some (i256_of (dec_val x sdiv 10 ^ 12))"
  using div_uint_exact [OF assms(1), of "dec_raw x" "10 ^ 12"] assms(2)
  by (simp add: to_i256_def dec_ok_def dec_val_def)





text \<open>Rounding up is rounding towards zero for negative decimals; otherwise one is added unless the
  decimal is zero, since the floor is subtracted without being scaled.\<close>

lemma dec_ceil_eq:
  assumes "prims_ok P" "dec_ok x"
  shows "dec_ceil P x = Some (i256_of (dec_val x sdiv 10 ^ 12 + (if 0 < dec_val x then 1 else 0)))"
proof (cases "dec_val x < 0")
  case True
  then show ?thesis
    using to_i256_exact [OF assms] by (simp add: dec_ceil_def is_negative_iff dec_val_def)
next
  case False
  let ?v = "dec_val x" and ?q = "dec_val x div 10 ^ 12"
  have q: "?v sdiv 10 ^ 12 = ?q" using False by (simp add: signed_divide_int_def sgn_if)
  have v: "in_range ?v" using dec_in_range [OF assms(2)] .
  have ql: "0 \<le> ?q" "?q \<le> ?v" "?v = 0 \<or> ?q < ?v" using False by auto
  then have r: "in_range ?q" "in_range (?v - ?q)" "in_range (?q + 1)" using v False by (auto simp: in_range_def half_def)
  have "dec_sub x (Dec (i256_of ?q)) = Some (dec_of (?v - ?q))"
    using sub_exact [OF _ i256_of_ok [OF r(1)], of "dec_raw x"] assms(2) r
    by (simp add: dec_sub_def dec_of_def dec_ok_def dec_val_def val_i256_of)
  moreover have "dec_is_zero (dec_of (?v - ?q)) \<longleftrightarrow> ?v = 0"
  proof -
    have "dec_is_zero (dec_of (?v - ?q)) \<longleftrightarrow> dec_of (?v - ?q) = dec_of 0"
      by (simp add: dec_is_zero_def dec_zero_def dec_of_def i256_of_def)
    also have "\<dots> \<longleftrightarrow> ?v - ?q = 0" using r(2) by (metis dec_val_of in_range_def abs_zero half_pos)
    finally show ?thesis using ql by auto
  qed
  moreover have "i256_add (i256_of ?q) (I256 1) = Some (i256_of (?q + 1))"
  proof -
    have one: "I256 1 = i256_of 1" "in_range 1" by (simp_all add: i256_of_def in_range_def half_def)
    show ?thesis
      using add_exact [OF i256_of_ok [OF r(1)] i256_of_ok [OF one(2)]] r one by (simp add: val_i256_of)
  qed
  moreover have "to_i256 P x = Some (i256_of ?q)" using to_i256_exact [OF assms] q by simp
  ultimately show ?thesis
    using False q by (auto simp: dec_ceil_def is_negative_iff dec_val_def [symmetric])
qed

lemma ceil_div_int:
  fixes x d :: int
  assumes "0 < d"
  shows "(x + (d - 1)) div d = x div d + (if x mod d = 0 then 0 else 1)"
proof (cases "x mod d = 0")
  case True
  then obtain k where "x = d * k" by (auto elim: dvdE simp: mod_eq_0_iff_dvd)
  then show ?thesis using assms by (simp add: div_add_self2)
next
  case False
  have m: "0 < x mod d" "x mod d < d" using False assms pos_mod_bound [of d x] pos_mod_sign [of d x] by linarith+
  have "x + (d - 1) = (x mod d - 1) + d * (x div d + 1)"
    using mult_div_mod_eq [of d x] by (simp add: algebra_simps)
  also have "\<dots> div d = (x mod d - 1) div d + (x div d + 1)" using assms by simp
  also have "(x mod d - 1) div d = 0" using m by (intro div_pos_pos_trivial) simp_all
  finally show ?thesis using False by simp
qed

lemma ceil_bounds:
  fixes x d :: int
  assumes "0 < d"
  shows "x \<le> (x + (d - 1)) div d * d" "(x + (d - 1)) div d * d < x + d"
proof -
  have "(x + (d - 1)) div d * d + (x + (d - 1)) mod d = x + (d - 1)" by simp
  moreover have "0 \<le> (x + (d - 1)) mod d" "(x + (d - 1)) mod d < d"
    using assms pos_mod_sign pos_mod_bound by blast+
  ultimately show "x \<le> (x + (d - 1)) div d * d" "(x + (d - 1)) div d * d < x + d" by linarith+
qed

lemma amount_mul_ceil_eq:
  assumes "dec_ok d"
  shows "amount_mul_ceil a d =
    (if dec_val d < 0 \<or> 2 * half \<le> uint (raw_amount a) * dec_val d then None
     else Some (Amount (word_of_int ((uint (raw_amount a) * dec_val d + (10 ^ 12 - 1)) div 10 ^ 12))))"
proof (cases "dec_val d < 0")
  case True
  then show ?thesis by (simp add: amount_mul_ceil_def dec_is_negative_iff)
next
  case False
  let ?t = "raw_amount a * dec_abs d" and ?x = "uint (raw_amount a) * dec_val d"
  have ab: "uint (dec_abs d) = dec_val d"
    using False assms by (simp add: dec_abs_def dec_ok_def dec_val_def uint_abs)
  show ?thesis
  proof (cases "?x < 2 * half")
    case lt: True
    have c: "checked_mul (raw_amount a) (dec_abs d) = Some ?t" "uint ?t = ?x"
      using lt ab by (simp_all add: checked_mul_uint uint_mul_u256)
    let ?s = "10 ^ 12 :: u256"
    have s: "uint ?s = 10 ^ 12" "?s \<noteq> 0" by simp_all
    have q: "?t div ?s = word_of_int (?x div 10 ^ 12)" "?t mod ?s = word_of_int (?x mod 10 ^ 12)"
      using c(2) s(1) by (metis uint_div word_of_int_uint uint_mod)+
    have rem0: "?t mod ?s = 0 \<longleftrightarrow> ?x mod 10 ^ 12 = 0"
      using c(2) s(1) uint_eq_0 [of "?t mod ?s"] by (simp only: uint_mod)
    have "0 \<le> ?x" using False u256_bounds [of "raw_amount a"] by simp
    then have "?x div 10 ^ 12 + 1 < 2 * half" using lt by (simp add: half_def)
    then have add: "checked_add (?t div ?s) 1 = Some (?t div ?s + 1)"
      using c(2) s(1) by (simp add: checked_add_uint uint_div)
    show ?thesis
      using False lt c(1) s(2) rem0 add q(1) ceil_div_int [of "10 ^ 12" ?x]
      by (auto simp: amount_mul_ceil_def dec_is_negative_iff checked_div_def checked_rem_def)
  next
    case ge: False
    then show ?thesis using False ab by (simp add: amount_mul_ceil_def dec_is_negative_iff checked_mul_uint)
  qed
qed

section \<open>Printing and parsing\<close>

lemma text_okD:
  assumes "text_ok X"
  shows "uint_to_string X x = dec_digits (unat x)"
    "s \<noteq> [] \<Longrightarrow> list_all is_digit s \<Longrightarrow>
      from_str_radix_10 X s = (if digits_val s < 2 ^ 256 then Some (of_nat (digits_val s)) else None)"
  using assms by (simp_all add: text_ok_def)

definition plain_text :: uint_text where
  "plain_text = \<lparr>uint_to_string = (\<lambda>x. dec_digits (unat x)),
     from_str_radix_10 = (\<lambda>s. if list_all is_digit s \<and> digits_val s < 2 ^ 256 then Some (of_nat (digits_val s)) else None)\<rparr>"

lemma plain_text_ok: "text_ok plain_text"
  by (simp add: text_ok_def plain_text_def)

lemma dec_to_string_point:
  "dec_to_string X d =
     (let stripped = trim_end CHR ''.'' (trim_end CHR ''0'' (point_text 12 (uint_to_string X (i256_abs (dec_raw d)))))
      in if stripped = [] then ''0'' else if dec_is_negative d then CHR ''-'' # stripped else stripped)"
  by (simp add: dec_to_string_def point_text_def Let_def)

lemma checked_mul_ex:
  "unat a * unat b < 2 ^ LENGTH('a) \<Longrightarrow> \<exists>c. checked_mul a (b :: 'a::len word) = Some c \<and> unat c = unat a * unat b"
  by (cases "checked_mul a b") (auto simp: checked_mul_Some checked_mul_None)

lemma checked_add_ex:
  "unat a + unat b < 2 ^ LENGTH('a) \<Longrightarrow> \<exists>c. checked_add a (b :: 'a::len word) = Some c \<and> unat c = unat a + unat b"
  by (cases "checked_add a b") (auto simp: checked_add_Some checked_add_None)

lemma exp10_le:
  assumes "k \<le> 77"
  shows "exp10 k = Some (10 ^ k)" "unat (10 ^ k :: u256) = 10 ^ k"
proof -
  have "(10::nat) ^ k \<le> 10 ^ 77" using assms by (intro power_increasing) simp_all
  also have "\<dots> < 2 ^ 256" by simp
  finally have "unat (10 :: u256) ^ k < 2 ^ LENGTH(256)" by simp
  then show "exp10 k = Some (10 ^ k)" "unat (10 ^ k :: u256) = 10 ^ k"
    using unat_pow_lt [of "10 :: u256" k] by (simp_all add: checked_pow_def)
qed

text \<open>The text of a decimal: a sign, the whole part, and the decimal places without trailing zeros.\<close>

lemma dec_to_string_eq:
  assumes "text_ok X" "dec_ok d"
  shows "\<exists>frac. list_all is_digit frac \<and> length frac \<le> 12 \<and> trim_end CHR ''0'' frac = frac
    \<and> digits_val frac * 10 ^ (12 - length frac) = nat \<bar>dec_val d\<bar> mod 10 ^ 12
    \<and> dec_to_string X d = (if dec_val d < 0 then ''-'' else [])
        @ dec_digits (nat \<bar>dec_val d\<bar> div 10 ^ 12) @ (if frac = [] then [] else CHR ''.'' # frac)"
proof -
  let ?a = "nat \<bar>dec_val d\<bar>" and ?i = "dec_digits (nat \<bar>dec_val d\<bar> div 10 ^ 12)"
  have "uint (i256_abs (dec_raw d)) = \<bar>dec_val d\<bar>" using assms(2) by (simp add: dec_ok_def dec_val_def uint_abs)
  then have a: "unat (i256_abs (dec_raw d)) = ?a" by (simp add: unat_eq_nat_uint)
  obtain full where f: "point_text 12 (dec_digits ?a) = ?i @ CHR ''.'' # full" "length full = 12"
      "list_all is_digit full" "digits_val full = ?a mod 10 ^ 12"
    using point_text_parts [of 12 ?a] by auto
  define frac where "frac = trim_end CHR ''0'' full"
  note t = trimmed_decimals [OF f(3), folded frac_def]
  have idem: "trim_end CHR ''0'' frac = frac"
    unfolding frac_def using trim_end_last trim_end_id by metis
  have "trim_end CHR ''.'' (trim_end CHR ''0'' (?i @ CHR ''.'' # full)) = ?i @ (if frac = [] then [] else CHR ''.'' # frac)"
    using trim_point [OF dec_digits_all _ f(3)] by (simp add: frac_def)
  then have "dec_to_string X d = (if dec_val d < 0 then ''-'' else []) @ ?i @ (if frac = [] then [] else CHR ''.'' # frac)"
    unfolding dec_to_string_point text_okD(1) [OF assms(1)] a f(1) by (simp add: Let_def dec_is_negative_iff)
  then show ?thesis using t idem f(2,4) by (intro exI [of _ frac]) simp
qed

lemma dec_from_str_parts:
  assumes X: "text_ok X" and frac: "list_all is_digit frac" "length frac \<le> 12" "trim_end CHR ''0'' frac = frac"
    and a: "a = i * 10 ^ 12 + digits_val frac * 10 ^ (12 - length frac)" "int a < half"
  shows "dec_from_str X ((if neg then ''-'' else []) @ dec_digits i @ (if frac = [] then [] else CHR ''.'' # frac))
    = Some (Inr (Dec (if neg then i256_neg (I256 (of_nat a)) else I256 (of_nat a))))"
proof -
  let ?s = "dec_digits i @ (if frac = [] then [] else CHR ''.'' # frac)"
  let ?small = "if frac = [] then ''0'' else frac"
  let ?d = "digits_val frac" and ?k = "12 - length frac"
  obtain c t where ct: "dec_digits i = c # t" by (cases "dec_digits i") auto
  then have "c \<noteq> CHR ''-''" using dec_digits_all [of i] by auto
  then have strip: "(case (if neg then ''-'' else []) @ ?s of c # t \<Rightarrow> if c = CHR ''-'' then (t, True) else ((if neg then ''-'' else []) @ ?s, False)
      | [] \<Rightarrow> ((if neg then ''-'' else []) @ ?s, False)) = (?s, neg)" using ct by simp
  have split: "unwrap_or (split_once CHR ''.'' ?s) (?s, ''0'') = (dec_digits i, ?small)"
    using digits_no_char [OF dec_digits_all, of "CHR ''.''" i] by simp
  have "int a < int (2 ^ 255)" using a(2) by (simp add: half_def)
  then have a_lt: "a < 2 ^ 255" by (simp only: of_nat_less_iff)
  have i_lt: "i * 10 ^ 12 < 2 ^ 255" using a_lt a(1) by linarith
  then have large: "from_str_radix_10 X (dec_digits i) = Some (of_nat i)" "i < 2 ^ 256"
    using text_okD(2) [OF X dec_digits_not_Nil dec_digits_all, of i] by simp_all
  have "?d < 10 ^ length frac" using digits_val_lt [OF frac(1)] .
  then have "?d * 10 ^ ?k < 10 ^ length frac * 10 ^ ?k" by simp
  also have "\<dots> = 10 ^ 12" using frac(2) by (simp flip: power_add)
  finally have d_lt: "?d * 10 ^ ?k < 10 ^ 12" .
  moreover have "(1::nat) \<le> 10 ^ ?k" by simp
  ultimately have d_lt': "?d < 10 ^ 12" by (metis le_less_trans mult.right_neutral mult_le_mono2)
  define trimmed where "trimmed = take precision (trim_end CHR ''0'' ?small)"
  have trim: "trimmed = frac"
    using frac(2,3) trim_end_snoc [of "CHR ''0''" "[]" "CHR ''0''"] by (auto simp: trimmed_def)
  have dec: "(if trimmed = [] then Some 0 else from_str_radix_10 X trimmed) = Some (of_nat ?d)"
    using text_okD(2) [OF X _ frac(1)] d_lt' trim by auto
  have d256: "unat (of_nat ?d :: u256) = ?d" "unat (of_nat i :: u256) = i"
    using d_lt' large(2) by (simp_all add: unat_of_nat_lt)
  obtain e :: u256 where e: "exp10 (if trimmed = [] then 0 else precision - length trimmed) = Some e"
      "?d * unat e = ?d * 10 ^ ?k"
    using exp10_le [of ?k] trim by (cases "frac = []") (auto simp: checked_pow_def)
  obtain dp where dp: "checked_mul (of_nat ?d) e = Some dp" "unat dp = ?d * 10 ^ ?k"
    using checked_mul_ex [of "of_nat ?d" e] e(2) d_lt d256 by auto
  obtain ip where ip: "checked_mul (10 ^ 12) (of_nat i :: u256) = Some ip" "unat ip = i * 10 ^ 12"
    using checked_mul_ex [of "10 ^ 12" "of_nat i :: u256"] i_lt d256 by (auto simp: mult.commute)
  obtain t where t: "checked_add ip dp = Some t" "unat t = a"
    using checked_add_ex [of ip dp] ip(2) dp(2) a(1) a_lt by auto
  then have "t = of_nat a" by (intro word_of_unat)
  moreover have "uint t < half" using t(2) a(2) by (metis of_nat_unat)
  ultimately have "i256_try_from t = Some (I256 (of_nat a))" by (simp add: try_from_eq)
  moreover have "?small \<noteq> []" by simp
  ultimately show ?thesis
    using dp(1) ip(1) t(1)
    unfolding dec_from_str_def strip Let_def prod.case split large(1) option.case
    unfolding trimmed_def [symmetric] unfolding dec option.case e(1) unfolding precision_eq exp10_small
    by simp
qed

lemma dec_roundtrip:
  assumes "text_ok X" "dec_ok d"
  shows "dec_from_str X (dec_to_string X d) = Some (Inr d)"
proof -
  define a where "a = nat \<bar>dec_val d\<bar>"
  obtain frac where f: "list_all is_digit frac" "length frac \<le> 12" "trim_end CHR ''0'' frac = frac"
      "digits_val frac * 10 ^ (12 - length frac) = a mod 10 ^ 12"
      "dec_to_string X d = (if dec_val d < 0 then ''-'' else [])
        @ dec_digits (a div 10 ^ 12) @ (if frac = [] then [] else CHR ''.'' # frac)"
    using dec_to_string_eq [OF assms] unfolding a_def by blast
  have r: "in_range (dec_val d)" using dec_in_range [OF assms(2)] .
  then have a: "int a = \<bar>dec_val d\<bar>" "int a < half" by (simp_all add: a_def in_range_def)
  have "dec_from_str X (dec_to_string X d)
      = Some (Inr (Dec (if dec_val d < 0 then i256_neg (I256 (of_nat a)) else I256 (of_nat a))))"
    unfolding f(5) by (rule dec_from_str_parts [OF assms(1) f(1-3) _ a(2)]) (simp add: f(4))
  also have "(if dec_val d < 0 then i256_neg (I256 (of_nat a)) else I256 (of_nat a)) = i256_of (dec_val d)"
  proof (rule signed_of_abs [OF r])
    have "int a < int (2 ^ 256)" using a(2) by (simp add: half_def)
    then have "unat (of_nat a :: u256) = a" by (intro unat_of_nat_lt) (simp only: of_nat_less_iff, simp)
    then show "uint (of_nat a :: u256) = \<bar>dec_val d\<bar>" using a(1) by (metis of_nat_unat)
  qed simp
  finally show ?thesis by (simp add: dec_val_def dec_of_val [unfolded dec_of_def])
qed

section \<open>Sums, products and products with amounts\<close>




section \<open>Properties\<close>



text \<open>(C31) Multiplying a token amount by a decimal and rounding up, as slashing does, gives the least
  integer that is not below the exact product. A rate of at most one never takes more than the amount.
  The operation panics exactly for a negative rate or when the unscaled product does not fit.\<close>

theorem amount_mul_ceil_exact:
  assumes "dec_ok d"
  shows "(amount_mul_ceil a d = None \<longleftrightarrow> dec_val d < 0 \<or> 2 ^ 256 \<le> uint (raw_amount a) * dec_val d)
    \<and> (\<forall>r. amount_mul_ceil a d = Some r \<longrightarrow>
         uint (raw_amount r) * 10 ^ 12 \<ge> uint (raw_amount a) * dec_val d
         \<and> uint (raw_amount r) * 10 ^ 12 < uint (raw_amount a) * dec_val d + 10 ^ 12
         \<and> (dec_val d \<le> 10 ^ 12 \<longrightarrow> raw_amount r \<le> raw_amount a))"
proof -
  let ?x = "uint (raw_amount a) * dec_val d" and ?q = "(uint (raw_amount a) * dec_val d + (10 ^ 12 - 1)) div 10 ^ 12"
  have half: "2 * half = 2 ^ 256" by (simp add: half_def)
  have "uint (raw_amount r) * 10 ^ 12 \<ge> ?x \<and> uint (raw_amount r) * 10 ^ 12 < ?x + 10 ^ 12
      \<and> (dec_val d \<le> 10 ^ 12 \<longrightarrow> raw_amount r \<le> raw_amount a)" if "amount_mul_ceil a d = Some r" for r
  proof -
    have x: "0 \<le> dec_val d" "?x < 2 * half" and r: "raw_amount r = word_of_int ?q"
      using that amount_mul_ceil_eq [OF assms, of a] by (auto split: if_splits)
    have x0: "0 \<le> ?x" using x(1) u256_bounds [of "raw_amount a"] by simp
    have "0 \<le> ?q \<and> ?q < 2 ^ 256" using x0 x(2) half by auto
    then have u: "uint (raw_amount r) = ?q" unfolding r by (simp add: uint_word_of_int)
    have b: "?x \<le> ?q * 10 ^ 12" "?q * 10 ^ 12 < ?x + 10 ^ 12" by (rule ceil_bounds; simp)+
    have "raw_amount r \<le> raw_amount a" if "dec_val d \<le> 10 ^ 12"
    proof -
      have "?x \<le> uint (raw_amount a) * 10 ^ 12"
        using that u256_bounds [of "raw_amount a"] by (intro mult_left_mono) simp_all
      with b(2) have "?q * 10 ^ 12 < uint (raw_amount a) * 10 ^ 12 + 10 ^ 12" by (rule less_le_trans [OF _ add_right_mono])
      also have "\<dots> = (uint (raw_amount a) + 1) * 10 ^ 12" by (simp only: distrib_right mult_1)
      finally have "?q < uint (raw_amount a) + 1" by (rule mult_right_less_imp_less) simp
      then have "?q \<le> uint (raw_amount a)" by (simp only: zless_add1_eq le_less)
      then show ?thesis using u by (simp add: word_le_def)
    qed
    then show ?thesis using b u by simp
  qed
  moreover have "amount_mul_ceil a d = None \<longleftrightarrow> dec_val d < 0 \<or> 2 ^ 256 \<le> ?x"
    using amount_mul_ceil_eq [OF assms, of a] half by auto
  ultimately show ?thesis by blast
qed

theorem amount_mul_ceil_exact_witness:
  "dec_ok (dec_of 50000000000) \<and> amount_mul_ceil (Amount 101) (dec_of 50000000000) \<noteq> None"
proof -
  have r: "in_range 50000000000" by (simp add: small_in_range)
  show ?thesis
    using amount_mul_ceil_exact [OF dec_of_ok [OF r], of "Amount 101"] dec_of_ok [OF r]
    unfolding dec_val_of [OF r] by simp
qed

text \<open>(C27) The text of a decimal parses back to the same decimal, for every representable value.\<close>

theorem dec_text_roundtrip:
  assumes "text_ok X" and "dec_ok d"
  shows "dec_from_str X (dec_to_string X d) = Some (Inr d)"
  using assms by (rule dec_roundtrip)

theorem dec_text_roundtrip_witness:
  "text_ok plain_text \<and> dec_ok (dec_of (- 1500000000000))
   \<and> dec_from_str plain_text (dec_to_string plain_text (dec_of (- 1500000000000))) = Some (Inr (dec_of (- 1500000000000)))"
proof -
  have r: "in_range (- 1500000000000)" by (simp add: small_in_range)
  show ?thesis
    using dec_text_roundtrip [OF plain_text_ok dec_of_ok [OF r]] plain_text_ok dec_of_ok [OF r] by blast
qed

text \<open>(C37) Rounding a decimal up is right for numbers that are not whole and for those that are not
  positive. A positive whole number is rounded up to the next one: the ceiling of one is two.\<close>

theorem dec_ceil_off_by_one:
  assumes "prims_ok P" and "dec_ok x"
  shows "dec_ceil P x = Some (i256_of (
      if 0 < dec_val x \<and> dec_val x mod 10 ^ 12 = 0 then dec_val x div 10 ^ 12 + 1
      else (dec_val x + (10 ^ 12 - 1)) div 10 ^ 12))"
proof -
  let ?v = "dec_val x"
  have "?v sdiv 10 ^ 12 = (?v + (10 ^ 12 - 1)) div 10 ^ 12" if "\<not> 0 < ?v"
  proof -
    have "?v sdiv 10 ^ 12 = - ((- ?v) div 10 ^ 12)" using that by (simp add: signed_divide_int_def sgn_if)
    also have "\<dots> = (?v + (10 ^ 12 - 1)) div 10 ^ 12"
      using ceil_div_int [of "10 ^ 12" ?v] by (simp add: zdiv_zminus1_eq_if)
    finally show ?thesis .
  qed
  moreover have "?v sdiv 10 ^ 12 = ?v div 10 ^ 12" if "0 < ?v" using that by (simp add: signed_divide_int_def sgn_if)
  ultimately show ?thesis
    using dec_ceil_eq [OF assms] ceil_div_int [of "10 ^ 12" ?v] by (cases "0 < ?v") simp_all
qed

theorem dec_ceil_off_by_one_witness:
  "prims_ok plain_prims \<and> dec_ok (dec_of (10 ^ 12)) \<and> dec_ceil plain_prims (dec_of (10 ^ 12)) = Some (i256_of 2)"
proof -
  have r: "in_range (10 ^ 12)" by (simp add: small_in_range)
  show ?thesis
    using dec_ceil_off_by_one [OF plain_prims_ok dec_of_ok [OF r]] plain_prims_ok dec_of_ok [OF r]
    unfolding dec_val_of [OF r] by simp
qed

end
