(* ===== verification/Token_Amount.thy ===== *)
theory Token_Amount
  imports Decimals
begin

text \<open>
  Token amounts (\<open>core/src/types/token.rs\<close>): checked arithmetic, denominated amounts with their text
  form, order and aligned arithmetic, and the split of an amount into the four denominations of the
  shielded pool.
\<close>

unbundle bit_operations_syntax

section \<open>Amounts\<close>

definition NATIVE_SCALE :: u64 where "NATIVE_SCALE = 1000000"

text \<open>A unit result after a panic-free update is the updated amount.\<close>

definition amount_change :: "amount \<Rightarrow> i256 option" where
  "amount_change a = i256_try_from (raw_amount a)"

definition spend :: "amount \<Rightarrow> amount \<Rightarrow> amount option" where
  "spend a amt = map_option Amount (checked_sub (raw_amount a) (raw_amount amt))"

definition can_spend :: "amount \<Rightarrow> amount \<Rightarrow> bool" where
  "can_spend a amt \<longleftrightarrow> raw_amount amt \<le> raw_amount a"

definition receive :: "amount \<Rightarrow> amount \<Rightarrow> amount option" where
  "receive a amt = map_option Amount (checked_add (raw_amount a) (raw_amount amt))"

definition native_whole :: "u64 \<Rightarrow> amount option" where
  "native_whole n = map_option Amount (checked_mul (ucast n) (ucast NATIVE_SCALE))"

definition amount_max :: amount where "amount_max = Amount MAX_VALUE"

definition amount_max_signed :: amount where "amount_max_signed = Amount MAX_SIGNED_VALUE"

definition amount_checked_add :: "amount \<Rightarrow> amount \<Rightarrow> amount option" where
  "amount_checked_add a amt = do {
     result \<leftarrow> checked_add (raw_amount a) (raw_amount amt);
     if result \<le> MAX_VALUE then Some (Amount result) else None
   }"

definition amount_checked_signed_add :: "amount \<Rightarrow> amount \<Rightarrow> amount option" where
  "amount_checked_signed_add a amt = do {
     result \<leftarrow> checked_add (raw_amount a) (raw_amount amt);
     if result \<le> MAX_SIGNED_VALUE then Some (Amount result) else None
   }"

definition amount_checked_sub :: "amount \<Rightarrow> amount \<Rightarrow> amount option" where
  "amount_checked_sub a amt = map_option Amount (checked_sub (raw_amount a) (raw_amount amt))"

text \<open>The operators \<open>+\<close>, \<open>-\<close>, and \<open>*\<close> and \<open>/\<close> by an integer; they panic where the checked ones fail.\<close>

definition amount_add :: "amount \<Rightarrow> amount \<Rightarrow> amount option" where
  "amount_add a b = map_option Amount (checked_add (raw_amount a) (raw_amount b))"

definition amount_sub :: "amount \<Rightarrow> amount \<Rightarrow> amount option" where
  "amount_sub a b = map_option Amount (checked_sub (raw_amount a) (raw_amount b))"

definition amount_mul_u64 :: "amount \<Rightarrow> u64 \<Rightarrow> amount option" where
  "amount_mul_u64 a n = map_option Amount (checked_mul (raw_amount a) (ucast n))"

definition amount_div_u64 :: "amount \<Rightarrow> u64 \<Rightarrow> amount option" where
  "amount_div_u64 a n = map_option Amount (checked_div (raw_amount a) (ucast n))"

definition amount_from_change :: "i256 \<Rightarrow> amount" where
  "amount_from_change c = Amount (i256_abs c)"

definition amount_checked_div :: "amount \<Rightarrow> amount \<Rightarrow> amount option" where
  "amount_checked_div a amt = map_option Amount (checked_div (raw_amount a) (raw_amount amt))"

definition amount_checked_mul :: "amount \<Rightarrow> amount \<Rightarrow> amount option" where
  "amount_checked_mul a amt = map_option Amount (checked_mul (raw_amount a) (raw_amount amt))"

datatype amount_parse_error =
  ScaleTooLarge u32 u8 | InvalidRange | ConvertToDecimal | FromString | NotNumeric
| PrecisionOverflow | PrecisionDecrease

definition amount_from_uint :: "u256 \<Rightarrow> u8 \<Rightarrow> amount_parse_error + amount" where
  "amount_from_uint v denom =
     (if denom = 0 then Inr (Amount v)
      else case Option.bind (checked_pow 10 (unat denom)) (\<lambda>scaling. checked_mul scaling v) of
        Some amt \<Rightarrow> Inr (Amount amt)
      | None \<Rightarrow> Inl ConvertToDecimal)"

datatype masp_denom = MaspZero | MaspOne | MaspTwo | MaspThree

fun masp_index :: "masp_denom \<Rightarrow> nat" where
  "masp_index MaspZero = 0"
| "masp_index MaspOne = 1"
| "masp_index MaspTwo = 2"
| "masp_index MaspThree = 3"

definition masp_denom_from :: "u8 \<Rightarrow> masp_denom option" where
  "masp_denom_from d =
     (if d = 0 then Some MaspZero else if d = 1 then Some MaspOne
      else if d = 2 then Some MaspTwo else if d = 3 then Some MaspThree else None)"

definition masp_denom_iter :: "masp_denom list" where
  "masp_denom_iter = List.map_filter masp_denom_from [0, 1, 2, 3]"

definition amount_from_masp_denominated :: "u64 \<Rightarrow> masp_denom \<Rightarrow> amount" where
  "amount_from_masp_denominated v denom =
     Amount (from_limbs ((replicate 4 0)[masp_index denom := v]))"

definition denominate :: "masp_denom \<Rightarrow> amount \<Rightarrow> u64" where
  "denominate denom a = limbs (raw_amount a) ! masp_index denom"

text \<open>The \<open>i128\<close> is given by its integer value.\<close>

definition denominate_i128 :: "masp_denom \<Rightarrow> i256 \<Rightarrow> int" where
  "denominate_i128 denom c =
     (let v = uint (limbs (i256_abs c) ! masp_index denom) in if is_negative c then - v else v)"

definition i256_from_masp_denominated :: "int \<Rightarrow> masp_denom \<Rightarrow> amount_parse_error + i256" where
  "i256_from_masp_denominated v denom =
     (let result = from_limbs ((replicate 4 0)[masp_index denom := word_of_int \<bar>v\<bar>]) in
      if result \<le> MAX_SIGNED_VALUE
      then Inr (i256_canonical (I256 (if v < 0 then uint_negate result else result)))
      else Inl InvalidRange)"

section \<open>Denominated amounts\<close>

datatype denomination = Denomination (denom_u8: u8)

record denominated_amount =
  da_amount :: amount
  da_denom :: denomination

definition da_new :: "amount \<Rightarrow> denomination \<Rightarrow> denominated_amount" where
  "da_new a d = \<lparr>da_amount = a, da_denom = d\<rparr>"

definition da_native :: "amount \<Rightarrow> denominated_amount" where
  "da_native a = \<lparr>da_amount = a, da_denom = Denomination NATIVE_MAX_DECIMAL_PLACES\<rparr>"

definition to_string_precise :: "uint_text \<Rightarrow> denominated_amount \<Rightarrow> string" where
  "to_string_precise X d =
     (let decimals = unat (denom_u8 (da_denom d));
          string = uint_to_string X (raw_amount (da_amount d))
      in if decimals = 0 then string
         else if decimals < length string
         then take (length string - decimals) string @ CHR ''.'' # drop (length string - decimals) string
         else CHR ''0'' # CHR ''.'' # replicate (decimals - length string) CHR ''0'' @ string)"

text \<open>One pass of the loop of \<open>canonical\<close>; a pass that finds a remainder leaves the value unchanged.\<close>

definition canonical_step :: "u256 \<times> u8 \<Rightarrow> u256 \<times> u8" where
  "canonical_step = (\<lambda>(value, denom). if value mod 10 = 0 then (value div 10, denom - 1) else (value, denom))"

definition da_canonical :: "denominated_amount \<Rightarrow> denominated_amount" where
  "da_canonical d =
     (let (value, denom) = (canonical_step ^^ unat (denom_u8 (da_denom d)))
        (raw_amount (da_amount d), denom_u8 (da_denom d))
      in \<lparr>da_amount = Amount value, da_denom = Denomination denom\<rparr>)"

definition increase_precision :: "denominated_amount \<Rightarrow> denomination \<Rightarrow> amount_parse_error + denominated_amount" where
  "increase_precision d denom =
     (if denom_u8 denom < denom_u8 (da_denom d) then Inl PrecisionDecrease
      else ok_or (map_option (\<lambda>amt. \<lparr>da_amount = Amount amt, da_denom = denom\<rparr>)
        (Option.bind (checked_pow 10 (unat (denom_u8 denom - denom_u8 (da_denom d))))
          (\<lambda>scaling. checked_mul (raw_amount (da_amount d)) scaling))) PrecisionOverflow)"

definition da_scale :: "denominated_amount \<Rightarrow> u8 \<Rightarrow> amount_parse_error + amount" where
  "da_scale d denom = map_sum id da_amount (increase_precision d (Denomination denom))"

definition res_ok :: "'e + 'a \<Rightarrow> 'a option" where
  "res_ok r = (case r of Inl _ \<Rightarrow> None | Inr x \<Rightarrow> Some x)"

definition da_checked_mul :: "denominated_amount \<Rightarrow> denominated_amount \<Rightarrow> denominated_amount option" where
  "da_checked_mul x rhs = do {
     amt \<leftarrow> amount_checked_mul (da_amount x) (da_amount rhs);
     d \<leftarrow> checked_add (denom_u8 (da_denom x)) (denom_u8 (da_denom rhs));
     Some \<lparr>da_amount = amt, da_denom = Denomination d\<rparr>
   }"

definition align :: "denominated_amount \<Rightarrow> denominated_amount \<Rightarrow> (denominated_amount \<times> denominated_amount) option" where
  "align lhs rhs =
     (if denom_u8 (da_denom lhs) < denom_u8 (da_denom rhs)
      then map_option (\<lambda>l. (l, rhs)) (res_ok (increase_precision lhs (da_denom rhs)))
      else map_option (\<lambda>r. (lhs, r)) (res_ok (increase_precision rhs (da_denom lhs))))"

definition da_checked_sub :: "denominated_amount \<Rightarrow> denominated_amount \<Rightarrow> denominated_amount option" where
  "da_checked_sub x y = do {
     (lhs, rhs) \<leftarrow> align x y;
     amt \<leftarrow> amount_checked_sub (da_amount lhs) (da_amount rhs);
     Some \<lparr>da_amount = amt, da_denom = da_denom lhs\<rparr>
   }"

definition da_checked_add :: "denominated_amount \<Rightarrow> denominated_amount \<Rightarrow> denominated_amount option" where
  "da_checked_add x y = do {
     (lhs, rhs) \<leftarrow> align x y;
     amt \<leftarrow> amount_checked_add (da_amount lhs) (da_amount rhs);
     Some \<lparr>da_amount = amt, da_denom = da_denom lhs\<rparr>
   }"

definition da_display :: "uint_text \<Rightarrow> denominated_amount \<Rightarrow> string" where
  "da_display X d =
     (let string = to_string_precise X d;
          string = (if 0 < denom_u8 (da_denom d) then trim_end CHR ''0'' string else string)
      in trim_end CHR ''.'' string)"

text \<open>The loop over the digits, least significant first, with the power of ten of each.\<close>

fun sum_digits :: "nat \<Rightarrow> u256 \<Rightarrow> u256 list \<Rightarrow> u256 option" where
  "sum_digits pow value [] = Some value"
| "sum_digits pow value (digit # ds) = do {
     scaling \<leftarrow> checked_pow 10 pow;
     scaled \<leftarrow> checked_mul scaling digit;
     value' \<leftarrow> checked_add value scaled;
     sum_digits (pow + 1) value' ds
   }"

text \<open>The condition on the lengths evaluates \<open>s.len() - 1\<close>, which panics for the empty text.\<close>

definition da_from_str :: "string \<Rightarrow> (amount_parse_error + denominated_amount) option" where
  "da_from_str s =
     (let precision = (if CHR ''.'' \<in> set s then Some (length s - length (takeWhile (\<lambda>c. c \<noteq> CHR ''.'') s) - 1) else None);
          digits = rev (map (\<lambda>c. of_nat (digit_val c)) (filter is_digit s))
      in if length digits \<noteq> length s \<and> precision = None then Some (Inl NotNumeric)
         else if s = [] then None
         else if length digits \<noteq> length s - 1 \<and> precision \<noteq> None then Some (Inl NotNumeric)
         else if 77 < length digits then Some (Inl (ScaleTooLarge (of_nat (length digits)) 77))
         else case sum_digits 0 0 digits of
           None \<Rightarrow> Some (Inl InvalidRange)
         | Some value \<Rightarrow>
             Some (Inr \<lparr>da_amount = Amount value, da_denom = Denomination (of_nat (unwrap_or precision 0))\<rparr>))"

definition amount_from_str :: "string \<Rightarrow> u8 \<Rightarrow> (amount_parse_error + amount) option" where
  "amount_from_str s denom = map_option (\<lambda>r. res_bind r (\<lambda>d. da_scale d denom)) (da_from_str s)"

definition amount_from_string_precise :: "string \<Rightarrow> (amount_parse_error + amount) option" where
  "amount_from_string_precise s = map_option (map_sum id da_amount) (da_from_str s)"

definition amount_to_string_native :: "uint_text \<Rightarrow> amount \<Rightarrow> string" where
  "amount_to_string_native X a = to_string_precise X (da_native a)"

text \<open>The order compares with the quotient rounded up; \<open>exp10\<close> panics for large differences.\<close>

definition ceil_quotient :: "u256 \<Rightarrow> u256 \<Rightarrow> (u256 \<times> bool) option" where
  "ceil_quotient x e =
     (let d = x div e; r = x mod e in
      if r = 0 then Some (d, True) else map_option (\<lambda>q. (q, False)) (checked_add d 1))"

definition da_cmp :: "denominated_amount \<Rightarrow> denominated_amount \<Rightarrow> ordering option" where
  "da_cmp x y =
     (if denom_u8 (da_denom x) < denom_u8 (da_denom y)
      then do {
        e \<leftarrow> exp10 (unat (denom_u8 (da_denom y) - denom_u8 (da_denom x)));
        (div_ceil, exact) \<leftarrow> ceil_quotient (raw_amount (da_amount y)) e;
        (case compare_by (raw_amount (da_amount x)) div_ceil of
           Equal \<Rightarrow> Some (if exact then Equal else Greater)
         | ord \<Rightarrow> Some ord)
      }
      else do {
        e \<leftarrow> exp10 (unat (denom_u8 (da_denom x) - denom_u8 (da_denom y)));
        (div_ceil, exact) \<leftarrow> ceil_quotient (raw_amount (da_amount x)) e;
        (case compare_by div_ceil (raw_amount (da_amount y)) of
           Equal \<Rightarrow> Some (if exact then Equal else Less)
         | ord \<Rightarrow> Some ord)
      })"

section \<open>Text of denominated amounts\<close>

lemma sum_digits_eq:
  assumes "list_all is_digit t" "pow + length t \<le> 77" "unat v < 10 ^ pow"
  shows "\<exists>w. sum_digits pow v (rev (map (\<lambda>c. of_nat (digit_val c)) t)) = Some w
    \<and> unat w = unat v + 10 ^ pow * digits_val t"
  using assms
proof (induction t arbitrary: pow v rule: rev_induct)
  case (snoc c t)
  have c: "digit_val c < 10" using snoc.prems(1) by (simp add: digit_val_lt)
  then have uc: "unat (of_nat (digit_val c) :: u256) = digit_val c" by (simp add: unat_of_nat_lt)
  have pow: "exp10 pow = Some (10 ^ pow)" "unat (10 ^ pow :: u256) = 10 ^ pow"
    using exp10_le [of pow] snoc.prems(2) by simp_all
  have "(10::nat) ^ (pow + 1) \<le> 10 ^ 77" using snoc.prems(2) by (intro power_increasing) simp_all
  moreover have lt: "unat v + 10 ^ pow * digit_val c < 10 ^ (pow + 1)"
  proof -
    have "10 ^ pow * digit_val c \<le> 10 ^ pow * 9" using c by (intro mult_le_mono2) simp
    moreover have "(10::nat) ^ (pow + 1) = 10 ^ pow * 9 + 10 ^ pow" by simp
    ultimately show ?thesis using snoc.prems(3) by linarith
  qed
  moreover have "(10::nat) ^ 77 < 2 ^ 256" by simp
  ultimately have "unat v + 10 ^ pow * digit_val c < 2 ^ 256" by linarith
  then have bound: "10 ^ pow * digit_val c < 2 ^ LENGTH(256)" "unat v + 10 ^ pow * digit_val c < 2 ^ LENGTH(256)"
    by simp_all
  then obtain m where m: "checked_mul (10 ^ pow) (of_nat (digit_val c) :: u256) = Some m" "unat m = 10 ^ pow * digit_val c"
    using checked_mul_ex [of "10 ^ pow :: u256" "of_nat (digit_val c)"] unfolding pow(2) uc by blast
  then obtain w where w: "checked_add v m = Some w" "unat w = unat v + 10 ^ pow * digit_val c"
    using bound(2) checked_add_ex [of v m] unfolding m(2) by blast
  obtain r where r: "sum_digits (pow + 1) w (rev (map (\<lambda>c. of_nat (digit_val c)) t)) = Some r"
      "unat r = unat w + 10 ^ (pow + 1) * digits_val t"
    using snoc.IH [of "pow + 1" w] snoc.prems w(2) lt by auto
  show ?case using m w r pow(1) by (simp add: digits_val_append algebra_simps)
qed simp

lemma da_from_str_digits:
  assumes "list_all is_digit t" "t \<noteq> []" "length t \<le> 77"
  shows "da_from_str t = Some (Inr \<lparr>da_amount = Amount (of_nat (digits_val t)), da_denom = Denomination 0\<rparr>)"
proof -
  have "CHR ''.'' \<notin> set t" using digits_no_char [OF assms(1)] by simp
  moreover have "filter is_digit t = t" using assms(1) by (simp add: filter_id_conv list_all_iff)
  moreover obtain w where "sum_digits 0 0 (rev (map (\<lambda>c. of_nat (digit_val c)) t)) = Some w" "unat w = digits_val t"
    using sum_digits_eq [OF assms(1), of 0 0] assms(3) by auto
  ultimately show ?thesis
    using assms(2,3) by (simp add: da_from_str_def Let_def word_of_unat)
qed

lemma da_from_str_point:
  assumes "list_all is_digit i" "list_all is_digit f" "length i + length f \<le> 77"
  shows "da_from_str (i @ CHR ''.'' # f) = Some (Inr
    \<lparr>da_amount = Amount (of_nat (digits_val (i @ f))), da_denom = Denomination (of_nat (length f))\<rparr>)"
proof -
  have "takeWhile (\<lambda>c. c \<noteq> CHR ''.'') (i @ CHR ''.'' # f) = i"
    using digits_no_char [OF assms(1), of "CHR ''.''"] by (subst takeWhile_append2) auto
  moreover have "filter is_digit (i @ CHR ''.'' # f) = i @ f"
    using assms(1,2) by (simp add: filter_id_conv list_all_iff)
  moreover obtain w where "sum_digits 0 0 (rev (map (\<lambda>c. of_nat (digit_val c)) (i @ f))) = Some w"
      "unat w = digits_val (i @ f)"
    using sum_digits_eq [of "i @ f" 0 0] assms by auto
  ultimately show ?thesis
    using assms(3) by (simp add: da_from_str_def Let_def word_of_unat)
qed

lemma to_string_precise_point:
  "text_ok X \<Longrightarrow> to_string_precise X d =
    (if denom_u8 (da_denom d) = 0 then dec_digits (unat (raw_amount (da_amount d)))
     else point_text (unat (denom_u8 (da_denom d))) (dec_digits (unat (raw_amount (da_amount d)))))"
  by (simp add: to_string_precise_def point_text_def Let_def text_okD(1) unat_eq_zero)

lemma da_roundtrip:
  assumes "text_ok X" "unat (raw_amount (da_amount d)) < 10 ^ 77" "denom_u8 (da_denom d) \<le> 76"
  shows "da_from_str (to_string_precise X d) = Some (Inr d)"
proof -
  let ?a = "unat (raw_amount (da_amount d))" and ?k = "unat (denom_u8 (da_denom d))"
  have k: "?k \<le> 76" using assms(3) by (simp add: word_le_nat_alt)
  have d: "d = \<lparr>da_amount = Amount (of_nat ?a), da_denom = Denomination (of_nat ?k)\<rparr>"
    by (cases d; cases "da_amount d"; cases "da_denom d") simp
  show ?thesis
  proof (cases "denom_u8 (da_denom d) = 0")
    case True
    have "length (dec_digits ?a) \<le> 77" using length_dec_digits_le [of 77 ?a] assms(2) by simp
    then show ?thesis
      using True da_from_str_digits [OF dec_digits_all, of ?a] d by (simp add: to_string_precise_point [OF assms(1)])
  next
    case False
    then have k0: "0 < ?k" by (simp add: unat_gt_0)
    obtain f where f: "point_text ?k (dec_digits ?a) = dec_digits (?a div 10 ^ ?k) @ CHR ''.'' # f"
        "length f = ?k" "list_all is_digit f" "digits_val f = ?a mod 10 ^ ?k"
      using point_text_parts [OF k0] by blast
    have "?a div 10 ^ ?k < 10 ^ (77 - ?k)"
      using assms(2) k by (simp add: div_less_iff_less_mult flip: power_add)
    then have "length (dec_digits (?a div 10 ^ ?k)) + length f \<le> 77"
      using length_dec_digits_le [of "77 - ?k" "?a div 10 ^ ?k"] k f(2) by simp
    moreover have "digits_val (dec_digits (?a div 10 ^ ?k) @ f) = ?a"
      using f(2,4) div_mult_mod_eq [of ?a "10 ^ ?k"] by (simp add: digits_val_append)
    ultimately show ?thesis
      using False f da_from_str_point [OF dec_digits_all f(3), of "?a div 10 ^ ?k"] d
      by (simp add: to_string_precise_point [OF assms(1)])
  qed
qed

text \<open>The canonical form has no trailing zeros among its decimal places, which makes it unique.\<close>

lemma canonical_iterate:
  assumes "n \<le> unat d"
  shows "\<exists>j v'. (canonical_step ^^ n) (v, d) = (v', d - of_nat j) \<and> j \<le> n
    \<and> unat v = unat v' * 10 ^ j \<and> (j = n \<or> unat v' mod 10 \<noteq> 0)"
  using assms
proof (induction n)
  case 0
  then show ?case by (intro exI [of _ 0] exI [of _ v]) simp
next
  case (Suc n)
  then obtain j v' where j: "(canonical_step ^^ n) (v, d) = (v', d - of_nat j)" "j \<le> n"
      "unat v = unat v' * 10 ^ j" "j = n \<or> unat v' mod 10 \<noteq> 0" by auto
  have m: "v' mod 10 = 0 \<longleftrightarrow> unat v' mod 10 = 0" by (simp add: unat_mod flip: unat_eq_zero)
  show ?case
  proof (cases "unat v' mod 10 = 0")
    case True
    then have jn: "j = n" using j(4) by simp
    have "unat v' = unat (v' div 10) * 10" using True div_mult_mod_eq [of "unat v'" 10] by (simp add: unat_div)
    then have "unat v = unat (v' div 10) * 10 ^ Suc n" using j(3) jn by simp
    moreover have "(canonical_step ^^ Suc n) (v, d) = (v' div 10, d - of_nat (Suc n))"
      using j(1) jn True m by (simp add: canonical_step_def algebra_simps)
    ultimately show ?thesis by blast
  next
    case False
    then have "(canonical_step ^^ Suc n) (v, d) = (v', d - of_nat j)"
      using j(1) m by (simp add: canonical_step_def)
    then show ?thesis using j(2,3) False by (intro exI [of _ j] exI [of _ v']) simp
  qed
qed

lemma canonical_unique:
  fixes a :: nat
  assumes "a = v * 10 ^ (n - k)" "a = w * 10 ^ (n - l)" "k \<le> n" "l \<le> n"
    "k = 0 \<or> v mod 10 \<noteq> 0" "l = 0 \<or> w mod 10 \<noteq> 0"
  shows "k = l \<and> v = w"
proof -
  have *: "\<not> k < l" if eq: "v * 10 ^ (n - k) = w * 10 ^ (n - l)" and l: "l \<le> n" "l = 0 \<or> w mod 10 \<noteq> 0"
    for k l and v w :: nat
  proof
    assume kl: "k < l"
    then have "n - k = (l - k) + (n - l)" using l(1) by simp
    then have "w * 10 ^ (n - l) = (v * 10 ^ (l - k)) * 10 ^ (n - l)" using eq by (simp add: power_add mult.assoc)
    then have "w = v * 10 ^ (l - k)" by simp
    moreover obtain j where "l - k = Suc j" using kl by (metis Suc_diff_Suc)
    ultimately have "w mod 10 = 0" by simp
    then show False using l(2) kl by simp
  qed
  have "k = l" using * [of v k w l] * [of w l v k] assms by (metis linorder_neqE_nat)
  then show ?thesis using assms(1,2) by simp
qed

lemma da_display_parts:
  assumes "text_ok X" "0 < denom_u8 (da_denom d)"
  defines "a \<equiv> unat (raw_amount (da_amount d))" and "k \<equiv> unat (denom_u8 (da_denom d))"
  shows "\<exists>f. da_display X d = dec_digits (a div 10 ^ k) @ (if f = [] then [] else CHR ''.'' # f)
    \<and> list_all is_digit f \<and> length f \<le> k \<and> a = digits_val (dec_digits (a div 10 ^ k) @ f) * 10 ^ (k - length f)
    \<and> (f = [] \<or> digits_val (dec_digits (a div 10 ^ k) @ f) mod 10 \<noteq> 0)"
proof -
  have k0: "0 < k" using assms(2) by (simp add: k_def unat_gt_0)
  obtain g where g: "point_text k (dec_digits a) = dec_digits (a div 10 ^ k) @ CHR ''.'' # g"
      "length g = k" "list_all is_digit g" "digits_val g = a mod 10 ^ k"
    using point_text_parts [OF k0] by blast
  define f where "f = trim_end CHR ''0'' g"
  note t = trimmed_decimals [OF g(3), folded f_def]
  have "da_display X d = dec_digits (a div 10 ^ k) @ (if f = [] then [] else CHR ''.'' # f)"
    using assms(2) trim_point [OF dec_digits_all _ g(3), of "a div 10 ^ k"] g(1) k0
    by (simp add: da_display_def to_string_precise_point [OF assms(1)] f_def a_def k_def unat_gt_0)
  moreover have "a = digits_val (dec_digits (a div 10 ^ k) @ f) * 10 ^ (k - length f)"
  proof -
    have "a div 10 ^ k * 10 ^ k + digits_val f * 10 ^ (k - length f) = a"
      using t(3) g(2,4) div_mult_mod_eq [of a "10 ^ k"] by simp
    moreover have "10 ^ length f * 10 ^ (k - length f) = (10::nat) ^ k" using t(2) g(2) by (simp flip: power_add)
    ultimately show ?thesis by (simp add: digits_val_append distrib_right mult.assoc)
  qed
  moreover have "digits_val (dec_digits (a div 10 ^ k) @ f) mod 10 \<noteq> 0" if ne: "f \<noteq> []"
  proof -
    obtain f' c where fc: "f = f' @ [c]" using ne by (cases f rule: rev_cases) simp_all
    then have "c \<noteq> CHR ''0''" using trim_end_last [of "CHR ''0''" g, folded f_def] by simp
    then have "digit_val c \<noteq> 0" "digit_val c < 10" using t(1) fc digit_eq_zero digit_val_lt by simp_all
    then show ?thesis using fc digits_val_append [of "dec_digits (a div 10 ^ k) @ f'" "[c]"] by simp
  qed
  ultimately show ?thesis using t(1,2) g(2) by (intro exI [of _ f]) blast
qed

lemma da_display_parses:
  assumes "text_ok X" "unat (raw_amount (da_amount d)) < 10 ^ 77" "denom_u8 (da_denom d) \<le> 76"
  shows "da_from_str (da_display X d) = Some (Inr (da_canonical d))"
proof (cases "denom_u8 (da_denom d) = 0")
  case True
  have "last (dec_digits (unat (raw_amount (da_amount d)))) \<noteq> CHR ''.''"
    using dec_digits_all by (metis digit_point(1) dec_digits_not_Nil last_in_set list_all_iff)
  then have "da_display X d = to_string_precise X d"
    using True by (simp add: da_display_def to_string_precise_point [OF assms(1)] trim_end_id)
  moreover have "da_canonical d = d"
    using True by (cases d; cases "da_amount d"; cases "da_denom d") (simp add: da_canonical_def)
  ultimately show ?thesis using da_roundtrip [OF assms] by simp
next
  case False
  define a k where "a = unat (raw_amount (da_amount d))" and "k = unat (denom_u8 (da_denom d))"
  have k: "0 < k" "k \<le> 76" using False assms(3) by (simp_all add: k_def unat_gt_0 word_le_nat_alt)
  let ?i = "dec_digits (a div 10 ^ k)"
  obtain f where f: "da_display X d = ?i @ (if f = [] then [] else CHR ''.'' # f)" "list_all is_digit f" "length f \<le> k"
      "a = digits_val (?i @ f) * 10 ^ (k - length f)" "f = [] \<or> digits_val (?i @ f) mod 10 \<noteq> 0"
    using da_display_parts [OF assms(1), of d] False by (auto simp: a_def k_def word_gt_0)
  have "a div 10 ^ k < 10 ^ (77 - k)"
    using assms(2) k by (simp add: div_less_iff_less_mult a_def flip: power_add)
  then have len: "length ?i + length f \<le> 77"
    using length_dec_digits_le [of "77 - k" "a div 10 ^ k"] k f(3) by simp
  obtain j v where j: "(canonical_step ^^ k) (raw_amount (da_amount d), denom_u8 (da_denom d)) = (v, denom_u8 (da_denom d) - of_nat j)"
      "j \<le> k" "a = unat v * 10 ^ j" "j = k \<or> unat v mod 10 \<noteq> 0"
    using canonical_iterate [of k "denom_u8 (da_denom d)" "raw_amount (da_amount d)"] by (auto simp: a_def k_def)
  have "k - j = length f \<and> unat v = digits_val (?i @ f)"
    by (rule canonical_unique [of a _ k]) (use j f(3,4,5) in auto)
  moreover have "denom_u8 (da_denom d) - of_nat j = of_nat (k - j)"
    using j(2) by (simp add: k_def of_nat_diff)
  ultimately have c: "da_canonical d = \<lparr>da_amount = Amount (of_nat (digits_val (?i @ f))), da_denom = Denomination (of_nat (length f))\<rparr>"
    using j(1) word_of_unat [of v] by (simp add: da_canonical_def flip: k_def)
  show ?thesis
    using da_from_str_digits [OF dec_digits_all, of "a div 10 ^ k"] da_from_str_point [OF dec_digits_all f(2) len] f(1) c len
    by (cases "f = []") simp_all
qed

section \<open>Order of denominated amounts\<close>

lemma exp10_large: "78 \<le> k \<Longrightarrow> exp10 k = None"
proof -
  assume "78 \<le> k"
  then have "(10::nat) ^ 78 \<le> 10 ^ k" by (intro power_increasing) simp_all
  moreover have "(2::nat) ^ 256 \<le> 10 ^ 78" by simp
  ultimately have "(2::nat) ^ 256 \<le> 10 ^ k" by (rule le_trans [rotated])
  then show ?thesis by (simp add: checked_pow_None)
qed

lemma ceil_quotient_eq:
  assumes "1 < unat e \<or> e = 1"
  shows "\<exists>q. ceil_quotient x e = Some (q, unat x mod unat e = 0)
    \<and> unat q = unat x div unat e + of_bool (unat x mod unat e \<noteq> 0)"
proof (cases "unat x mod unat e = 0")
  case True
  then have "x mod e = 0" by (simp add: unat_mod flip: unat_eq_zero)
  then show ?thesis using True by (simp add: ceil_quotient_def unat_div)
next
  case False
  then have r: "x mod e \<noteq> 0" by (simp add: unat_mod flip: unat_eq_zero)
  have e: "1 < unat e" using assms False by auto
  then have "unat x div unat e + 1 \<le> unat x" using False
    by (metis Suc_eq_plus1 Suc_leI div_less_dividend gr0I mod_0)
  then have "unat (x div e) + unat (1 :: u256) < 2 ^ LENGTH(256)" using unat_bound [of x] by (simp add: unat_div)
  then obtain q where "checked_add (x div e) 1 = Some q" "unat q = unat x div unat e + 1"
    using checked_add_ex [of "x div e" 1] by (auto simp: unat_div)
  then show ?thesis using r False by (simp add: ceil_quotient_def)
qed

lemma compare_ceil:
  fixes a x e :: nat
  assumes "0 < e"
  defines "q \<equiv> x div e + of_bool (x mod e \<noteq> 0)"
  shows "a < q \<longleftrightarrow> a * e < x" "q < a \<Longrightarrow> x < a * e" "x mod e = 0 \<Longrightarrow> q * e = x" "x mod e \<noteq> 0 \<Longrightarrow> x < q * e"
proof -
  define d r where "d = x div e" and "r = x mod e"
  have x: "d * e + r = x" "r < e" using assms(1) by (simp_all add: d_def r_def)
  have qe: "q * e = d * e + of_bool (r \<noteq> 0) * e" by (simp add: q_def d_def r_def distrib_right)
  have z: "q * e = x" if "r = 0" using x(1) qe that by simp
  have n: "x < q * e" if "r \<noteq> 0"
  proof -
    have "q * e = d * e + e" using qe that by simp
    then show ?thesis using x by linarith
  qed
  show "x mod e = 0 \<Longrightarrow> q * e = x" by (rule z [unfolded r_def])
  show "x mod e \<noteq> 0 \<Longrightarrow> x < q * e" by (rule n [unfolded r_def])
  have xq: "x \<le> q * e" using z n by (cases "r = 0") simp_all
  show "q < a \<Longrightarrow> x < a * e"
    using xq mult_less_mono1 [of q a e] assms(1) by (meson le_less_trans)
  have "a * e < x" if "a < q"
  proof (cases "r = 0")
    case True
    then show ?thesis using z mult_less_mono1 [OF that assms(1)] by simp
  next
    case False
    then have "a \<le> d" using that by (simp add: q_def d_def r_def)
    then have "a * e \<le> d * e" by simp
    then show ?thesis using x False by linarith
  qed
  moreover have "x \<le> a * e" if "q \<le> a" using xq mult_le_mono1 [OF that, of e] by (rule le_trans)
  ultimately show "a < q \<longleftrightarrow> a * e < x" by (metis not_le)
qed

lemma compare_scaled:
  fixes a b :: nat
  assumes "l \<le> k"
  shows "compare_by (a * 10 ^ k) (b * 10 ^ l) = compare_by (a * 10 ^ (k - l)) b"
    "compare_by (b * 10 ^ l) (a * 10 ^ k) = compare_by b (a * 10 ^ (k - l))"
proof -
  have "(10::nat) ^ k = 10 ^ (k - l) * 10 ^ l" using assms by (simp flip: power_add)
  then have "a * 10 ^ k = a * 10 ^ (k - l) * 10 ^ l" by simp
  then show "compare_by (a * 10 ^ k) (b * 10 ^ l) = compare_by (a * 10 ^ (k - l)) b"
    "compare_by (b * 10 ^ l) (a * 10 ^ k) = compare_by b (a * 10 ^ (k - l))"
    by (simp_all only: compare_by_def mult_less_cancel2 mult_cancel2) simp_all
qed

lemma compare_by_ceil:
  fixes a x e :: nat
  assumes "0 < e" and q: "q = x div e + of_bool (x mod e \<noteq> 0)"
  shows "(case compare_by a q of Equal \<Rightarrow> if x mod e = 0 then Equal else Greater | ord \<Rightarrow> ord) = compare_by (a * e) x"
    "(case compare_by q a of Equal \<Rightarrow> if x mod e = 0 then Equal else Less | ord \<Rightarrow> ord) = compare_by x (a * e)"
proof -
  note c = compare_ceil [OF assms(1), where x = x, folded q]
  consider "a < q" | "q < a" | "a = q" by linarith
  then have "(case compare_by a q of Equal \<Rightarrow> if x mod e = 0 then Equal else Greater | ord \<Rightarrow> ord) = compare_by (a * e) x
    \<and> (case compare_by q a of Equal \<Rightarrow> if x mod e = 0 then Equal else Less | ord \<Rightarrow> ord) = compare_by x (a * e)"
  proof cases
    case 1
    then show ?thesis using c(1) [of a] by (simp add: compare_by_def)
  next
    case 2
    then show ?thesis using c(2) [of a] by (simp add: compare_by_def)
  next
    case 3
    then show ?thesis using c(3,4) by (cases "x mod e = 0") (simp_all add: compare_by_def)
  qed
  then show "(case compare_by a q of Equal \<Rightarrow> if x mod e = 0 then Equal else Greater | ord \<Rightarrow> ord) = compare_by (a * e) x"
    "(case compare_by q a of Equal \<Rightarrow> if x mod e = 0 then Equal else Less | ord \<Rightarrow> ord) = compare_by x (a * e)"
    by blast+
qed

lemma compare_by_unat: "compare_by (x :: 'a::len word) y = compare_by (unat x) (unat y)"
  by (simp add: compare_by_def word_less_nat_alt word_unat_eq_iff)

lemma ceil_quotient_exp10:
  assumes "n \<le> 77"
  shows "\<exists>q. ceil_quotient x (10 ^ n) = Some (q, unat x mod 10 ^ n = 0)
    \<and> unat q = unat x div 10 ^ n + of_bool (unat x mod 10 ^ n \<noteq> 0)"
  using ceil_quotient_eq [of "10 ^ n" x] one_less_power [of "10 :: nat" n] unfolding exp10_le(2) [OF assms]
  by (cases "n = 0") auto

lemma da_cmp_less:
  assumes "dx < dy" and "unat dy - unat dx \<le> 77"
  shows "da_cmp \<lparr>da_amount = Amount a, da_denom = Denomination dx\<rparr> \<lparr>da_amount = Amount b, da_denom = Denomination dy\<rparr>
    = Some (compare_by (unat a * 10 ^ unat dy) (unat b * 10 ^ unat dx))"
proof -
  let ?n = "unat dy - unat dx"
  have diff: "unat (dy - dx) = ?n" using assms(1) by (intro unat_sub) simp
  obtain q where q: "ceil_quotient b (10 ^ ?n) = Some (q, unat b mod 10 ^ ?n = 0)"
      "unat q = unat b div 10 ^ ?n + of_bool (unat b mod 10 ^ ?n \<noteq> 0)"
    using ceil_quotient_exp10 [OF assms(2)] by blast
  have "da_cmp \<lparr>da_amount = Amount a, da_denom = Denomination dx\<rparr> \<lparr>da_amount = Amount b, da_denom = Denomination dy\<rparr>
      = Some (case compare_by a q of Equal \<Rightarrow> if unat b mod 10 ^ ?n = 0 then Equal else Greater | ord \<Rightarrow> ord)"
    using assms q(1) exp10_le(1) [OF assms(2)] by (auto simp: da_cmp_def diff split: ordering.split)
  also have "\<dots> = Some (compare_by (unat a * 10 ^ ?n) (unat b))"
    unfolding compare_by_unat by (subst compare_by_ceil(1) [OF _ q(2)]) simp_all
  also have "\<dots> = Some (compare_by (unat a * 10 ^ unat dy) (unat b * 10 ^ unat dx))"
    using assms(1) compare_scaled(1) [of "unat dx" "unat dy"] by (simp add: word_less_nat_alt)
  finally show ?thesis .
qed

lemma da_cmp_not_less:
  assumes "\<not> dx < dy" and "unat dx - unat dy \<le> 77"
  shows "da_cmp \<lparr>da_amount = Amount a, da_denom = Denomination dx\<rparr> \<lparr>da_amount = Amount b, da_denom = Denomination dy\<rparr>
    = Some (compare_by (unat a * 10 ^ unat dy) (unat b * 10 ^ unat dx))"
proof -
  let ?n = "unat dx - unat dy"
  have diff: "unat (dx - dy) = ?n" using assms(1) by (intro unat_sub) simp
  obtain q where q: "ceil_quotient a (10 ^ ?n) = Some (q, unat a mod 10 ^ ?n = 0)"
      "unat q = unat a div 10 ^ ?n + of_bool (unat a mod 10 ^ ?n \<noteq> 0)"
    using ceil_quotient_exp10 [OF assms(2)] by blast
  have "da_cmp \<lparr>da_amount = Amount a, da_denom = Denomination dx\<rparr> \<lparr>da_amount = Amount b, da_denom = Denomination dy\<rparr>
      = Some (case compare_by q b of Equal \<Rightarrow> if unat a mod 10 ^ ?n = 0 then Equal else Less | ord \<Rightarrow> ord)"
    using assms q(1) exp10_le(1) [OF assms(2)] by (auto simp: da_cmp_def diff split: ordering.split)
  also have "\<dots> = Some (compare_by (unat a) (unat b * 10 ^ ?n))"
    unfolding compare_by_unat by (subst compare_by_ceil(2) [OF _ q(2)]) simp_all
  also have "\<dots> = Some (compare_by (unat a * 10 ^ unat dy) (unat b * 10 ^ unat dx))"
    using assms(1) compare_scaled(2) [of "unat dy" "unat dx"] by (simp add: word_less_nat_alt)
  finally show ?thesis .
qed

lemma da_cmp_exact:
  "da_cmp \<lparr>da_amount = Amount a, da_denom = Denomination dx\<rparr> \<lparr>da_amount = Amount b, da_denom = Denomination dy\<rparr> =
    (if unat dx \<le> unat dy + 77 \<and> unat dy \<le> unat dx + 77
     then Some (compare_by (unat a * 10 ^ unat dy) (unat b * 10 ^ unat dx)) else None)"
proof (cases "dx < dy")
  case True
  then have lt: "unat dx < unat dy" and diff: "unat (dy - dx) = unat dy - unat dx"
    by (simp add: word_less_nat_alt, intro unat_sub, simp)
  show ?thesis
    using da_cmp_less [OF True] lt True exp10_large [of "unat dy - unat dx"]
    by (cases "unat dy - unat dx \<le> 77") (auto simp: da_cmp_def diff)
next
  case False
  then have le: "unat dy \<le> unat dx" and diff: "unat (dx - dy) = unat dx - unat dy"
    by (simp add: word_less_nat_alt, intro unat_sub, simp)
  show ?thesis
    using da_cmp_not_less [OF False] le False exp10_large [of "unat dx - unat dy"]
    by (cases "unat dx - unat dy \<le> 77") (auto simp: da_cmp_def diff)
qed

section \<open>Sums and differences of denominated amounts\<close>

lemma increase_precision_exact:
  assumes "dx \<le> dy"
  defines "n \<equiv> unat dy - unat dx"
  shows "res_ok (increase_precision \<lparr>da_amount = Amount a, da_denom = Denomination dx\<rparr> (Denomination dy)) =
    (if n \<le> 77 \<and> unat a * 10 ^ n < 2 ^ 256
     then Some \<lparr>da_amount = Amount (of_nat (unat a * 10 ^ n)), da_denom = Denomination dy\<rparr> else None)"
proof -
  have diff: "unat (dy - dx) = n" unfolding n_def using assms(1) by (intro unat_sub) simp
  show ?thesis
  proof (cases "n \<le> 77")
    case True
    have "checked_mul a (10 ^ n) = (if unat a * 10 ^ n < 2 ^ 256 then Some (of_nat (unat a * 10 ^ n)) else None)"
      unfolding checked_mul_def exp10_le(2) [OF True] by (simp add: word_of_unat)
    then show ?thesis
      using True assms(1) exp10_le(1) [OF True] by (auto simp: increase_precision_def res_ok_def ok_or_def diff)
  next
    case False
    then show ?thesis using assms(1) exp10_large [of n] by (simp add: increase_precision_def res_ok_def ok_or_def diff)
  qed
qed

text \<open>Both operands of a sum or a difference are brought to the larger number of decimal places.\<close>

definition aligned :: "denominated_amount \<Rightarrow> nat \<Rightarrow> nat" where
  "aligned d n = unat (raw_amount (da_amount d)) * 10 ^ (n - unat (denom_u8 (da_denom d)))"

definition max_denom :: "denominated_amount \<Rightarrow> denominated_amount \<Rightarrow> nat" where
  "max_denom x y = max (unat (denom_u8 (da_denom x))) (unat (denom_u8 (da_denom y)))"

definition close_denoms :: "denominated_amount \<Rightarrow> denominated_amount \<Rightarrow> bool" where
  "close_denoms x y \<longleftrightarrow> unat (denom_u8 (da_denom x)) \<le> unat (denom_u8 (da_denom y)) + 77
     \<and> unat (denom_u8 (da_denom y)) \<le> unat (denom_u8 (da_denom x)) + 77"

definition da_of :: "nat \<Rightarrow> nat \<Rightarrow> denominated_amount" where
  "da_of a n = \<lparr>da_amount = Amount (of_nat a), da_denom = Denomination (of_nat n)\<rparr>"

lemma align_exact:
  "align x y = (let n = max_denom x y in
     if close_denoms x y \<and> aligned x n < 2 ^ 256 \<and> aligned y n < 2 ^ 256
     then Some (da_of (aligned x n) n, da_of (aligned y n) n) else None)"
proof -
  obtain a dx b dy where x: "x = \<lparr>da_amount = Amount a, da_denom = Denomination dx\<rparr>"
      and y: "y = \<lparr>da_amount = Amount b, da_denom = Denomination dy\<rparr>"
    by (metis amount.exhaust denomination.exhaust denominated_amount.cases)
  have small: "unat a < 2 ^ 256" "unat b < 2 ^ 256" using unat_bound [of a] unat_bound [of b] by simp_all
  show ?thesis
  proof (cases "dx < dy")
    case True
    then have "unat dx < unat dy" by (simp add: word_less_nat_alt)
    then show ?thesis
      using True small increase_precision_exact [of dx dy a]
      by (auto simp: x y align_def Let_def max_denom_def aligned_def close_denoms_def da_of_def word_of_unat)
  next
    case False
    then have "unat dy \<le> unat dx" by (simp add: word_less_nat_alt)
    then show ?thesis
      using False small increase_precision_exact [of dy dx b]
      by (auto simp: x y align_def Let_def max_denom_def aligned_def close_denoms_def da_of_def word_of_unat)
  qed
qed

lemma MAX_VALUE_top: "x \<le> MAX_VALUE"
  by (simp add: MAX_VALUE_def)

lemma da_checked_add_exact:
  "da_checked_add x y = (let n = max_denom x y in
     if close_denoms x y \<and> aligned x n + aligned y n < 2 ^ 256 then Some (da_of (aligned x n + aligned y n) n) else None)"
proof -
  let ?n = "max_denom x y"
  have "amount_checked_add (Amount (of_nat a)) (Amount (of_nat b))
      = (if a + b < 2 ^ 256 then Some (Amount (of_nat (a + b))) else None)" if "a < 2 ^ 256" "b < 2 ^ 256" for a b
    using that by (simp add: amount_checked_add_def checked_add_def unat_of_nat_lt MAX_VALUE_top)
  then show ?thesis
    unfolding da_checked_add_def align_exact Let_def by (auto simp: da_of_def)
qed

lemma da_checked_sub_exact:
  "da_checked_sub x y = (let n = max_denom x y in
     if close_denoms x y \<and> aligned y n \<le> aligned x n \<and> aligned x n < 2 ^ 256
     then Some (da_of (aligned x n - aligned y n) n) else None)"
proof -
  have "amount_checked_sub (Amount (of_nat a)) (Amount (of_nat b))
      = (if b \<le> a then Some (Amount (of_nat (a - b))) else None)" if "a < 2 ^ 256" "b < 2 ^ 256" for a b
    using that by (simp add: amount_checked_sub_def checked_sub_def unat_of_nat_lt word_le_nat_alt of_nat_diff)
  then show ?thesis
    unfolding da_checked_sub_def align_exact Let_def by (auto simp: da_of_def)
qed

section \<open>Shielded amounts\<close>

lemma masp_denom_iter_eq: "masp_denom_iter = [MaspZero, MaspOne, MaspTwo, MaspThree]"
  by code_simp

lemma val_single: "i < 4 \<Longrightarrow> val ((replicate 4 0)[i := v]) = unat v * base ^ i"
proof -
  assume "i < 4"
  then consider "i = 0" | "i = 1" | "i = 2" | "i = 3" by linarith
  then show ?thesis by cases (simp_all add: eval_nat_numeral algebra_simps)
qed

lemma masp_index_lt: "masp_index d < 4"
  by (cases d) simp_all

lemma unat_from_masp: "unat (raw_amount (amount_from_masp_denominated v d)) = unat v * base ^ masp_index d"
  by (simp add: amount_from_masp_denominated_def unat_from_limbs val_single masp_index_lt)

lemma limbs_sum: "(\<Sum>d \<leftarrow> masp_denom_iter. unat (limbs x ! masp_index d) * base ^ masp_index d) = unat x"
proof -
  obtain a b c d where l: "limbs x = [a, b, c, d]"
    by (simp add: limbs_def upt_rec)
  then have "val [a, b, c, d] = unat x" using val_limbs [of x] by simp
  then show ?thesis by (simp add: masp_denom_iter_eq l eval_nat_numeral algebra_simps)
qed

lemma masp_amount_split:
  "(\<Sum>d \<leftarrow> masp_denom_iter. unat (raw_amount (amount_from_masp_denominated (denominate d a) d))) = unat (raw_amount a)"
  using limbs_sum [of "raw_amount a"] by (simp add: unat_from_masp denominate_def)

lemma i256_from_masp_exact:
  fixes v :: int
  defines "z d \<equiv> sgn v * (\<bar>v\<bar> mod 2 ^ 64 * int base ^ masp_index d)"
  shows "i256_from_masp_denominated v d = (if in_range (z d) then Inr (i256_of (z d)) else Inl InvalidRange)"
proof -
  define w :: u256 where "w = from_limbs ((replicate 4 0)[masp_index d := word_of_int \<bar>v\<bar>])"
  have "unat w = unat (word_of_int \<bar>v\<bar> :: u64) * base ^ masp_index d"
    by (simp add: w_def unat_from_limbs val_single masp_index_lt)
  then have "uint w = int (unat (word_of_int \<bar>v\<bar> :: u64)) * int base ^ masp_index d"
    by (metis of_nat_mult of_nat_power of_nat_unat)
  then have "uint w = \<bar>v\<bar> mod 2 ^ 64 * int base ^ masp_index d" by (simp add: uint_word_of_int)
  then have w: "uint w = \<bar>z d\<bar>" by (auto simp: z_def abs_mult abs_sgn_eq)
  have range: "w \<le> MAX_SIGNED_VALUE \<longleftrightarrow> in_range (z d)"
    using w by (auto simp: word_le_def uint_MAX_SIGNED_VALUE in_range_def)
  show ?thesis
  proof (cases "in_range (z d)")
    case True
    have "z d \<noteq> 0 \<Longrightarrow> v < 0 \<longleftrightarrow> z d < 0" unfolding z_def by (auto simp: sgn_if mult_less_0_iff)
    then have "(if v < 0 then i256_neg (I256 w) else I256 w) = i256_of (z d)" by (rule signed_of_abs [OF True w])
    then have "I256 (if v < 0 then uint_negate w else w) = i256_of (z d)" by (auto simp: i256_neg_def split: if_splits)
    then show ?thesis
      using True range canonical_ok [OF i256_of_ok [OF True]]
      by (simp add: i256_from_masp_denominated_def Let_def flip: w_def)
  next
    case False
    then show ?thesis using range by (simp add: i256_from_masp_denominated_def Let_def flip: w_def)
  qed
qed

lemma masp_limb_in_range:
  assumes "i256_ok c"
  shows "in_range (sgn (i256_val c) * (uint (limbs (i256_abs c) ! masp_index d) * int base ^ masp_index d))"
proof -
  have "unat (limbs x ! masp_index d) * base ^ masp_index d \<le> unat x" for x :: u256
    using limbs_sum [of x] by (cases d) (simp_all add: masp_denom_iter_eq)
  then have "int (unat (limbs (i256_abs c) ! masp_index d) * base ^ masp_index d) \<le> int (unat (i256_abs c))"
    by (simp only: of_nat_le_iff)
  then have "uint (limbs (i256_abs c) ! masp_index d) * int base ^ masp_index d \<le> \<bar>i256_val c\<bar>"
    using uint_abs [OF assms] by (simp only: of_nat_mult of_nat_power of_nat_unat)
  moreover have "0 \<le> uint (limbs (i256_abs c) ! masp_index d) * int base ^ masp_index d" by simp
  moreover have "\<bar>i256_val c\<bar> < half" using assms by (simp add: ok_iff in_range_def)
  ultimately show ?thesis by (auto simp: in_range_def sgn_if)
qed

text \<open>The parts of a change are converted one by one; the sum of the results is the change.\<close>

lemma masp_sign:
  fixes l c :: int
  assumes "0 \<le> l" "l < 2 ^ 64" "c = 0 \<Longrightarrow> l = 0"
  shows "sgn (if c < 0 then - l else l) * (\<bar>if c < 0 then - l else l\<bar> mod 2 ^ 64 * b) = sgn c * (l * b)"
  using assms by (auto simp: sgn_if)

lemma masp_change_parts:
  assumes "i256_ok c"
  shows "i256_from_masp_denominated (denominate_i128 d c) d
    = Inr (i256_of (sgn (i256_val c) * (uint (limbs (i256_abs c) ! masp_index d) * int base ^ masp_index d)))"
proof -
  let ?l = "uint (limbs (i256_abs c) ! masp_index d)"
  have l: "0 \<le> ?l" "?l < 2 ^ 64" using uint_lt2p [of "limbs (i256_abs c) ! masp_index d"] by simp_all
  have v: "denominate_i128 d c = (if i256_val c < 0 then - ?l else ?l)"
    using assms by (simp add: denominate_i128_def Let_def is_negative_iff)
  have z0: "?l = 0" if "i256_val c = 0"
  proof -
    have "i256_abs c = 0" using uint_abs [OF assms] that by (simp add: uint_eq_0)
    then show ?thesis by (cases d) (simp_all add: limbs_def)
  qed
  have "sgn (denominate_i128 d c) * (\<bar>denominate_i128 d c\<bar> mod 2 ^ 64 * int base ^ masp_index d)
      = sgn (i256_val c) * (?l * int base ^ masp_index d)"
    unfolding v using masp_sign [OF l z0] .
  then show ?thesis using i256_from_masp_exact [of "denominate_i128 d c" d] masp_limb_in_range [OF assms, of d]
    by (simp only: if_True)
qed

lemma masp_change_sum:
  assumes "i256_ok c"
  shows "(\<Sum>d \<leftarrow> masp_denom_iter. sgn (i256_val c) * (uint (limbs (i256_abs c) ! masp_index d) * int base ^ masp_index d))
    = i256_val c"
proof -
  have "(\<Sum>d \<leftarrow> masp_denom_iter. uint (limbs x ! masp_index d) * int base ^ masp_index d) = uint x" for x :: u256
  proof -
    have "int (\<Sum>d \<leftarrow> masp_denom_iter. unat (limbs x ! masp_index d) * base ^ masp_index d) = int (unat x)"
      by (simp only: limbs_sum)
    then show ?thesis by (simp add: masp_denom_iter_eq)
  qed
  then have "sgn (i256_val c) * (\<Sum>d \<leftarrow> masp_denom_iter. uint (limbs (i256_abs c) ! masp_index d) * int base ^ masp_index d)
      = i256_val c"
    using uint_abs [OF assms] by (simp add: sgn_mult_abs)
  then show ?thesis by (simp only: sum_list_const_mult)
qed

section \<open>The operators\<close>

lemma amount_add_ex:
  assumes "uint (raw_amount a) + uint (raw_amount b) < 2 ^ 256"
  shows "\<exists>c. amount_add a b = Some c \<and> uint (raw_amount c) = uint (raw_amount a) + uint (raw_amount b)"
proof -
  have "int (unat (raw_amount a) + unat (raw_amount b)) < int (2 ^ 256)" using assms by simp
  then have "unat (raw_amount a) + unat (raw_amount b) < 2 ^ LENGTH(256)" unfolding of_nat_less_iff by simp
  from checked_add_ex [OF this] obtain c where "checked_add (raw_amount a) (raw_amount b) = Some c"
      and u: "unat c = unat (raw_amount a) + unat (raw_amount b)"
    by blast
  moreover have "uint c = uint (raw_amount a) + uint (raw_amount b)" using arg_cong [OF u, of int] by simp
  ultimately show ?thesis by (simp add: amount_add_def)
qed

lemma amount_sub_ex:
  assumes "uint (raw_amount b) \<le> uint (raw_amount a)"
  shows "\<exists>c. amount_sub a b = Some c \<and> uint (raw_amount c) = uint (raw_amount a) - uint (raw_amount b)"
  using assms by (simp add: amount_sub_def checked_sub_def word_le_def uint_sub_if')

lemma uint_ucast_u64: "uint (ucast (n :: u64) :: u256) = uint n"
  by (rule uint_up_ucast) (simp add: is_up.rep_eq)

lemma amount_div_ex:
  assumes "n \<noteq> 0"
  shows "\<exists>c. amount_div_u64 a n = Some c \<and> uint (raw_amount c) = uint (raw_amount a) div uint n"
proof -
  have "(ucast n :: u256) \<noteq> 0" using assms uint_ucast_u64 [of n] by (metis uint_0_iff)
  then show ?thesis by (simp add: amount_div_u64_def checked_div_def uint_div uint_ucast_u64)
qed

lemma amount_mul_ex:
  assumes "uint (raw_amount a) * uint n < 2 ^ 256"
  shows "\<exists>c. amount_mul_u64 a n = Some c \<and> uint (raw_amount c) = uint (raw_amount a) * uint n"
proof -
  have "uint (raw_amount a) * uint (ucast n :: u256) < 2 * half" using assms by (simp add: uint_ucast_u64 half_def)
  then show ?thesis using uint_mul_u256 by (simp add: amount_mul_u64_def checked_mul_uint uint_ucast_u64)
qed

text \<open>Texts with more digits than the parser accepts.\<close>

lemma da_from_str_long:
  assumes "list_all is_digit i" "list_all is_digit f" "77 < length i + length f"
  shows "da_from_str (i @ CHR ''.'' # f) = Some (Inl (ScaleTooLarge (of_nat (length i + length f)) 77))"
    and "f = [] \<Longrightarrow> da_from_str i = Some (Inl (ScaleTooLarge (of_nat (length i)) 77))"
proof -
  have "filter is_digit (i @ CHR ''.'' # f) = i @ f"
    using assms(1,2) by (simp add: filter_id_conv list_all_iff)
  then show "da_from_str (i @ CHR ''.'' # f) = Some (Inl (ScaleTooLarge (of_nat (length i + length f)) 77))"
    using assms(3) by (simp add: da_from_str_def Let_def)
  have "CHR ''.'' \<notin> set i" "filter is_digit i = i"
    using digits_no_char [OF assms(1)] assms(1) by (simp_all add: filter_id_conv list_all_iff)
  then show "da_from_str i = Some (Inl (ScaleTooLarge (of_nat (length i)) 77))" if "f = []"
    using assms(3) that by (cases i) (simp_all add: da_from_str_def Let_def)
qed

lemma da_text_too_long:
  fixes d :: denominated_amount
  defines "a \<equiv> unat (raw_amount (da_amount d))" and "k \<equiv> unat (denom_u8 (da_denom d))"
  assumes "text_ok X" and "\<not> (a < 10 ^ 77 \<and> k \<le> 76)"
  shows "da_from_str (to_string_precise X d) = Some (Inl (ScaleTooLarge (of_nat (length (dec_digits (a div 10 ^ k)) + k)) 77))"
proof -
  have long: "77 < length (dec_digits (a div 10 ^ k)) + k"
  proof (cases "k \<le> 76")
    case True
    then have "10 ^ 77 \<le> a" using assms(4) by simp
    then have "10 ^ (77 - k) * 10 ^ k \<le> a" using True by (simp flip: power_add)
    then have "10 ^ (77 - k) \<le> a div 10 ^ k" by (simp add: less_eq_div_iff_mult_less_eq)
    then show ?thesis using length_dec_digits_le [of "77 - k" "a div 10 ^ k"] True by linarith
  next
    case False
    moreover have "0 < length (dec_digits (a div 10 ^ k))" by simp
    ultimately show ?thesis by linarith
  qed
  show ?thesis
  proof (cases "k = 0")
    case True
    then have "to_string_precise X d = dec_digits a"
      by (simp add: to_string_precise_point [OF assms(3)] a_def k_def unat_eq_zero)
    then show ?thesis using da_from_str_long(2) [OF dec_digits_all, of "[]" a] long True by simp
  next
    case False
    obtain f where f: "point_text k (dec_digits a) = dec_digits (a div 10 ^ k) @ CHR ''.'' # f"
        "length f = k" "list_all is_digit f"
      using point_text_parts [of k a] False by blast
    have "to_string_precise X d = point_text k (dec_digits a)"
      using False by (simp add: to_string_precise_point [OF assms(3)] a_def k_def unat_eq_zero)
    then show ?thesis using da_from_str_long(1) [OF dec_digits_all f(3), of "a div 10 ^ k"] long f by simp
  qed
qed

section \<open>Properties\<close>

text \<open>(C29) The precise text of a denominated amount parses back to the same amount and denomination exactly
  when the amount is below \<open>10 ^ 77\<close> and has at most 76 decimal places; otherwise the text has more than
  the 77 digits that the parser accepts, and it is refused with their number. Within those bounds the
  displayed text, without trailing zeros, parses to the canonical form of the amount. Parsing the empty
  text panics.\<close>

theorem amount_text_roundtrip:
  assumes "text_ok X"
  shows "da_from_str (to_string_precise X d) =
      (let a = unat (raw_amount (da_amount d)); k = unat (denom_u8 (da_denom d))
       in Some (if a < 10 ^ 77 \<and> k \<le> 76 then Inr d
                else Inl (ScaleTooLarge (of_nat (length (dec_digits (a div 10 ^ k)) + k)) 77)))
    \<and> (unat (raw_amount (da_amount d)) < 10 ^ 77 \<and> unat (denom_u8 (da_denom d)) \<le> 76 \<longrightarrow>
         da_from_str (da_display X d) = Some (Inr (da_canonical d)))
    \<and> da_from_str [] = None"
proof -
  have k: "unat (denom_u8 (da_denom d)) \<le> 76 \<longleftrightarrow> denom_u8 (da_denom d) \<le> 76" by (simp add: word_le_nat_alt)
  show ?thesis
    using da_roundtrip [OF assms, of d] da_display_parses [OF assms, of d] da_text_too_long [OF assms, of d]
    by (auto simp: Let_def k da_from_str_def [of "[]"])
qed

theorem amount_text_roundtrip_witness:
  "text_ok plain_text \<and> da_from_str (da_display plain_text (da_native (Amount 1500000)))
    = Some (Inr \<lparr>da_amount = Amount 15, da_denom = Denomination 1\<rparr>)"
proof -
  have "da_canonical (da_native (Amount 1500000)) = \<lparr>da_amount = Amount 15, da_denom = Denomination 1\<rparr>"
    by code_simp
  moreover have "unat (raw_amount (da_amount (da_native (Amount 1500000)))) < 10 ^ 77"
    and "unat (denom_u8 (da_denom (da_native (Amount 1500000)))) \<le> 76"
    by (simp_all add: da_native_def NATIVE_MAX_DECIMAL_PLACES_def)
  ultimately show ?thesis
    using amount_text_roundtrip [OF plain_text_ok, of "da_native (Amount 1500000)"] plain_text_ok by simp
qed

text \<open>(C28) Denominated amounts of different denominations are compared, added and subtracted as the
  numbers they denote: both are brought to the larger number of decimal places. A sum or a difference
  is refused exactly when it does not fit, or when the denominations are more than 77 places apart; a
  comparison panics in that case.\<close>

theorem denominated_arithmetic_exact:
  "da_cmp x y = (if close_denoms x y
      then Some (compare_by (aligned x (max_denom x y)) (aligned y (max_denom x y))) else None)
   \<and> da_checked_add x y = (let n = max_denom x y in
        if close_denoms x y \<and> aligned x n + aligned y n < 2 ^ 256 then Some (da_of (aligned x n + aligned y n) n) else None)
   \<and> da_checked_sub x y = (let n = max_denom x y in
        if close_denoms x y \<and> aligned y n \<le> aligned x n \<and> aligned x n < 2 ^ 256
        then Some (da_of (aligned x n - aligned y n) n) else None)"
proof -
  obtain a dx b dy where x: "x = \<lparr>da_amount = Amount a, da_denom = Denomination dx\<rparr>"
      and y: "y = \<lparr>da_amount = Amount b, da_denom = Denomination dy\<rparr>"
    by (metis amount.exhaust denomination.exhaust denominated_amount.cases)
  have "compare_by (unat a * 10 ^ unat dy) (unat b * 10 ^ unat dx)
      = compare_by (aligned x (max_denom x y)) (aligned y (max_denom x y))"
    by (cases "unat dx \<le> unat dy") (simp_all add: x y aligned_def max_denom_def compare_scaled)
  then have "da_cmp x y = (if close_denoms x y
      then Some (compare_by (aligned x (max_denom x y)) (aligned y (max_denom x y))) else None)"
    using da_cmp_exact [of a dx b dy] by (simp add: x y close_denoms_def)
  then show ?thesis using da_checked_add_exact da_checked_sub_exact by blast
qed

text \<open>(C30) An amount is split into four 64-bit parts for the shielded pool, one per MASP denomination. The
  parts of an amount, and the signed parts of a change, are converted back without error and add up to
  the amount or the change.\<close>

theorem masp_split_exact:
  assumes "i256_ok c"
  shows "(\<Sum>d \<leftarrow> masp_denom_iter. unat (raw_amount (amount_from_masp_denominated (denominate d a) d))) = unat (raw_amount a)
    \<and> (\<exists>part. (\<forall>d. i256_from_masp_denominated (denominate_i128 d c) d = Inr (part d) \<and> i256_ok (part d))
         \<and> (\<Sum>d \<leftarrow> masp_denom_iter. i256_val (part d)) = i256_val c)"
proof -
  let ?z = "\<lambda>d. sgn (i256_val c) * (uint (limbs (i256_abs c) ! masp_index d) * int base ^ masp_index d)"
  have "i256_val (i256_of (?z d)) = ?z d" for d using val_i256_of masp_limb_in_range [OF assms] by blast
  then have "(\<Sum>d \<leftarrow> masp_denom_iter. i256_val (i256_of (?z d))) = i256_val c"
    using masp_change_sum [OF assms] by (simp only:)
  then show ?thesis
    using masp_amount_split masp_change_parts [OF assms] i256_of_ok [OF masp_limb_in_range [OF assms]]
    by (intro conjI exI [of _ "\<lambda>d. i256_of (?z d)"]) blast+
qed

theorem masp_split_exact_witness:
  "i256_ok (i256_of (- (2 ^ 70))) \<and> i256_val (i256_of (- (2 ^ 70))) = - (2 ^ 70)
   \<and> (\<exists>part. (\<forall>d. i256_from_masp_denominated (denominate_i128 d (i256_of (- (2 ^ 70)))) d = Inr (part d))
         \<and> (\<Sum>d \<leftarrow> masp_denom_iter. i256_val (part d)) = - (2 ^ 70))"
proof -
  have r: "in_range (- (2 ^ 70))" by (simp add: small_in_range)
  note v = val_i256_of [OF r]
  show ?thesis using masp_split_exact [OF i256_of_ok [OF r], of "Amount 0"] i256_of_ok [OF r] unfolding v by blast
qed

end
