(* ===== verification/Address.thy ===== *)
theory Address
  imports Prelude
begin

text \<open>
  Transparent addresses (\<open>core/src/types/address.rs\<close>) and their raw 21-byte form
  (\<open>core/src/types/address/raw.rs\<close>): a discriminant byte followed by 20 bytes of data, which must
  be the default data for the kinds of address that carry none. A Rust array \<open>[u8; 20]\<close> is a byte
  list; \<open>address_wf\<close> says that the lists inside an address have that length. Bech32m, which turns
  the 21 bytes into a string, is library code and appears elsewhere as a parameter.
\<close>

section \<open>Addresses\<close>

definition HASH_LEN :: nat where "HASH_LEN = 20"
definition ADDR_ENCODING_LEN :: nat where "ADDR_ENCODING_LEN = 1 + HASH_LEN"
definition ADDR_DEFAULT_DATA :: bytes where "ADDR_DEFAULT_DATA = replicate HASH_LEN 0"

datatype internal_address =
    PoS
  | PosSlashPool
  | Parameters
  | Ibc
  | IbcToken bytes
  | Governance
  | EthBridge
  | EthBridgePool
  | Erc20 bytes
  | Nut bytes
  | Multitoken
  | Pgf
  | Masp

datatype address =
    Established bytes
  | Implicit bytes
  | Internal internal_address

fun address_wf :: "address \<Rightarrow> bool" where
  "address_wf (Established h) = (length h = HASH_LEN)"
| "address_wf (Implicit h) = (length h = HASH_LEN)"
| "address_wf (Internal (IbcToken h)) = (length h = HASH_LEN)"
| "address_wf (Internal (Erc20 h)) = (length h = HASH_LEN)"
| "address_wf (Internal (Nut h)) = (length h = HASH_LEN)"
| "address_wf (Internal _) = True"

section \<open>Raw addresses\<close>

datatype discriminant =
    DImplicit | DEstablished | DPos | DSlashPool | DParameters | DGovernance | DIbc | DEthBridge
  | DBridgePool | DMultitoken | DPgf | DErc20 | DNut | DIbcToken | DMasp

fun discriminant_u8 :: "discriminant \<Rightarrow> u8" where
  "discriminant_u8 DImplicit = 0"
| "discriminant_u8 DEstablished = 1"
| "discriminant_u8 DPos = 2"
| "discriminant_u8 DSlashPool = 3"
| "discriminant_u8 DParameters = 4"
| "discriminant_u8 DGovernance = 5"
| "discriminant_u8 DIbc = 6"
| "discriminant_u8 DEthBridge = 7"
| "discriminant_u8 DBridgePool = 8"
| "discriminant_u8 DMultitoken = 9"
| "discriminant_u8 DPgf = 10"
| "discriminant_u8 DErc20 = 11"
| "discriminant_u8 DNut = 12"
| "discriminant_u8 DIbcToken = 13"
| "discriminant_u8 DMasp = 14"

text \<open>The derived \<open>TryFromPrimitive\<close>: the discriminant with the given number, if there is one.\<close>

definition discriminant_try_from :: "u8 \<Rightarrow> discriminant option" where
  "discriminant_try_from b =
     find (\<lambda>d. discriminant_u8 d = b)
       [DImplicit, DEstablished, DPos, DSlashPool, DParameters, DGovernance, DIbc, DEthBridge,
        DBridgePool, DMultitoken, DPgf, DErc20, DNut, DIbcToken, DMasp]"

record raw_address =
  raw_discriminant :: discriminant
  raw_data :: bytes

definition has_default_data :: "raw_address \<Rightarrow> bool" where
  "has_default_data r =
     (\<not> (case raw_discriminant r of
          DImplicit \<Rightarrow> True | DEstablished \<Rightarrow> True | DErc20 \<Rightarrow> True | DNut \<Rightarrow> True
        | DIbcToken \<Rightarrow> True | _ \<Rightarrow> False))"

definition from_discriminant :: "discriminant \<Rightarrow> raw_address" where
  "from_discriminant d = \<lparr>raw_discriminant = d, raw_data = ADDR_DEFAULT_DATA\<rparr>"

definition with_data_array :: "raw_address \<Rightarrow> bytes \<Rightarrow> raw_address" where
  "with_data_array r data = r\<lparr>raw_data := data\<rparr>"

definition try_with_data_slice :: "raw_address \<Rightarrow> bytes \<Rightarrow> raw_address option" where
  "try_with_data_slice r data =
     (if length data = HASH_LEN then Some (with_data_array r data) else None)"

definition try_from_slice :: "bytes \<Rightarrow> raw_address option" where
  "try_from_slice raw_addr =
     (if length raw_addr \<noteq> ADDR_ENCODING_LEN then None
      else do { d \<leftarrow> discriminant_try_from (raw_addr ! 0);
                try_with_data_slice (from_discriminant d) (drop 1 raw_addr) })"

definition raw_validate :: "raw_address \<Rightarrow> raw_address option" where
  "raw_validate r =
     (if has_default_data r \<and> raw_data r \<noteq> ADDR_DEFAULT_DATA then None else Some r)"

definition raw_to_bytes :: "raw_address \<Rightarrow> bytes" where
  "raw_to_bytes r = discriminant_u8 (raw_discriminant r) # raw_data r"

section \<open>Conversions\<close>

text \<open>\<open>impl From<&Address> for raw::Address\<close>; the \<open>expect\<close> on \<open>validate\<close> is the option.\<close>

fun address_to_raw :: "address \<Rightarrow> raw_address option" where
  "address_to_raw (Established h) =
     raw_validate (with_data_array (from_discriminant DEstablished) h)"
| "address_to_raw (Implicit h) =
     raw_validate (with_data_array (from_discriminant DImplicit) h)"
| "address_to_raw (Internal PoS) = raw_validate (from_discriminant DPos)"
| "address_to_raw (Internal PosSlashPool) = raw_validate (from_discriminant DSlashPool)"
| "address_to_raw (Internal Parameters) = raw_validate (from_discriminant DParameters)"
| "address_to_raw (Internal Governance) = raw_validate (from_discriminant DGovernance)"
| "address_to_raw (Internal Ibc) = raw_validate (from_discriminant DIbc)"
| "address_to_raw (Internal (IbcToken h)) =
     raw_validate (with_data_array (from_discriminant DIbcToken) h)"
| "address_to_raw (Internal EthBridge) = raw_validate (from_discriminant DEthBridge)"
| "address_to_raw (Internal EthBridgePool) = raw_validate (from_discriminant DBridgePool)"
| "address_to_raw (Internal (Erc20 h)) =
     raw_validate (with_data_array (from_discriminant DErc20) h)"
| "address_to_raw (Internal (Nut h)) =
     raw_validate (with_data_array (from_discriminant DNut) h)"
| "address_to_raw (Internal Multitoken) = raw_validate (from_discriminant DMultitoken)"
| "address_to_raw (Internal Pgf) = raw_validate (from_discriminant DPgf)"
| "address_to_raw (Internal Masp) = raw_validate (from_discriminant DMasp)"

definition address_of_raw :: "raw_address \<Rightarrow> address" where
  "address_of_raw r =
     (case raw_discriminant r of
        DImplicit \<Rightarrow> Implicit (raw_data r)
      | DEstablished \<Rightarrow> Established (raw_data r)
      | DPos \<Rightarrow> Internal PoS
      | DSlashPool \<Rightarrow> Internal PosSlashPool
      | DParameters \<Rightarrow> Internal Parameters
      | DGovernance \<Rightarrow> Internal Governance
      | DIbc \<Rightarrow> Internal Ibc
      | DEthBridge \<Rightarrow> Internal EthBridge
      | DBridgePool \<Rightarrow> Internal EthBridgePool
      | DMultitoken \<Rightarrow> Internal Multitoken
      | DPgf \<Rightarrow> Internal Pgf
      | DErc20 \<Rightarrow> Internal (Erc20 (raw_data r))
      | DNut \<Rightarrow> Internal (Nut (raw_data r))
      | DIbcToken \<Rightarrow> Internal (IbcToken (raw_data r))
      | DMasp \<Rightarrow> Internal Masp)"

datatype decode_error = InvalidRawAddressLength | InvalidDiscriminantAndDataPair

definition address_to_bytes :: "address \<Rightarrow> bytes option" where
  "address_to_bytes a = map_option raw_to_bytes (address_to_raw a)"

definition address_decode_bytes :: "bytes \<Rightarrow> decode_error + address" where
  "address_decode_bytes bs =
     res_bind (ok_or (try_from_slice bs) InvalidRawAddressLength) (\<lambda>unvalidated.
     res_bind (ok_or (raw_validate unvalidated) InvalidDiscriminantAndDataPair) (\<lambda>validated.
     Inr (address_of_raw validated)))"

section \<open>The encoding is canonical\<close>

lemma discriminant_try_from_u8 [simp]: "discriminant_try_from (discriminant_u8 d) = Some d"
  by (cases d) (simp_all add: discriminant_try_from_def)

lemma discriminant_try_from_Some:
  "discriminant_try_from b = Some d \<Longrightarrow> discriminant_u8 d = b"
  by (auto simp only: discriminant_try_from_def find_Some_iff)

lemma length_ADDR_DEFAULT_DATA [simp]: "length ADDR_DEFAULT_DATA = HASH_LEN"
  by (simp add: ADDR_DEFAULT_DATA_def)

lemmas raw_defs = raw_validate_def has_default_data_def from_discriminant_def with_data_array_def

lemma address_to_raw_total:
  "\<exists>r. address_to_raw a = Some r \<and> raw_validate r = Some r \<and> address_of_raw r = a \<and>
       (address_wf a \<longleftrightarrow> length (raw_data r) = HASH_LEN)"
  by (cases a rule: address_to_raw.cases) (simp_all add: raw_defs address_of_raw_def)

lemma address_of_raw_inverse:
  "raw_validate r = Some r' \<Longrightarrow> address_to_raw (address_of_raw r') = Some r"
  by (cases r; cases "raw_discriminant r")
     (auto simp: raw_defs address_of_raw_def split: if_splits)

lemma address_of_raw_wf:
  "length (raw_data r) = HASH_LEN \<Longrightarrow> address_wf (address_of_raw r)"
  by (simp add: address_of_raw_def split: discriminant.splits)

lemma try_from_slice_to_bytes:
  "length (raw_data r) = HASH_LEN \<Longrightarrow> try_from_slice (raw_to_bytes r) = Some r"
  by (simp add: try_from_slice_def raw_to_bytes_def ADDR_ENCODING_LEN_def try_with_data_slice_def
      raw_defs)

lemma try_from_slice_Some:
  assumes "try_from_slice bs = Some r"
  shows "raw_to_bytes r = bs \<and> length (raw_data r) = HASH_LEN"
proof -
  from assms have len: "length bs = Suc HASH_LEN"
    by (simp add: try_from_slice_def ADDR_ENCODING_LEN_def split: if_splits)
  then obtain b data where bs: "bs = b # data" and "length data = HASH_LEN"
    by (cases bs) auto
  with assms len show ?thesis
    by (auto simp: try_from_slice_def ADDR_ENCODING_LEN_def try_with_data_slice_def raw_defs
        raw_to_bytes_def bind_eq_Some_conv dest: discriminant_try_from_Some)
qed

lemma address_decode_bytes_to_bytes:
  assumes "address_wf a"
  shows "\<exists>bs. address_to_bytes a = Some bs \<and> length bs = ADDR_ENCODING_LEN \<and>
              address_decode_bytes bs = Inr a"
proof -
  obtain r where r: "address_to_raw a = Some r" "raw_validate r = Some r" "address_of_raw r = a"
    and len: "length (raw_data r) = HASH_LEN"
    using address_to_raw_total [of a] assms by blast
  with try_from_slice_to_bytes [OF len] show ?thesis
    by (simp add: address_to_bytes_def address_decode_bytes_def raw_to_bytes_def
        ADDR_ENCODING_LEN_def)
qed

lemma address_decode_bytes_Inr:
  assumes "address_decode_bytes bs = Inr a"
  shows "address_wf a \<and> address_to_bytes a = Some bs"
proof -
  from assms obtain r r' where r: "try_from_slice bs = Some r" and v: "raw_validate r = Some r'"
    and a: "a = address_of_raw r'"
    by (auto simp: address_decode_bytes_def ok_or_def split: option.splits)
  from v have "r' = r" by (simp add: raw_validate_def split: if_splits)
  with r v a show ?thesis
    using try_from_slice_Some [OF r] address_of_raw_inverse [OF v] address_of_raw_wf [of r]
    by (simp add: address_to_bytes_def)
qed

section \<open>Property\<close>

text \<open>(C22) Every address has exactly one encoding. Encoding an address never panics; the result has 21
  bytes exactly for the addresses whose data have the length of the Rust arrays, and for those it is
  the only byte string that decodes to the address. So decoding inverts encoding and accepts nothing
  else.\<close>

theorem address_encoding_canonical:
  "\<exists>enc. address_to_bytes a = Some enc \<and> (address_wf a \<longleftrightarrow> length enc = ADDR_ENCODING_LEN)
     \<and> (\<forall>bs. address_decode_bytes bs = Inr a \<longleftrightarrow> address_wf a \<and> bs = enc)"
proof -
  obtain r where r: "address_to_raw a = Some r" "address_wf a \<longleftrightarrow> length (raw_data r) = HASH_LEN"
    using address_to_raw_total [of a] by blast
  then have enc: "address_to_bytes a = Some (raw_to_bytes r)" by (simp add: address_to_bytes_def)
  show ?thesis
  proof (intro exI conjI allI)
    show "address_to_bytes a = Some (raw_to_bytes r)" by (rule enc)
    show "address_wf a \<longleftrightarrow> length (raw_to_bytes r) = ADDR_ENCODING_LEN"
      using r(2) by (simp add: raw_to_bytes_def ADDR_ENCODING_LEN_def)
    show "address_decode_bytes bs = Inr a \<longleftrightarrow> address_wf a \<and> bs = raw_to_bytes r" for bs
      using address_decode_bytes_Inr [of bs a] address_decode_bytes_to_bytes [of a] enc by auto
  qed
qed

end
