(* ===== verification/Gas.thy ===== *)
theory Gas
  imports Prelude
begin

text \<open>
  The gas meters of \<open>core/src/ledger/gas.rs\<close> and the gas limit of a wrapper transaction
  (\<open>core/src/types/transaction/wrapper.rs\<close>). Gas is counted in sub-units, a \<open>u64\<close>; every
  operation that changes a meter returns the new meter together with its \<open>Result\<close>, because the
  Rust methods take \<open>&mut self\<close> and keep what they wrote before an error.

  The trait \<open>GasMetering\<close> is the locale \<open>gas_metering\<close>: its method \<open>consume\<close> with the contract
  both meters keep. It is interpreted for the transaction meter and for the validity predicate
  meter, and what follows from the contract for the provided methods and for sequences of
  charges is proved once, inside the locale.
\<close>

section \<open>Gas amounts\<close>

record gas =
  gas_sub :: u64

datatype gas_error = TransactionGasExceededError | BlockGasExceeded | GasOverflow

definition COMPILE_GAS_PER_BYTE :: u64 where "COMPILE_GAS_PER_BYTE = 24"
definition PARALLEL_GAS_DIVIDER :: u64 where "PARALLEL_GAS_DIVIDER = 10"
definition WASM_CODE_VALIDATION_GAS_PER_BYTE :: u64 where "WASM_CODE_VALIDATION_GAS_PER_BYTE = 1"
definition WRAPPER_TX_VALIDATION_GAS :: u64 where "WRAPPER_TX_VALIDATION_GAS = 58371"
definition PHYSICAL_STORAGE_LATENCY_PER_BYTE :: u64 where "PHYSICAL_STORAGE_LATENCY_PER_BYTE = 75"
definition STORAGE_OCCUPATION_GAS_PER_BYTE :: u64 where
  "STORAGE_OCCUPATION_GAS_PER_BYTE = 100 + PHYSICAL_STORAGE_LATENCY_PER_BYTE"
definition NETWORK_TRANSMISSION_GAS_PER_BYTE :: u64 where "NETWORK_TRANSMISSION_GAS_PER_BYTE = 13"
definition MEMORY_ACCESS_GAS_PER_BYTE :: u64 where "MEMORY_ACCESS_GAS_PER_BYTE = 2"
definition STORAGE_ACCESS_GAS_PER_BYTE :: u64 where
  "STORAGE_ACCESS_GAS_PER_BYTE = 3 + PHYSICAL_STORAGE_LATENCY_PER_BYTE"
definition STORAGE_WRITE_GAS_PER_BYTE :: u64 where
  "STORAGE_WRITE_GAS_PER_BYTE = MEMORY_ACCESS_GAS_PER_BYTE + 848 + STORAGE_OCCUPATION_GAS_PER_BYTE"
definition SCALE :: u64 where "SCALE = 10000"

lemmas gas_constants = COMPILE_GAS_PER_BYTE_def PARALLEL_GAS_DIVIDER_def
  WASM_CODE_VALIDATION_GAS_PER_BYTE_def WRAPPER_TX_VALIDATION_GAS_def
  PHYSICAL_STORAGE_LATENCY_PER_BYTE_def STORAGE_OCCUPATION_GAS_PER_BYTE_def
  NETWORK_TRANSMISSION_GAS_PER_BYTE_def MEMORY_ACCESS_GAS_PER_BYTE_def
  STORAGE_ACCESS_GAS_PER_BYTE_def STORAGE_WRITE_GAS_PER_BYTE_def SCALE_def

definition gas_of_u64 :: "u64 \<Rightarrow> gas" where
  "gas_of_u64 s = \<lparr>gas_sub = s\<rparr>"

definition u64_of_gas :: "gas \<Rightarrow> u64" where
  "u64_of_gas g = gas_sub g"

definition gas_default :: gas where
  "gas_default = \<lparr>gas_sub = 0\<rparr>"

definition gas_checked_add :: "gas \<Rightarrow> gas \<Rightarrow> gas option" where
  "gas_checked_add g h = map_option (\<lambda>s. \<lparr>gas_sub = s\<rparr>) (checked_add (gas_sub g) (gas_sub h))"

definition gas_checked_sub :: "gas \<Rightarrow> gas \<Rightarrow> gas option" where
  "gas_checked_sub g h = map_option (\<lambda>s. \<lparr>gas_sub = s\<rparr>) (checked_sub (gas_sub g) (gas_sub h))"

text \<open>\<open>quotient + 1\<close> is a checked addition: the model panics where it would overflow.\<close>

definition get_whole_gas_units :: "gas \<Rightarrow> u64 option" where
  "get_whole_gas_units g =
     (let quotient = gas_sub g div SCALE in
      if gas_sub g mod SCALE = 0 then Some quotient else checked_add quotient 1)"

definition from_whole_units :: "u64 \<Rightarrow> gas option" where
  "from_whole_units whole = map_option (\<lambda>s. \<lparr>gas_sub = s\<rparr>) (checked_mul whole SCALE)"

text \<open>\<open>impl Div<u64> for Gas\<close> is only used with the constant \<open>PARALLEL_GAS_DIVIDER\<close>, never with 0.\<close>

definition gas_div :: "gas \<Rightarrow> u64 \<Rightarrow> gas" where
  "gas_div g rhs = \<lparr>gas_sub = gas_sub g div rhs\<rparr>"

abbreviation gas_nat :: "gas \<Rightarrow> nat" where
  "gas_nat g \<equiv> unat (gas_sub g)"

lemma gas_eq_iff: "(g :: gas) = h \<longleftrightarrow> gas_nat g = gas_nat h"
  by (cases g, cases h) (simp add: word_unat_eq_iff)

lemma gas_nat_simps [simp]:
  "gas_nat gas_default = 0" "gas_nat (gas_of_u64 s) = unat s" "gas_sub (gas_of_u64 s) = s"
  "gas_sub gas_default = 0"
  by (simp_all add: gas_default_def gas_of_u64_def)

lemma gas_nat_bound: "gas_nat g < 2 ^ 64"
  using unat_bound [of "gas_sub g"] by simp

lemma gas_checked_add_Some:
  "gas_checked_add g h = Some k \<longleftrightarrow> gas_nat k = gas_nat g + gas_nat h"
proof -
  have "gas_checked_add g h = Some k \<longleftrightarrow> checked_add (gas_sub g) (gas_sub h) = Some (gas_sub k)"
    by (cases k) (auto simp: gas_checked_add_def)
  then show ?thesis by (simp add: checked_simps)
qed

lemma gas_checked_add_None:
  "gas_checked_add g h = None \<longleftrightarrow> 2 ^ 64 \<le> gas_nat g + gas_nat h"
  by (simp add: gas_checked_add_def checked_simps)

lemma gas_checked_sub_Some:
  "gas_checked_sub g h = Some k \<longleftrightarrow> gas_nat g = gas_nat k + gas_nat h"
proof -
  have "gas_checked_sub g h = Some k \<longleftrightarrow> checked_sub (gas_sub g) (gas_sub h) = Some (gas_sub k)"
    by (cases k) (auto simp: gas_checked_sub_def)
  then show ?thesis by (simp add: checked_simps)
qed

lemma gas_checked_sub_None:
  "gas_checked_sub g h = None \<longleftrightarrow> gas_nat g < gas_nat h"
  by (simp add: gas_checked_sub_def checked_simps)

lemma gas_nat_div: "gas_nat (gas_div g n) = gas_nat g div unat n"
  by (simp add: gas_div_def unat_div)

lemma unat_SCALE [simp]: "unat SCALE = 10000"
  by (simp add: SCALE_def)

lemma get_whole_gas_units_eq:
  "\<exists>w. get_whole_gas_units g = Some w \<and> unat w = (gas_nat g + 9999) div 10000"
proof -
  have ceil: "(gas_nat g + 9999) div 10000 =
      gas_nat g div 10000 + (if gas_nat g mod 10000 = 0 then 0 else 1)"
    using ceil_div_nat [of 10000 "gas_nat g"] by simp
  have quot: "unat (gas_sub g div SCALE) = gas_nat g div 10000"
    and rem: "gas_sub g mod SCALE = 0 \<longleftrightarrow> gas_nat g mod 10000 = 0"
    by (simp_all add: unat_div unat_mod word_unat_eq_iff)
  show ?thesis
  proof (cases "gas_sub g mod SCALE = 0")
    case True
    with ceil quot rem show ?thesis by (simp add: get_whole_gas_units_def Let_def)
  next
    case False
    have "gas_nat g div 10000 + 1 < 2 ^ 64"
      using gas_nat_bound [of g] by simp
    then obtain w where w: "checked_add (gas_sub g div SCALE) 1 = Some w"
      using quot by (cases "checked_add (gas_sub g div SCALE) 1") (auto simp: checked_simps)
    then have "unat w = gas_nat g div 10000 + 1"
      using quot by (simp add: checked_simps)
    with False w ceil rem show ?thesis by (simp add: get_whole_gas_units_def Let_def)
  qed
qed

section \<open>The gas limit of a wrapper transaction\<close>

record gas_limit =
  multiplier :: u64

definition GAS_LIMIT_RESOLUTION :: u64 where "GAS_LIMIT_RESOLUTION = 1"

definition gas_limit_of_u64 :: "u64 \<Rightarrow> gas_limit option" where
  "gas_limit_of_u64 amount =
     do { q \<leftarrow> checked_div amount GAS_LIMIT_RESOLUTION;
          p \<leftarrow> checked_mul GAS_LIMIT_RESOLUTION q;
          if p < amount then do { m \<leftarrow> checked_add q 1; Some \<lparr>multiplier = m\<rparr> }
          else Some \<lparr>multiplier = q\<rparr> }"

definition u64_of_gas_limit :: "gas_limit \<Rightarrow> u64 option" where
  "u64_of_gas_limit l = checked_mul (multiplier l) GAS_LIMIT_RESOLUTION"

definition gas_of_limit :: "gas_limit \<Rightarrow> gas option" where
  "gas_of_limit l =
     do { v \<leftarrow> u64_of_gas_limit l; s \<leftarrow> checked_mul v SCALE; Some \<lparr>gas_sub = s\<rparr> }"

lemma u64_of_gas_limit_eq [simp]: "u64_of_gas_limit l = Some (multiplier l)"
  by (simp add: u64_of_gas_limit_def GAS_LIMIT_RESOLUTION_def checked_simps)

lemma gas_of_limit_Some:
  "gas_of_limit l = Some g \<longleftrightarrow> gas_nat g = unat (multiplier l) * 10000"
proof -
  have "gas_of_limit l = Some g \<longleftrightarrow> checked_mul (multiplier l) SCALE = Some (gas_sub g)"
    by (cases g) (auto simp: gas_of_limit_def bind_eq_Some_conv)
  then show ?thesis by (simp add: checked_simps)
qed

section \<open>Meters\<close>

record tx_gas_meter =
  tx_gas_limit :: gas
  transaction_gas :: gas

record vp_gas_meter =
  vp_tx_gas_limit :: gas
  initial_gas :: gas
  current_gas :: gas

definition tx_consume :: "tx_gas_meter \<Rightarrow> u64 \<Rightarrow> tx_gas_meter \<times> (gas_error + unit)" where
  "tx_consume m g =
     (case gas_checked_add (transaction_gas m) (gas_of_u64 g) of
        None \<Rightarrow> (m, Inl GasOverflow)
      | Some t \<Rightarrow>
          (let m' = m\<lparr>transaction_gas := t\<rparr> in
           if gas_sub (tx_gas_limit m') < gas_sub (transaction_gas m')
           then (m', Inl TransactionGasExceededError)
           else (m', Inr ())))"

definition vp_consume :: "vp_gas_meter \<Rightarrow> u64 \<Rightarrow> vp_gas_meter \<times> (gas_error + unit)" where
  "vp_consume m g =
     (case gas_checked_add (current_gas m) (gas_of_u64 g) of
        None \<Rightarrow> (m, Inl GasOverflow)
      | Some c \<Rightarrow>
          (let m' = m\<lparr>current_gas := c\<rparr> in
           case gas_checked_add (initial_gas m') (current_gas m') of
             None \<Rightarrow> (m', Inl GasOverflow)
           | Some current_total \<Rightarrow>
               if gas_sub (vp_tx_gas_limit m') < gas_sub current_total
               then (m', Inl TransactionGasExceededError)
               else (m', Inr ())))"

definition tx_meter_new :: "gas_limit \<Rightarrow> tx_gas_meter option" where
  "tx_meter_new l =
     do { g \<leftarrow> gas_of_limit l; Some \<lparr>tx_gas_limit = g, transaction_gas = gas_default\<rparr> }"

definition tx_meter_new_from_sub_limit :: "gas \<Rightarrow> tx_gas_meter" where
  "tx_meter_new_from_sub_limit g = \<lparr>tx_gas_limit = g, transaction_gas = gas_default\<rparr>"

definition get_available_gas :: "tx_gas_meter \<Rightarrow> gas" where
  "get_available_gas m =
     unwrap_or (gas_checked_sub (tx_gas_limit m) (transaction_gas m)) gas_default"

definition new_from_tx_meter :: "tx_gas_meter \<Rightarrow> vp_gas_meter" where
  "new_from_tx_meter m =
     \<lparr>vp_tx_gas_limit = tx_gas_limit m, initial_gas = transaction_gas m, current_gas = gas_default\<rparr>"

text \<open>The provided methods of the trait, over the meter's own \<open>consume\<close>.\<close>

type_synonym 'm charge = "'m \<Rightarrow> u64 \<Rightarrow> 'm \<times> (gas_error + unit)"

definition add_compiling_gas :: "'m charge \<Rightarrow> 'm \<Rightarrow> u64 \<Rightarrow> 'm \<times> (gas_error + unit)" where
  "add_compiling_gas consume m bytes_len =
     (case checked_mul bytes_len COMPILE_GAS_PER_BYTE of
        None \<Rightarrow> (m, Inl GasOverflow) | Some g \<Rightarrow> consume m g)"

definition add_wasm_load_from_storage_gas ::
  "'m charge \<Rightarrow> 'm \<Rightarrow> u64 \<Rightarrow> 'm \<times> (gas_error + unit)" where
  "add_wasm_load_from_storage_gas consume m bytes_len =
     (case checked_mul bytes_len STORAGE_ACCESS_GAS_PER_BYTE of
        None \<Rightarrow> (m, Inl GasOverflow) | Some g \<Rightarrow> consume m g)"

definition add_wasm_validation_gas :: "'m charge \<Rightarrow> 'm \<Rightarrow> u64 \<Rightarrow> 'm \<times> (gas_error + unit)" where
  "add_wasm_validation_gas consume m bytes_len =
     (case checked_mul bytes_len WASM_CODE_VALIDATION_GAS_PER_BYTE of
        None \<Rightarrow> (m, Inl GasOverflow) | Some g \<Rightarrow> consume m g)"

text \<open>A sequence of charges that stops at the first error, as the \<open>?\<close> of its callers does.\<close>

fun consume_all :: "'m charge \<Rightarrow> 'm \<Rightarrow> u64 list \<Rightarrow> 'm \<times> (gas_error + unit)" where
  "consume_all consume m [] = (m, Inr ())"
| "consume_all consume m (g # gs) =
     (case consume m g of
        (m', Inl e) \<Rightarrow> (m', Inl e)
      | (m', Inr _) \<Rightarrow> consume_all consume m' gs)"

definition add_wrapper_gas :: "tx_gas_meter \<Rightarrow> bytes \<Rightarrow> tx_gas_meter \<times> (gas_error + unit)" where
  "add_wrapper_gas m tx_bytes =
     (case tx_consume m WRAPPER_TX_VALIDATION_GAS of
        (m', Inl e) \<Rightarrow> (m', Inl e)
      | (m', Inr _) \<Rightarrow>
          (let bytes_len = of_nat (length tx_bytes) in
           case checked_mul bytes_len
                  (STORAGE_OCCUPATION_GAS_PER_BYTE + NETWORK_TRANSMISSION_GAS_PER_BYTE) of
             None \<Rightarrow> (m', Inl GasOverflow)
           | Some g \<Rightarrow> tx_consume m' g))"

section \<open>The contract of \<open>GasMetering\<close>\<close>

locale gas_metering =
  fixes consume :: "'m charge"
    and used :: "'m \<Rightarrow> nat"
    and limit :: "'m \<Rightarrow> nat"
  assumes consume_ok_iff: "snd (consume m g) = Inr () \<longleftrightarrow> used m + unat g \<le> limit m"
    and consume_ok_used: "snd (consume m g) = Inr () \<Longrightarrow> used (fst (consume m g)) = used m + unat g"
    and consume_limit: "limit (fst (consume m g)) = limit m"
    and consume_exceeded:
      "snd (consume m g) = Inl TransactionGasExceededError \<Longrightarrow>
         used (fst (consume m g)) = used m + unat g"
begin

lemma consume_all_ok_iff:
  "snd (consume_all consume m gs) = Inr () \<longleftrightarrow>
     gs = [] \<or> used m + sum_list (map unat gs) \<le> limit m"
proof (induction gs arbitrary: m)
  case Nil
  show ?case by simp
next
  case (Cons g gs)
  obtain m' r where c: "consume m g = (m', r)" by (cases "consume m g")
  show ?case
  proof (cases r)
    case (Inl e)
    with c consume_ok_iff [of m g] have "\<not> used m + unat g \<le> limit m" by simp
    with c Inl show ?thesis by simp
  next
    case (Inr u)
    with c have "used m' = used m + unat g" and "limit m' = limit m"
      and le: "used m + unat g \<le> limit m"
      using consume_ok_used [of m g] consume_limit [of m g] consume_ok_iff [of m g] by simp_all
    with c Inr Cons.IH [of m'] show ?thesis by (cases gs) (simp_all add: add.assoc)
  qed
qed

lemma consume_all_used:
  "snd (consume_all consume m gs) = Inr () \<Longrightarrow>
     used (fst (consume_all consume m gs)) = used m + sum_list (map unat gs)"
proof (induction gs arbitrary: m)
  case Nil
  then show ?case by simp
next
  case (Cons g gs)
  obtain m' r where c: "consume m g = (m', r)" by (cases "consume m g")
  with Cons.prems obtain u where "r = Inr u" by (cases r) auto
  with c Cons.prems Cons.IH [of m'] consume_ok_used [of m g] show ?case by simp
qed

lemma add_compiling_gas_ok_iff:
  "snd (add_compiling_gas consume m n) = Inr () \<longleftrightarrow>
     unat n * 24 < 2 ^ 64 \<and> used m + unat n * 24 \<le> limit m"
proof (cases "checked_mul n COMPILE_GAS_PER_BYTE")
  case None
  then have "2 ^ 64 \<le> unat n * 24" by (simp add: checked_simps COMPILE_GAS_PER_BYTE_def)
  with None show ?thesis by (simp add: add_compiling_gas_def)
next
  case (Some g)
  then have g: "unat g = unat n * 24" by (simp add: checked_simps COMPILE_GAS_PER_BYTE_def)
  moreover have "unat g < 2 ^ 64" using unat_bound [of g] by simp
  ultimately show ?thesis using Some by (simp add: add_compiling_gas_def consume_ok_iff)
qed

text \<open>Once the limit is exceeded, the meter stays exhausted.\<close>

lemma exhausted_stays:
  assumes "snd (consume m g) = Inl TransactionGasExceededError"
  shows "snd (consume (fst (consume m g)) h) \<noteq> Inr ()"
proof -
  from assms consume_ok_iff [of m g] have "\<not> used m + unat g \<le> limit m" by auto
  with consume_exceeded [OF assms] consume_limit [of m g] show ?thesis
    by (simp add: consume_ok_iff)
qed

end

lemma tx_consume_cases:
  "tx_consume m g =
     (if 2 ^ 64 \<le> gas_nat (transaction_gas m) + unat g then (m, Inl GasOverflow)
      else (m\<lparr>transaction_gas := gas_of_u64 (gas_sub (transaction_gas m) + g)\<rparr>,
            if gas_nat (tx_gas_limit m) < gas_nat (transaction_gas m) + unat g
            then Inl TransactionGasExceededError else Inr ()))"
  by (auto simp: tx_consume_def gas_checked_add_def checked_add_def gas_of_u64_def Let_def
      word_less_nat_alt unat_word_ariths)

interpretation tx: gas_metering tx_consume
  "\<lambda>m. gas_nat (transaction_gas m)" "\<lambda>m. gas_nat (tx_gas_limit m)"
proof
  fix m :: tx_gas_meter and g :: u64
  have lim: "gas_nat (tx_gas_limit m) < 2 ^ 64" by (rule gas_nat_bound)
  show "snd (tx_consume m g) = Inr () \<longleftrightarrow>
          gas_nat (transaction_gas m) + unat g \<le> gas_nat (tx_gas_limit m)"
    using lim by (auto simp: tx_consume_cases)
  show "gas_nat (tx_gas_limit (fst (tx_consume m g))) = gas_nat (tx_gas_limit m)"
    by (simp add: tx_consume_cases)
  show "snd (tx_consume m g) = Inr () \<Longrightarrow>
          gas_nat (transaction_gas (fst (tx_consume m g))) = gas_nat (transaction_gas m) + unat g"
    and "snd (tx_consume m g) = Inl TransactionGasExceededError \<Longrightarrow>
          gas_nat (transaction_gas (fst (tx_consume m g))) = gas_nat (transaction_gas m) + unat g"
    by (auto simp: tx_consume_cases unat_word_ariths split: if_splits)
qed

lemma vp_consume_cases:
  "vp_consume m g =
     (let c = gas_nat (current_gas m) + unat g; t = gas_nat (initial_gas m) + c in
      if 2 ^ 64 \<le> c then (m, Inl GasOverflow)
      else (m\<lparr>current_gas := gas_of_u64 (gas_sub (current_gas m) + g)\<rparr>,
            if 2 ^ 64 \<le> t then Inl GasOverflow
            else if gas_nat (vp_tx_gas_limit m) < t then Inl TransactionGasExceededError
            else Inr ()))"
  by (auto simp: vp_consume_def gas_checked_add_def checked_add_def gas_of_u64_def Let_def
      word_less_nat_alt unat_word_ariths)

interpretation vp: gas_metering vp_consume
  "\<lambda>m. gas_nat (initial_gas m) + gas_nat (current_gas m)" "\<lambda>m. gas_nat (vp_tx_gas_limit m)"
proof
  fix m :: vp_gas_meter and g :: u64
  have lim: "gas_nat (vp_tx_gas_limit m) < 2 ^ 64" by (rule gas_nat_bound)
  show "snd (vp_consume m g) = Inr () \<longleftrightarrow>
          gas_nat (initial_gas m) + gas_nat (current_gas m) + unat g \<le> gas_nat (vp_tx_gas_limit m)"
    using lim by (auto simp: vp_consume_cases Let_def)
  show "gas_nat (vp_tx_gas_limit (fst (vp_consume m g))) = gas_nat (vp_tx_gas_limit m)"
    by (simp add: vp_consume_cases Let_def)
  show "snd (vp_consume m g) = Inr () \<Longrightarrow>
          gas_nat (initial_gas (fst (vp_consume m g))) + gas_nat (current_gas (fst (vp_consume m g)))
          = gas_nat (initial_gas m) + gas_nat (current_gas m) + unat g"
    and "snd (vp_consume m g) = Inl TransactionGasExceededError \<Longrightarrow>
          gas_nat (initial_gas (fst (vp_consume m g))) + gas_nat (current_gas (fst (vp_consume m g)))
          = gas_nat (initial_gas m) + gas_nat (current_gas m) + unat g"
    by (auto simp: vp_consume_cases Let_def unat_word_ariths split: if_splits)
qed

section \<open>Gas of validity predicates run in parallel\<close>

text \<open>
  \<open>VpsGas\<close> keeps the largest gas use of a validity predicate apart from the others, which are
  charged at a tenth: they ran beside the largest one. A run is \<open>set\<close> into it, and the results of
  two parallel branches are \<open>merge\<close>d. \<open>check_limit\<close> is generic over the meter; it takes the two
  values it reads from it.
\<close>

record vps_gas =
  vg_max :: gas
  vg_rest :: "gas list"

definition vps_gas_default :: vps_gas where
  "vps_gas_default = \<lparr>vg_max = gas_default, vg_rest = []\<rparr>"

fun gas_try_sum :: "gas \<Rightarrow> gas list \<Rightarrow> gas_error + gas" where
  "gas_try_sum acc [] = Inr acc"
| "gas_try_sum acc (g # gs) =
     (case gas_checked_add acc g of None \<Rightarrow> Inl GasOverflow | Some a \<Rightarrow> gas_try_sum a gs)"

definition get_current_gas :: "vps_gas \<Rightarrow> gas_error + gas" where
  "get_current_gas v =
     res_bind (gas_try_sum gas_default (vg_rest v)) (\<lambda>s.
     ok_or (gas_checked_add (vg_max v) (gas_div s PARALLEL_GAS_DIVIDER)) GasOverflow)"

definition check_limit :: "vps_gas \<Rightarrow> gas \<Rightarrow> gas \<Rightarrow> gas_error + unit" where
  "check_limit v tx_consumed_gas gas_limit' =
     res_bind (get_current_gas v) (\<lambda>current.
     res_bind (ok_or (gas_checked_add tx_consumed_gas current) GasOverflow) (\<lambda>total.
     if gas_sub gas_limit' < gas_sub total then Inl TransactionGasExceededError else Inr ()))"

definition vps_gas_set :: "vps_gas \<Rightarrow> vp_gas_meter \<Rightarrow> vps_gas \<times> (gas_error + unit)" where
  "vps_gas_set v m =
     (let v' = (if gas_sub (vg_max v) < gas_sub (current_gas m)
                then v\<lparr>vg_rest := vg_rest v @ [vg_max v], vg_max := current_gas m\<rparr>
                else v\<lparr>vg_rest := vg_rest v @ [current_gas m]\<rparr>)
      in (v', check_limit v' (initial_gas m) (vp_tx_gas_limit m)))"

definition vps_gas_merge :: "vps_gas \<Rightarrow> vps_gas \<Rightarrow> tx_gas_meter \<Rightarrow> vps_gas \<times> (gas_error + unit)" where
  "vps_gas_merge v other m =
     (let v1 = (if gas_sub (vg_max v) < gas_sub (vg_max other)
                then v\<lparr>vg_rest := vg_rest v @ [vg_max v], vg_max := vg_max other\<rparr>
                else v\<lparr>vg_rest := vg_rest v @ [vg_max other]\<rparr>);
          v2 = v1\<lparr>vg_rest := vg_rest v1 @ vg_rest other\<rparr>
      in (v2, check_limit v2 (transaction_gas m) (tx_gas_limit m)))"

definition add_vps_gas :: "tx_gas_meter \<Rightarrow> vps_gas \<Rightarrow> tx_gas_meter \<times> (gas_error + unit)" where
  "add_vps_gas m v =
     (case get_current_gas v of
        Inl e \<Rightarrow> (m, Inl e)
      | Inr g \<Rightarrow> tx_consume m (u64_of_gas g))"

text \<open>
  The specification: a list of gas uses, one per validity predicate that ran. \<open>vps_repr v xs\<close> says
  that \<open>v\<close> stands for the runs \<open>xs\<close>, \<open>vps_fits\<close> that they fit beside what the transaction used.
\<close>

definition max_gas :: "nat list \<Rightarrow> nat" where
  "max_gas xs = foldr max xs 0"

definition rest_gas :: "nat list \<Rightarrow> nat" where
  "rest_gas xs = sum_list xs - max_gas xs"

definition vps_load :: "nat list \<Rightarrow> nat" where
  "vps_load xs = max_gas xs + rest_gas xs div 10"

definition vps_fits :: "nat \<Rightarrow> nat \<Rightarrow> nat list \<Rightarrow> bool" where
  "vps_fits consumed lim xs \<longleftrightarrow> rest_gas xs < 2 ^ 64 \<and> consumed + vps_load xs \<le> lim"

definition vps_repr :: "vps_gas \<Rightarrow> nat list \<Rightarrow> bool" where
  "vps_repr v xs \<longleftrightarrow>
     gas_nat (vg_max v) = max_gas xs \<and> sum_list (map gas_nat (vg_rest v)) = rest_gas xs"

lemma max_gas_simps [simp]: "max_gas [] = 0" "max_gas (x # xs) = max x (max_gas xs)"
  by (simp_all add: max_gas_def)

lemma max_gas_append [simp]: "max_gas (xs @ ys) = max (max_gas xs) (max_gas ys)"
  by (induction xs) simp_all

lemma max_gas_le_sum: "max_gas xs \<le> sum_list xs"
  by (induction xs) auto

lemma rest_gas_append:
  "rest_gas (xs @ ys) = rest_gas xs + rest_gas ys + min (max_gas xs) (max_gas ys)"
  using max_gas_le_sum [of xs] max_gas_le_sum [of ys] by (simp add: rest_gas_def)

lemma rest_gas_simps [simp]: "rest_gas [] = 0" "rest_gas [x] = 0"
  by (simp_all add: rest_gas_def)

lemma vps_load_append_ge: "vps_load xs \<le> vps_load (xs @ ys)" "vps_load ys \<le> vps_load (xs @ ys)"
proof -
  have le: "rest_gas xs \<le> rest_gas (xs @ ys)" "rest_gas ys \<le> rest_gas (xs @ ys)"
    by (simp_all add: rest_gas_append)
  then show "vps_load xs \<le> vps_load (xs @ ys)" "vps_load ys \<le> vps_load (xs @ ys)"
    by (auto simp: vps_load_def intro!: add_mono div_le_mono)
qed

lemma vps_fits_append: "vps_fits c l (xs @ ys) \<Longrightarrow> vps_fits c l xs \<and> vps_fits c l ys"
  using vps_load_append_ge(1) [of xs ys] vps_load_append_ge(2) [of ys xs]
  by (auto simp: vps_fits_def rest_gas_append)

lemma vps_repr_default: "vps_repr vps_gas_default []"
  by (simp add: vps_repr_def vps_gas_default_def)

lemma gas_try_sum_Inr:
  "gas_try_sum acc gs = Inr s \<longleftrightarrow> gas_nat s = gas_nat acc + sum_list (map gas_nat gs)"
proof (induction gs arbitrary: acc)
  case Nil
  show ?case by (auto simp: gas_eq_iff)
next
  case (Cons g gs)
  show ?case
  proof (cases "gas_checked_add acc g")
    case None
    then have "2 ^ 64 \<le> gas_nat acc + gas_nat g" by (simp add: gas_checked_add_None)
    with None gas_nat_bound [of s] show ?thesis by simp
  next
    case (Some a)
    then have "gas_nat a = gas_nat acc + gas_nat g" by (simp add: gas_checked_add_Some)
    with Some Cons.IH [of a] show ?thesis by (simp add: add.assoc)
  qed
qed

lemma gas_of_nat_ex: "n < 2 ^ 64 \<Longrightarrow> \<exists>g. gas_nat g = n"
  by (rule exI [of _ "gas_of_u64 (of_nat n)"]) (simp add: unat_of_nat)

lemma get_current_gas_repr:
  assumes "vps_repr v xs"
  shows "get_current_gas v = Inr g \<longleftrightarrow> rest_gas xs < 2 ^ 64 \<and> gas_nat g = vps_load xs"
proof (cases "rest_gas xs < 2 ^ 64")
  case True
  then obtain s where s: "gas_nat s = rest_gas xs" using gas_of_nat_ex by blast
  with assms have "gas_try_sum gas_default (vg_rest v) = Inr s"
    by (simp add: gas_try_sum_Inr vps_repr_def)
  moreover have "ok_or (gas_checked_add (vg_max v) (gas_div s PARALLEL_GAS_DIVIDER)) GasOverflow = Inr g
      \<longleftrightarrow> gas_checked_add (vg_max v) (gas_div s PARALLEL_GAS_DIVIDER) = Some g"
    by (simp add: ok_or_def split: option.splits)
  ultimately show ?thesis
    using True s assms
    by (simp add: get_current_gas_def gas_checked_add_Some gas_nat_div PARALLEL_GAS_DIVIDER_def
        vps_repr_def vps_load_def)
next
  case False
  have "gas_try_sum gas_default (vg_rest v) \<noteq> Inr s" for s
    using assms False gas_nat_bound [of s] by (simp add: gas_try_sum_Inr vps_repr_def)
  with False show ?thesis by (auto simp: get_current_gas_def res_bind_Inr_iff)
qed

lemma check_limit_repr:
  assumes "vps_repr v xs"
  shows "check_limit v c l = Inr () \<longleftrightarrow> vps_fits (gas_nat c) (gas_nat l) xs"
proof (cases "vps_fits (gas_nat c) (gas_nat l) xs")
  case True
  then have fits: "rest_gas xs < 2 ^ 64" "gas_nat c + vps_load xs \<le> gas_nat l"
    by (simp_all add: vps_fits_def)
  with gas_nat_bound [of l] obtain g t where g: "gas_nat g = vps_load xs"
    and t: "gas_nat t = gas_nat c + vps_load xs"
    by (metis add_leE gas_of_nat_ex le_less_trans)
  from fits g have "get_current_gas v = Inr g"
    using get_current_gas_repr [OF assms] by simp
  moreover from g t have "gas_checked_add c g = Some t" by (simp add: gas_checked_add_Some)
  ultimately show ?thesis using True fits t by (simp add: check_limit_def word_less_nat_alt)
next
  case False
  have "check_limit v c l \<noteq> Inr ()"
  proof
    assume "check_limit v c l = Inr ()"
    then obtain g t where g: "get_current_gas v = Inr g" and t: "gas_checked_add c g = Some t"
      and le: "gas_nat t \<le> gas_nat l"
      by (auto simp: check_limit_def res_bind_Inr_iff ok_or_def word_less_nat_alt
          split: option.splits if_splits)
    then have "vps_fits (gas_nat c) (gas_nat l) xs"
      using get_current_gas_repr [OF assms, of g] by (simp add: vps_fits_def gas_checked_add_Some)
    with False show False ..
  qed
  with False show ?thesis by simp
qed

lemma vps_gas_set_repr:
  assumes "vps_repr v xs"
  shows "vps_repr (fst (vps_gas_set v m)) (xs @ [gas_nat (current_gas m)])"
    and "snd (vps_gas_set v m) = Inr () \<longleftrightarrow>
           vps_fits (gas_nat (initial_gas m)) (gas_nat (vp_tx_gas_limit m))
             (xs @ [gas_nat (current_gas m)])"
proof -
  show *: "vps_repr (fst (vps_gas_set v m)) (xs @ [gas_nat (current_gas m)])"
    using assms by (auto simp: vps_gas_set_def vps_repr_def rest_gas_append Let_def word_less_nat_alt)
  show "snd (vps_gas_set v m) = Inr () \<longleftrightarrow>
           vps_fits (gas_nat (initial_gas m)) (gas_nat (vp_tx_gas_limit m))
             (xs @ [gas_nat (current_gas m)])"
    using check_limit_repr [OF *] by (simp add: vps_gas_set_def Let_def)
qed

lemma vps_gas_merge_repr:
  assumes "vps_repr v xs" and "vps_repr w ys"
  shows "vps_repr (fst (vps_gas_merge v w m)) (xs @ ys)"
    and "snd (vps_gas_merge v w m) = Inr () \<longleftrightarrow>
           vps_fits (gas_nat (transaction_gas m)) (gas_nat (tx_gas_limit m)) (xs @ ys)"
proof -
  show *: "vps_repr (fst (vps_gas_merge v w m)) (xs @ ys)"
    using assms by (auto simp: vps_gas_merge_def vps_repr_def rest_gas_append Let_def word_less_nat_alt)
  show "snd (vps_gas_merge v w m) = Inr () \<longleftrightarrow>
           vps_fits (gas_nat (transaction_gas m)) (gas_nat (tx_gas_limit m)) (xs @ ys)"
    using check_limit_repr [OF *] by (simp add: vps_gas_merge_def Let_def)
qed

section \<open>Properties\<close>

text \<open>(C12) Charging is exact for both kinds of meter. A sequence of charges succeeds exactly when
  everything it charges, together with what has been used before, is within the gas limit (sums
  that do not fit 64 bits included), and then the meter has recorded the sum.\<close>

theorem gas_charges_exact:
  fixes m :: tx_gas_meter and v :: vp_gas_meter and gs :: "u64 list"
  defines "tx_total \<equiv> gas_nat (transaction_gas m) + sum_list (map unat gs)"
    and "vp_total \<equiv> gas_nat (initial_gas v) + gas_nat (current_gas v) + sum_list (map unat gs)"
  shows "(snd (consume_all tx_consume m gs) = Inr () \<longleftrightarrow> gs = [] \<or> tx_total \<le> gas_nat (tx_gas_limit m)) \<and>
    (snd (consume_all tx_consume m gs) = Inr () \<longrightarrow>
       gas_nat (transaction_gas (fst (consume_all tx_consume m gs))) = tx_total) \<and>
    (snd (consume_all vp_consume v gs) = Inr () \<longleftrightarrow> gs = [] \<or> vp_total \<le> gas_nat (vp_tx_gas_limit v)) \<and>
    (snd (consume_all vp_consume v gs) = Inr () \<longrightarrow>
       gas_nat (initial_gas (fst (consume_all vp_consume v gs)))
         + gas_nat (current_gas (fst (consume_all vp_consume v gs))) = vp_total)"
  unfolding tx_total_def vp_total_def
  using tx.consume_all_ok_iff [of m gs] tx.consume_all_used [of m gs]
    vp.consume_all_ok_iff [of v gs] vp.consume_all_used [of v gs] by blast

theorem gas_charges_exact_witness:
  "snd (consume_all tx_consume \<lparr>tx_gas_limit = \<lparr>gas_sub = 10\<rparr>, transaction_gas = \<lparr>gas_sub = 1\<rparr>\<rparr> [4, 5]) = Inr () \<and>
   gas_nat (transaction_gas (fst (consume_all tx_consume
     \<lparr>tx_gas_limit = \<lparr>gas_sub = 10\<rparr>, transaction_gas = \<lparr>gas_sub = 1\<rparr>\<rparr> [4, 5]))) = 10 \<and>
   snd (consume_all vp_consume \<lparr>vp_tx_gas_limit = \<lparr>gas_sub = 10\<rparr>, initial_gas = \<lparr>gas_sub = 2\<rparr>,
     current_gas = \<lparr>gas_sub = 0\<rparr>\<rparr> [4, 5]) \<noteq> Inr ()"
  using gas_charges_exact [where m = "\<lparr>tx_gas_limit = \<lparr>gas_sub = 10\<rparr>, transaction_gas = \<lparr>gas_sub = 1\<rparr>\<rparr>"
      and v = "\<lparr>vp_tx_gas_limit = \<lparr>gas_sub = 10\<rparr>, initial_gas = \<lparr>gas_sub = 2\<rparr>, current_gas = \<lparr>gas_sub = 0\<rparr>\<rparr>" and gs = "[4, 5]"]
  by (simp del: consume_all.simps)

text \<open>(C32) Whole gas units are the sub-units divided by the scale, rounded up: the conversion never
  overflows, never gives less than what was used, and is less than one unit above it; a number of
  whole units that fits is converted to sub-units and back without a change.\<close>

theorem whole_gas_units_ceiling:
  "\<exists>w. get_whole_gas_units g = Some w \<and>
       gas_nat g \<le> unat w * 10000 \<and> unat w * 10000 < gas_nat g + 10000 \<and>
       (\<forall>n. from_whole_units n = Some g \<longrightarrow> w = n)"
proof -
  obtain w where w: "get_whole_gas_units g = Some w" "unat w = (gas_nat g + 9999) div 10000"
    using get_whole_gas_units_eq by blast
  have "w = n" if "from_whole_units n = Some g" for n
  proof -
    from that have "gas_nat g = unat n * 10000"
      by (auto simp: from_whole_units_def checked_simps bind_eq_Some_conv)
    then show ?thesis using w(2) by (simp add: word_unat_eq_iff)
  qed
  with w show ?thesis by auto
qed

theorem whole_gas_units_ceiling_witness:
  "\<exists>w. get_whole_gas_units \<lparr>gas_sub = 30000\<rparr> = Some w \<and> w = 3"
  using whole_gas_units_ceiling [of "\<lparr>gas_sub = 30000\<rparr>"]
  by (auto simp: from_whole_units_def checked_mul_def SCALE_def)

text \<open>(C33) Creating the gas meter of a wrapper transaction panics exactly for gas limits above
  1844674407370955: the limit is converted to sub-units by an unchecked multiplication by 10000.\<close>

theorem tx_meter_new_panics:
  "tx_meter_new l = None \<longleftrightarrow> 1844674407370955 < unat (multiplier l)"
proof -
  have "gas_of_limit l = None \<longleftrightarrow> 2 ^ 64 \<le> unat (multiplier l) * 10000"
    using gas_of_nat_ex [of "unat (multiplier l) * 10000"] gas_of_limit_Some [of l]
    by (metis gas_nat_bound leD linorder_not_less not_None_eq)
  then show ?thesis by (auto simp: tx_meter_new_def)
qed

end
