(* ===== verification/Vp_Execution.thy ===== *)
theory Vp_Execution
  imports Gas Address
begin

text \<open>
  Execution of the validity predicates that a transaction triggers: \<open>execute_vps\<close> and
  \<open>merge_vp_results\<close> of \<open>shared/src/ledger/protocol/mod.rs\<close>.

  The verifiers run in parallel (\<open>par_iter().try_fold(..).try_reduce(..)\<close>): the ordered set of
  verifiers is cut into segments, each segment is folded from a default result, and the results
  of neighbouring segments are merged. How the set is cut is up to the thread pool, so the model
  takes the cut as an argument, a \<open>schedule\<close>: any binary tree over segments, empty ones included
  (the identity element that \<open>try_reduce\<close> may insert). Every field of the result and the
  gas that is charged must not depend on it.

  The WASM runtime, the native validity predicates and the lookup of the code of an account's
  validity predicate are fields of \<open>vp_env\<close>. The rendering of errors as text is left out: the
  result keeps the error itself.
\<close>

datatype vm_error = VmGasError string | VmInvalidTxSignature | VmOther string

datatype proto_error =
    GasError string
  | InvalidTxSignature
  | MissingAddress address
  | StorageError string
  | AccessForbidden internal_address
  | VpRunnerError string
  | NativeVpError string

fun gas_error_string :: "gas_error \<Rightarrow> string" where
  "gas_error_string TransactionGasExceededError = ''Transaction gas limit exceeded''"
| "gas_error_string BlockGasExceeded = ''Block gas limit exceeded''"
| "gas_error_string GasOverflow = ''Overflow during gas operations''"

record vp_env =
  env_validity_predicate :: "address \<Rightarrow> string + (bytes option \<times> u64)"
  env_wasm_vp :: "bytes \<Rightarrow> address \<Rightarrow> vp_gas_meter \<Rightarrow> vp_gas_meter \<times> (vm_error + bool)"
  env_native_vp :: "internal_address \<Rightarrow> vp_gas_meter \<Rightarrow> vp_gas_meter \<times> (string + bool) \<times> bool"

record vps_result =
  accepted_vps :: "address set"
  rejected_vps :: "address set"
  gas_used :: vps_gas
  vp_errors :: "(address \<times> proto_error) list"
  invalid_sig :: bool

definition vps_result_default :: vps_result where
  "vps_result_default =
     \<lparr>accepted_vps = {}, rejected_vps = {}, gas_used = vps_gas_default, vp_errors = [],
      invalid_sig = False\<rparr>"

section \<open>One validity predicate\<close>

definition wasm_vp_result :: "vm_error + bool \<Rightarrow> proto_error + bool" where
  "wasm_vp_result r =
     (case r of
        Inl (VmGasError msg) \<Rightarrow> Inl (GasError msg)
      | Inl VmInvalidTxSignature \<Rightarrow> Inl InvalidTxSignature
      | Inl (VmOther msg) \<Rightarrow> Inl (VpRunnerError msg)
      | Inr b \<Rightarrow> Inr b)"

text \<open>
  The match on the kind of address. The outer error is an early return from the closure, the
  inner one is the value of \<open>accept\<close>. The native predicates also return whether their sentinel
  recorded that they ran out of gas.
\<close>

definition run_native_vp ::
  "vp_env \<Rightarrow> address set \<Rightarrow> internal_address \<Rightarrow> vp_gas_meter \<Rightarrow> vp_gas_meter \<times> (proto_error + bool)"
where
  "run_native_vp env verifiers i m =
     (case i of
        PosSlashPool \<Rightarrow> (m, Inl (AccessForbidden i))
      | IbcToken _ \<Rightarrow> (m, Inr (Internal Multitoken \<in> verifiers))
      | Erc20 _ \<Rightarrow> (m, Inr (Internal Multitoken \<in> verifiers))
      | _ \<Rightarrow>
          (case env_native_vp env i m of
             (m', Inl err, out_of_gas) \<Rightarrow>
               (m', Inl (if out_of_gas then GasError err else NativeVpError err))
           | (m', Inr b, _) \<Rightarrow> (m', Inr b)))"

fun run_vp ::
  "vp_env \<Rightarrow> address set \<Rightarrow> address \<Rightarrow> vp_gas_meter \<Rightarrow>
     proto_error + (vp_gas_meter \<times> (proto_error + bool))" where
  "run_vp env verifiers (Internal i) m = Inr (run_native_vp env verifiers i m)"
| "run_vp env verifiers addr m =
     (case env_validity_predicate env addr of
        Inl err \<Rightarrow> Inl (StorageError err)
      | Inr (vp_hash, gas') \<Rightarrow>
          (case vp_consume m gas' of
             (m', Inl err) \<Rightarrow> Inl (GasError (gas_error_string err))
           | (m', Inr _) \<Rightarrow>
               (case vp_hash of
                  None \<Rightarrow> Inl (MissingAddress addr)
                | Some vp_code_hash \<Rightarrow>
                    (case env_wasm_vp env vp_code_hash addr m' of
                       (m'', r) \<Rightarrow> Inr (m'', wasm_vp_result r)))))"

text \<open>What the verdict adds to the result; only a gas error stops the fold here.\<close>

definition record_verdict ::
  "vps_result \<Rightarrow> address \<Rightarrow> proto_error + bool \<Rightarrow> proto_error + vps_result" where
  "record_verdict result addr accept =
     (case accept of
        Inr accepted \<Rightarrow>
          Inr (if accepted then result\<lparr>accepted_vps := insert addr (accepted_vps result)\<rparr>
               else result\<lparr>rejected_vps := insert addr (rejected_vps result)\<rparr>)
      | Inl (GasError msg) \<Rightarrow> Inl (GasError msg)
      | Inl InvalidTxSignature \<Rightarrow>
          Inr (result\<lparr>invalid_sig := True, rejected_vps := insert addr (rejected_vps result)\<rparr>)
      | Inl err \<Rightarrow>
          Inr (result\<lparr>rejected_vps := insert addr (rejected_vps result),
                      vp_errors := vp_errors result @ [(addr, err)]\<rparr>))"

definition vp_fold_step ::
  "vp_env \<Rightarrow> address set \<Rightarrow> tx_gas_meter \<Rightarrow> vps_result \<Rightarrow> address \<Rightarrow> proto_error + vps_result" where
  "vp_fold_step env verifiers tx_meter result addr =
     res_bind (run_vp env verifiers addr (new_from_tx_meter tx_meter)) (\<lambda>(gas_meter, accept).
     res_bind (record_verdict result addr accept) (\<lambda>result'.
     (case vps_gas_set (gas_used result') gas_meter of
        (g, Inl err) \<Rightarrow> Inl (GasError (gas_error_string err))
      | (g, Inr _) \<Rightarrow> Inr (result'\<lparr>gas_used := g\<rparr>))))"

fun vp_fold ::
  "vp_env \<Rightarrow> address set \<Rightarrow> tx_gas_meter \<Rightarrow> vps_result \<Rightarrow> address list \<Rightarrow> proto_error + vps_result"
where
  "vp_fold env verifiers tx_meter result [] = Inr result"
| "vp_fold env verifiers tx_meter result (addr # addrs) =
     res_bind (vp_fold_step env verifiers tx_meter result addr) (\<lambda>result'.
     vp_fold env verifiers tx_meter result' addrs)"

section \<open>Merging and the whole execution\<close>

definition merge_vp_results ::
  "vps_result \<Rightarrow> vps_result \<Rightarrow> tx_gas_meter \<Rightarrow> proto_error + vps_result" where
  "merge_vp_results a b tx_meter =
     (case vps_gas_merge (gas_used a) (gas_used b) tx_meter of
        (g, Inl err) \<Rightarrow> Inl (GasError (gas_error_string err))
      | (g, Inr _) \<Rightarrow>
          Inr \<lparr>accepted_vps = accepted_vps a \<union> accepted_vps b,
               rejected_vps = rejected_vps a \<union> rejected_vps b,
               gas_used = g,
               vp_errors = vp_errors a @ vp_errors b,
               invalid_sig = (invalid_sig a \<or> invalid_sig b)\<rparr>)"

datatype schedule = Segment "address list" | Split schedule schedule

primrec verifiers_of :: "schedule \<Rightarrow> address list" where
  "verifiers_of (Segment addrs) = addrs"
| "verifiers_of (Split l r) = verifiers_of l @ verifiers_of r"

primrec run_schedule ::
  "vp_env \<Rightarrow> address set \<Rightarrow> tx_gas_meter \<Rightarrow> schedule \<Rightarrow> proto_error + vps_result" where
  "run_schedule env verifiers tx_meter (Segment addrs) =
     vp_fold env verifiers tx_meter vps_result_default addrs"
| "run_schedule env verifiers tx_meter (Split l r) =
     res_bind (run_schedule env verifiers tx_meter l) (\<lambda>a.
     res_bind (run_schedule env verifiers tx_meter r) (\<lambda>b.
     merge_vp_results a b tx_meter))"

definition execute_vps :: "vp_env \<Rightarrow> tx_gas_meter \<Rightarrow> schedule \<Rightarrow> proto_error + vps_result" where
  "execute_vps env tx_meter sched =
     run_schedule env (set (verifiers_of sched)) tx_meter sched"

section \<open>The result is a function of the verifiers\<close>

text \<open>
  A validity predicate charges the meter it is given, it does not replace its limit or what the
  transaction used before it: both fields are private to \<open>gas.rs\<close> and no method writes them.
\<close>

definition keeps_meter :: "vp_env \<Rightarrow> bool" where
  "keeps_meter env \<longleftrightarrow>
     (\<forall>h a m. vp_tx_gas_limit (fst (env_wasm_vp env h a m)) = vp_tx_gas_limit m \<and>
              initial_gas (fst (env_wasm_vp env h a m)) = initial_gas m) \<and>
     (\<forall>i m. vp_tx_gas_limit (fst (env_native_vp env i m)) = vp_tx_gas_limit m \<and>
            initial_gas (fst (env_native_vp env i m)) = initial_gas m)"

text \<open>The verdict of one verifier, which does not depend on the others that ran before it.\<close>

definition verdict ::
  "vp_env \<Rightarrow> address set \<Rightarrow> tx_gas_meter \<Rightarrow> address \<Rightarrow> proto_error + (vp_gas_meter \<times> (proto_error + bool))"
where
  "verdict env verifiers tx_meter addr = run_vp env verifiers addr (new_from_tx_meter tx_meter)"

fun completes :: "proto_error + (vp_gas_meter \<times> (proto_error + bool)) \<Rightarrow> bool" where
  "completes (Inl _) = False"
| "completes (Inr (_, Inl (GasError _))) = False"
| "completes (Inr _) = True"

fun gas_of_verdict :: "proto_error + (vp_gas_meter \<times> (proto_error + bool)) \<Rightarrow> nat" where
  "gas_of_verdict (Inl _) = 0"
| "gas_of_verdict (Inr (m, _)) = gas_nat (current_gas m)"

fun accepts :: "proto_error + (vp_gas_meter \<times> (proto_error + bool)) \<Rightarrow> bool" where
  "accepts (Inr (_, Inr True)) = True"
| "accepts _ = False"

fun flags_signature :: "proto_error + (vp_gas_meter \<times> (proto_error + bool)) \<Rightarrow> bool" where
  "flags_signature (Inr (_, Inl InvalidTxSignature)) = True"
| "flags_signature _ = False"

fun error_of :: "address \<Rightarrow> proto_error + (vp_gas_meter \<times> (proto_error + bool)) \<Rightarrow> (address \<times> proto_error) list"
where
  "error_of a (Inr (_, Inl InvalidTxSignature)) = []"
| "error_of a (Inr (_, Inl err)) = [(a, err)]"
| "error_of a _ = []"

definition summarises ::
  "(address \<Rightarrow> proto_error + (vp_gas_meter \<times> (proto_error + bool))) \<Rightarrow> address list \<Rightarrow> vps_result \<Rightarrow> bool"
where
  "summarises v addrs r \<longleftrightarrow>
     accepted_vps r = set (filter (\<lambda>a. accepts (v a)) addrs) \<and>
     rejected_vps r = set (filter (\<lambda>a. \<not> accepts (v a)) addrs) \<and>
     vp_errors r = concat (map (\<lambda>a. error_of a (v a)) addrs) \<and>
     invalid_sig r = list_ex (\<lambda>a. flags_signature (v a)) addrs \<and>
     vps_repr (gas_used r) (map (\<lambda>a. gas_of_verdict (v a)) addrs)"

lemma summarises_default: "summarises v [] vps_result_default"
  by (simp add: summarises_def vps_result_default_def vps_repr_default)

lemma vp_consume_meter:
  "vp_tx_gas_limit (fst (vp_consume m g)) = vp_tx_gas_limit m"
  "initial_gas (fst (vp_consume m g)) = initial_gas m"
  by (simp_all add: vp_consume_cases Let_def)

lemma run_vp_account_Inr:
  assumes "run_vp env vs a m = Inr (m', accept)" and "\<forall>i. a \<noteq> Internal i"
  shows "\<exists>g h m1 r. vp_consume m g = (m1, Inr ()) \<and> env_wasm_vp env h a m1 = (m', r)"
  using assms by (cases a) (auto split: sum.splits prod.splits option.splits)

lemma run_native_vp_meter:
  assumes "keeps_meter env"
  shows "vp_tx_gas_limit (fst (run_native_vp env vs i m)) = vp_tx_gas_limit m \<and>
         initial_gas (fst (run_native_vp env vs i m)) = initial_gas m"
proof -
  obtain m' res oog where n: "env_native_vp env i m = (m', res, oog)"
    by (cases "env_native_vp env i m") auto
  with assms have "vp_tx_gas_limit m' = vp_tx_gas_limit m \<and> initial_gas m' = initial_gas m"
    unfolding keeps_meter_def by (metis fst_conv)
  with n show ?thesis
    by (cases i; cases res) (simp_all add: run_native_vp_def)
qed

lemma run_vp_meter:
  assumes env: "keeps_meter env" and run: "run_vp env vs a m = Inr (m', accept)"
  shows "vp_tx_gas_limit m' = vp_tx_gas_limit m \<and> initial_gas m' = initial_gas m"
proof (cases "\<exists>i. a = Internal i")
  case True
  then obtain i where "a = Internal i" ..
  with run run_native_vp_meter [OF env, of vs i m] show ?thesis by simp
next
  case False
  then have "\<forall>i. a \<noteq> Internal i" by simp
  from run_vp_account_Inr [OF run this] obtain g h m1 r where c: "vp_consume m g = (m1, Inr ())"
    and w: "env_wasm_vp env h a m1 = (m', r)" by (elim exE conjE)
  from env w have "vp_tx_gas_limit m' = vp_tx_gas_limit m1 \<and> initial_gas m' = initial_gas m1"
    unfolding keeps_meter_def by (metis fst_conv)
  with c vp_consume_meter [of m g] show ?thesis by simp
qed

lemma record_verdict_gas: "record_verdict r a accept = Inr r' \<Longrightarrow> gas_used r' = gas_used r"
  by (auto simp: record_verdict_def split: sum.splits proto_error.splits if_splits)

lemma record_verdict_Inl: "record_verdict r a accept = Inl e \<Longrightarrow> \<exists>msg. accept = Inl (GasError msg)"
  by (auto simp: record_verdict_def split: sum.splits proto_error.splits if_splits)

lemma record_verdict_completes:
  "record_verdict r a accept = Inr r' \<Longrightarrow> completes (Inr (m, accept))"
  by (auto simp: record_verdict_def split: sum.splits proto_error.splits if_splits)

lemma record_verdict_summarises:
  assumes r: "summarises v xs r" and v: "v a = Inr (m, accept)"
    and rec: "record_verdict r a accept = Inr r'"
    and g: "vps_repr g (map (\<lambda>a. gas_of_verdict (v a)) (xs @ [a]))"
  shows "summarises v (xs @ [a]) (r'\<lparr>gas_used := g\<rparr>)"
proof (cases accept)
  case (Inr b)
  from r v g rec [symmetric] show ?thesis
    by (cases b) (simp_all add: record_verdict_def summarises_def Inr)
next
  case (Inl e)
  from r v g rec [symmetric] show ?thesis
    by (cases e) (simp_all add: record_verdict_def summarises_def Inl)
qed

lemma vp_fold_step_summarises:
  fixes a :: address
  assumes env: "keeps_meter env" and r: "summarises (verdict env vs tx) xs r"
  defines "load \<equiv> map (\<lambda>a. gas_of_verdict (verdict env vs tx a)) (xs @ [a])"
  defines "ok \<equiv> completes (verdict env vs tx a) \<and>
                vps_fits (gas_nat (transaction_gas tx)) (gas_nat (tx_gas_limit tx)) load"
  shows "if ok then \<exists>r'. vp_fold_step env vs tx r a = Inr r' \<and>
                         summarises (verdict env vs tx) (xs @ [a]) r'
         else \<exists>e. vp_fold_step env vs tx r a = Inl e"
proof (cases "verdict env vs tx a")
  case (Inl e)
  then show ?thesis by (simp add: ok_def vp_fold_step_def verdict_def)
next
  case (Inr p)
  obtain m accept where v: "verdict env vs tx a = Inr (m, accept)"
    using Inr by (cases p) simp
  then have run: "run_vp env vs a (new_from_tx_meter tx) = Inr (m, accept)"
    by (simp add: verdict_def)
  have m: "vp_tx_gas_limit m = tx_gas_limit tx" "initial_gas m = transaction_gas tx"
    using run_vp_meter [OF env run] by (simp_all add: new_from_tx_meter_def)
  show ?thesis
  proof (cases "record_verdict r a accept")
    case (Inl e)
    from record_verdict_Inl [OF this] have "\<exists>msg. accept = Inl (GasError msg)" .
    with v run Inl show ?thesis by (auto simp: ok_def vp_fold_step_def)
  next
    case (Inr r')
    then have compl: "completes (verdict env vs tx a)"
      using v record_verdict_completes by simp
    have gas: "gas_used r' = gas_used r" by (rule record_verdict_gas [OF Inr])
    have rest: "\<And>g. vps_repr g load \<Longrightarrow>
        summarises (verdict env vs tx) (xs @ [a]) (r'\<lparr>gas_used := g\<rparr>)"
      unfolding load_def by (rule record_verdict_summarises [OF r v Inr])
    have repr: "vps_repr (gas_used r) (map (\<lambda>a. gas_of_verdict (verdict env vs tx a)) xs)"
      using r by (simp add: summarises_def)
    have load: "load = map (\<lambda>a. gas_of_verdict (verdict env vs tx a)) xs @ [gas_nat (current_gas m)]"
      using v by (simp add: load_def)
    obtain g res where set: "vps_gas_set (gas_used r) m = (g, res)"
      by (cases "vps_gas_set (gas_used r) m")
    have "vps_repr g load"
      using vps_gas_set_repr(1) [OF repr, of m] set load by simp
    moreover have "res = Inr () \<longleftrightarrow>
        vps_fits (gas_nat (transaction_gas tx)) (gas_nat (tx_gas_limit tx)) load"
      using vps_gas_set_repr(2) [OF repr, of m] set load m by simp
    ultimately show ?thesis
      using Inr run set gas rest compl by (cases res) (auto simp: ok_def vp_fold_step_def)
  qed
qed

lemma vp_fold_summarises:
  fixes ys :: "address list"
  assumes env: "keeps_meter env" and r: "summarises (verdict env vs tx) xs r"
    and start: "vps_fits (gas_nat (transaction_gas tx)) (gas_nat (tx_gas_limit tx))
                  (map (\<lambda>a. gas_of_verdict (verdict env vs tx a)) xs)"
  defines "ok \<equiv> (\<forall>a \<in> set ys. completes (verdict env vs tx a)) \<and>
                vps_fits (gas_nat (transaction_gas tx)) (gas_nat (tx_gas_limit tx))
                  (map (\<lambda>a. gas_of_verdict (verdict env vs tx a)) (xs @ ys))"
  shows "if ok then \<exists>r'. vp_fold env vs tx r ys = Inr r' \<and>
                         summarises (verdict env vs tx) (xs @ ys) r'
         else \<exists>e. vp_fold env vs tx r ys = Inl e"
  unfolding ok_def using r start
proof (induction ys arbitrary: xs r)
  case Nil
  then show ?case by simp
next
  case (Cons a ys)
  let ?load = "\<lambda>zs. map (\<lambda>a. gas_of_verdict (verdict env vs tx a)) zs"
  let ?fits = "vps_fits (gas_nat (transaction_gas tx)) (gas_nat (tx_gas_limit tx))"
  note step = vp_fold_step_summarises [OF env Cons.prems(1), of a]
  show ?case
  proof (cases "completes (verdict env vs tx a) \<and> ?fits (?load (xs @ [a]))")
    case True
    with step obtain r' where r': "vp_fold_step env vs tx r a = Inr r'"
      "summarises (verdict env vs tx) (xs @ [a]) r'" by auto
    from Cons.IH [OF r'(2)] True r'(1) show ?thesis by (auto split: if_splits)
  next
    case False
    with step obtain e where "vp_fold_step env vs tx r a = Inl e" by auto
    moreover have "?fits (?load (xs @ a # ys)) \<Longrightarrow> ?fits (?load (xs @ [a]))"
      using vps_fits_append [of _ _ "?load (xs @ [a])" "?load ys"] by simp
    ultimately show ?thesis using False by auto
  qed
qed

lemma merge_vp_results_summarises:
  fixes tx :: tx_gas_meter
  assumes "summarises v xs a" and "summarises v ys b"
  defines "ok \<equiv> vps_fits (gas_nat (transaction_gas tx)) (gas_nat (tx_gas_limit tx))
                  (map (\<lambda>a. gas_of_verdict (v a)) (xs @ ys))"
  shows "if ok then \<exists>r. merge_vp_results a b tx = Inr r \<and> summarises v (xs @ ys) r
         else \<exists>e. merge_vp_results a b tx = Inl e"
proof -
  have repr: "vps_repr (gas_used a) (map (\<lambda>a. gas_of_verdict (v a)) xs)"
    "vps_repr (gas_used b) (map (\<lambda>a. gas_of_verdict (v a)) ys)"
    using assms by (simp_all add: summarises_def)
  obtain g res where m: "vps_gas_merge (gas_used a) (gas_used b) tx = (g, res)"
    by (cases "vps_gas_merge (gas_used a) (gas_used b) tx")
  have g: "vps_repr g (map (\<lambda>a. gas_of_verdict (v a)) (xs @ ys))" and res: "res = Inr () \<longleftrightarrow> ok"
    using vps_gas_merge_repr [OF repr, of tx] m by (simp_all add: ok_def)
  show ?thesis
  proof (cases res)
    case (Inl e)
    with m res show ?thesis by (simp add: merge_vp_results_def)
  next
    case (Inr u)
    with m res g assms(1,2) show ?thesis
      by (auto simp: merge_vp_results_def summarises_def)
  qed
qed

lemma run_schedule_summarises:
  fixes vs :: "address set"
  assumes env: "keeps_meter env"
    and within: "gas_nat (transaction_gas tx) \<le> gas_nat (tx_gas_limit tx)"
  defines "ok \<equiv> \<lambda>ys. (\<forall>a \<in> set ys. completes (verdict env vs tx a)) \<and>
                vps_fits (gas_nat (transaction_gas tx)) (gas_nat (tx_gas_limit tx))
                  (map (\<lambda>a. gas_of_verdict (verdict env vs tx a)) ys)"
  shows "if ok (verifiers_of t)
         then \<exists>r. run_schedule env vs tx t = Inr r \<and>
                  summarises (verdict env vs tx) (verifiers_of t) r
         else \<exists>e. run_schedule env vs tx t = Inl e"
proof (induction t)
  case (Segment ys)
  have "vps_fits (gas_nat (transaction_gas tx)) (gas_nat (tx_gas_limit tx)) []"
    using within by (simp add: vps_fits_def vps_load_def)
  with vp_fold_summarises [OF env summarises_default, where ys = ys and vs = vs and tx = tx] show ?case
    by (auto simp: ok_def split: if_splits)
next
  case (Split l r)
  have down: "ok (verifiers_of l @ verifiers_of r) \<Longrightarrow> ok (verifiers_of l) \<and> ok (verifiers_of r)"
    by (auto simp: ok_def dest: vps_fits_append)
  show ?case
  proof (cases "ok (verifiers_of l) \<and> ok (verifiers_of r)")
    case True
    with Split obtain a b where a: "run_schedule env vs tx l = Inr a"
        "summarises (verdict env vs tx) (verifiers_of l) a"
      and b: "run_schedule env vs tx r = Inr b"
        "summarises (verdict env vs tx) (verifiers_of r) b" by auto
    from True merge_vp_results_summarises [OF a(2) b(2), of tx] a(1) b(1) show ?thesis
      by (auto simp: ok_def)
  next
    case False
    with down have "\<not> ok (verifiers_of (Split l r))" by auto
    moreover from False Split have "\<exists>e. run_schedule env vs tx (Split l r) = Inl e"
      by (cases "ok (verifiers_of l)") auto
    ultimately show ?thesis by simp
  qed
qed

lemma summarises_gas:
  assumes "summarises v xs r" and "summarises v xs s"
    and "rest_gas (map (\<lambda>a. gas_of_verdict (v a)) xs) < 2 ^ 64"
    and "vps_load (map (\<lambda>a. gas_of_verdict (v a)) xs) < 2 ^ 64"
  shows "get_current_gas (gas_used r) = get_current_gas (gas_used s)"
proof -
  obtain g where g: "gas_nat g = vps_load (map (\<lambda>a. gas_of_verdict (v a)) xs)"
    using gas_of_nat_ex [OF assms(4)] by blast
  have "get_current_gas (gas_used r) = Inr g" "get_current_gas (gas_used s) = Inr g"
    using get_current_gas_repr [of "gas_used r" _ g] get_current_gas_repr [of "gas_used s" _ g]
      assms g by (auto simp: summarises_def)
  then show ?thesis by simp
qed

section \<open>Property\<close>

text \<open>An environment in which every validity predicate accepts after a fixed charge.\<close>

definition accepting_env :: vp_env where
  "accepting_env =
     \<lparr>env_validity_predicate = (\<lambda>_. Inr (Some [], 3)),
      env_wasm_vp = (\<lambda>_ _ m. (fst (vp_consume m 5), Inr True)),
      env_native_vp = (\<lambda>_ m. (m, Inr False, False))\<rparr>"

lemma accepting_env_keeps_meter: "keeps_meter accepting_env"
  by (simp add: keeps_meter_def accepting_env_def vp_consume_meter)

text \<open>(C1) Running the validity predicates in parallel is deterministic. However the thread pool cuts
  the set of verifiers into segments and merges their results, the execution either fails for every
  cut or succeeds for every cut with the same accepted and rejected verifiers, the same errors, the
  same signature flag and the same gas to charge; and on success every verifier is in exactly one of
  the two sets.\<close>

theorem execute_vps_schedule_independent:
  assumes env: "keeps_meter env"
    and within: "gas_nat (transaction_gas tx) \<le> gas_nat (tx_gas_limit tx)"
    and same: "verifiers_of s = verifiers_of t"
  shows "case (execute_vps env tx s, execute_vps env tx t) of
      (Inr r, Inr r') \<Rightarrow>
        accepted_vps r = accepted_vps r' \<and> rejected_vps r = rejected_vps r' \<and>
        vp_errors r = vp_errors r' \<and> invalid_sig r = invalid_sig r' \<and>
        get_current_gas (gas_used r) = get_current_gas (gas_used r') \<and>
        accepted_vps r \<union> rejected_vps r = set (verifiers_of s) \<and> accepted_vps r \<inter> rejected_vps r = {}
    | (Inl _, Inl _) \<Rightarrow> True
    | _ \<Rightarrow> False"
proof -
  let ?v = "verdict env (set (verifiers_of s)) tx" and ?xs = "verifiers_of s"
  let ?gas = "map (\<lambda>a. gas_of_verdict (?v a)) ?xs"
  let ?ok = "(\<forall>a \<in> set ?xs. completes (?v a)) \<and>
    vps_fits (gas_nat (transaction_gas tx)) (gas_nat (tx_gas_limit tx)) ?gas"
  note s = run_schedule_summarises [OF env within, where vs = "set ?xs" and t = s]
  note t = run_schedule_summarises [OF env within, where vs = "set ?xs" and t = t, folded same]
  show ?thesis
  proof (cases ?ok)
    case True
    with s t obtain r r' where r: "execute_vps env tx s = Inr r" "summarises ?v ?xs r"
      and r': "execute_vps env tx t = Inr r'" "summarises ?v ?xs r'"
      by (auto simp: execute_vps_def same)
    have "get_current_gas (gas_used r) = get_current_gas (gas_used r')"
      using True gas_nat_bound [of "tx_gas_limit tx"]
      by (intro summarises_gas [OF r(2) r'(2)]) (auto simp: vps_fits_def)
    with r r' show ?thesis by (auto simp: summarises_def)
  next
    case False
    obtain e e' where "run_schedule env (set ?xs) tx s = Inl e" "run_schedule env (set ?xs) tx t = Inl e'"
      using s t unfolding if_not_P [OF False] by blast
    then show ?thesis by (simp add: execute_vps_def same [symmetric])
  qed
qed

theorem execute_vps_schedule_independent_witness:
  defines "tx \<equiv> \<lparr>tx_gas_limit = \<lparr>gas_sub = 1000\<rparr>, transaction_gas = \<lparr>gas_sub = 10\<rparr>\<rparr>"
    and "a \<equiv> Established []" and "b \<equiv> Internal PoS"
  shows "keeps_meter accepting_env \<and> gas_nat (transaction_gas tx) \<le> gas_nat (tx_gas_limit tx) \<and>
    (case (execute_vps accepting_env tx (Segment [a, b]),
           execute_vps accepting_env tx (Split (Segment [a]) (Segment [b]))) of
      (Inr r, Inr r') \<Rightarrow> get_current_gas (gas_used r) = get_current_gas (gas_used r')
    | (Inl _, Inl _) \<Rightarrow> True
    | _ \<Rightarrow> False)"
  using execute_vps_schedule_independent [OF accepting_env_keeps_meter, of tx "Segment [a, b]"
      "Split (Segment [a]) (Segment [b])"]
  by (auto simp: tx_def accepting_env_keeps_meter split: sum.splits)

end
