(* ===== verification/Storage_Key.thy ===== *)
theory Storage_Key
  imports Address
begin

text \<open>
  Storage keys (\<open>core/src/types/storage.rs\<close>): segments that are addresses or strings, their
  textual form with \<open>/\<close> between segments and \<open>#\<close> before an encoded address, prefixes of keys, and
  the reserved key of an account's validity predicate. A \<open>string\<close> is the UTF-8 byte sequence of a
  Rust string, so \<open>length\<close> is \<open>str::len\<close>; the two reserved characters are ASCII.

  The textual encoding of addresses (Bech32m) is library code: it is the parameter \<open>addr_codec\<close>,
  and \<open>codec_ok\<close> states what the code relies on, that decoding inverts encoding and that an encoded
  address does not contain the separator.
\<close>

record addr_codec =
  addr_encode :: "address \<Rightarrow> string"
  addr_decode :: "string \<Rightarrow> string + address"

definition KEY_SEGMENT_SEPARATOR :: char where "KEY_SEGMENT_SEPARATOR = CHR ''/''"
definition RESERVED_ADDRESS_PREFIX :: char where "RESERVED_ADDRESS_PREFIX = CHR ''#''"
definition RESERVED_VP_KEY :: string where "RESERVED_VP_KEY = ''?''"
definition WASM_KEY_PREFIX :: string where "WASM_KEY_PREFIX = ''wasm''"
definition WASM_CODE_PREFIX :: string where "WASM_CODE_PREFIX = ''code''"
definition WASM_CODE_NAME_PREFIX :: string where "WASM_CODE_NAME_PREFIX = ''name''"
definition WASM_CODE_LEN_PREFIX :: string where "WASM_CODE_LEN_PREFIX = ''len''"
definition WASM_HASH_PREFIX :: string where "WASM_HASH_PREFIX = ''hash''"

definition codec_ok :: "addr_codec \<Rightarrow> bool" where
  "codec_ok c \<longleftrightarrow>
     (\<forall>a. addr_decode c (addr_encode c a) = Inr a) \<and>
     (\<forall>a. KEY_SEGMENT_SEPARATOR \<notin> set (addr_encode c a))"

datatype storage_error =
    ParseAddress string
  | ParseAddressFromKey
  | InvalidKeySeg string
  | ParseKeySeg string
  | ParseBlockHash string
  | EmptyKey
  | MissingSegments string

datatype db_key_seg = AddressSeg address | StringSeg string

datatype key = Key (segments: "db_key_seg list")

section \<open>Segments\<close>

definition seg_parse :: "addr_codec \<Rightarrow> string \<Rightarrow> storage_error + db_key_seg" where
  "seg_parse c s =
     (if KEY_SEGMENT_SEPARATOR \<in> set s then Inl (InvalidKeySeg s)
      else case s of
        [] \<Rightarrow> Inr (StringSeg s)
      | ch # rest \<Rightarrow>
          if ch = RESERVED_ADDRESS_PREFIX
          then (case addr_decode c rest of
                  Inl e \<Rightarrow> Inl (ParseAddress e)
                | Inr a \<Rightarrow> Inr (AddressSeg a))
          else Inr (StringSeg s))"

fun seg_raw :: "addr_codec \<Rightarrow> db_key_seg \<Rightarrow> string" where
  "seg_raw c (AddressSeg a) = RESERVED_ADDRESS_PREFIX # addr_encode c a"
| "seg_raw c (StringSeg s) = s"

text \<open>\<open>impl KeySeg for Address\<close>: the segment of an address, and its parser.\<close>

definition address_seg_parse :: "addr_codec \<Rightarrow> string \<Rightarrow> storage_error + address" where
  "address_seg_parse c s =
     (case s of
        [] \<Rightarrow> Inl ParseAddressFromKey
      | ch # rest \<Rightarrow>
          if ch = RESERVED_ADDRESS_PREFIX
          then (case addr_decode c rest of Inl e \<Rightarrow> Inl (ParseAddress e) | Inr a \<Rightarrow> Inr a)
          else Inl ParseAddressFromKey)"

definition address_seg_raw :: "addr_codec \<Rightarrow> address \<Rightarrow> string" where
  "address_seg_raw c a = RESERVED_ADDRESS_PREFIX # addr_encode c a"

definition address_to_db_key :: "address \<Rightarrow> db_key_seg" where
  "address_to_db_key a = AddressSeg a"

section \<open>Keys\<close>

text \<open>\<open>str::split\<close> on a character, and \<open>join\<close> with it.\<close>

fun split_on :: "char \<Rightarrow> string \<Rightarrow> string list" where
  "split_on sep [] = [[]]"
| "split_on sep (ch # s) =
     (if ch = sep then [] # split_on sep s
      else case split_on sep s of [] \<Rightarrow> [[ch]] | w # ws \<Rightarrow> (ch # w) # ws)"

fun join_with :: "char \<Rightarrow> string list \<Rightarrow> string" where
  "join_with sep [] = []"
| "join_with sep [w] = w"
| "join_with sep (w # ws) = w @ sep # join_with sep ws"

definition key_to_string :: "addr_codec \<Rightarrow> key \<Rightarrow> string" where
  "key_to_string c k = join_with KEY_SEGMENT_SEPARATOR (map (seg_raw c) (segments k))"

fun parse_segments :: "addr_codec \<Rightarrow> string list \<Rightarrow> storage_error + db_key_seg list" where
  "parse_segments c [] = Inr []"
| "parse_segments c (s # ss) =
     res_bind (seg_parse c s) (\<lambda>seg. res_bind (parse_segments c ss) (\<lambda>segs. Inr (seg # segs)))"

definition key_parse :: "addr_codec \<Rightarrow> string \<Rightarrow> storage_error + key" where
  "key_parse c s =
     (if s = [] then Inl (ParseKeySeg s)
      else res_bind (parse_segments c (split_on KEY_SEGMENT_SEPARATOR s)) (\<lambda>segs. Inr (Key segs)))"

text \<open>\<open>push\<close> is generic over the segment type; it only uses the segment's raw string.\<close>

definition key_push :: "addr_codec \<Rightarrow> key \<Rightarrow> string \<Rightarrow> storage_error + key" where
  "key_push c k raw =
     res_bind (seg_parse c raw) (\<lambda>seg. Inr (Key (segments k @ [seg])))"

definition key_with_segment :: "key \<Rightarrow> db_key_seg \<Rightarrow> key" where
  "key_with_segment k seg = Key (segments k @ [seg])"

definition key_join :: "key \<Rightarrow> key \<Rightarrow> key" where
  "key_join k other = Key (segments k @ segments other)"

definition iter_addresses :: "key \<Rightarrow> address list" where
  "iter_addresses k =
     List.map_filter (\<lambda>s. case s of AddressSeg a \<Rightarrow> Some a | StringSeg _ \<Rightarrow> None) (segments k)"

definition find_addresses :: "key \<Rightarrow> address list" where
  "find_addresses k = iter_addresses k"

definition key_get_at :: "key \<Rightarrow> nat \<Rightarrow> db_key_seg option" where
  "key_get_at k i = (if i < length (segments k) then Some (segments k ! i) else None)"

definition key_len :: "addr_codec \<Rightarrow> key \<Rightarrow> nat" where
  "key_len c k = length (key_to_string c k)"

definition key_is_empty :: "addr_codec \<Rightarrow> key \<Rightarrow> bool" where
  "key_is_empty c k \<longleftrightarrow> key_len c k = 0"

definition key_first :: "key \<Rightarrow> db_key_seg option" where
  "key_first k = (case segments k of [] \<Rightarrow> None | s # _ \<Rightarrow> Some s)"

definition key_last :: "key \<Rightarrow> db_key_seg option" where
  "key_last k = (if segments k = [] then None else Some (last (segments k)))"

definition key_split_last :: "key \<Rightarrow> (db_key_seg list \<times> db_key_seg) option" where
  "key_split_last k =
     (if segments k = [] then None else Some (butlast (segments k), last (segments k)))"

definition wasm_code_key :: "string \<Rightarrow> key" where
  "wasm_code_key hash =
     Key [StringSeg WASM_KEY_PREFIX, StringSeg WASM_CODE_PREFIX, StringSeg hash]"

definition wasm_code_name_key :: "string \<Rightarrow> key" where
  "wasm_code_name_key code_name =
     Key [StringSeg WASM_KEY_PREFIX, StringSeg WASM_CODE_NAME_PREFIX, StringSeg code_name]"

definition wasm_code_len_key :: "string \<Rightarrow> key" where
  "wasm_code_len_key hash =
     Key [StringSeg WASM_KEY_PREFIX, StringSeg WASM_CODE_LEN_PREFIX, StringSeg hash]"

definition wasm_hash_key :: "string \<Rightarrow> key" where
  "wasm_hash_key code_path =
     Key [StringSeg WASM_KEY_PREFIX, StringSeg WASM_HASH_PREFIX, StringSeg code_path]"

definition validity_predicate_key :: "address \<Rightarrow> key" where
  "validity_predicate_key a = Key [AddressSeg a, StringSeg RESERVED_VP_KEY]"

fun is_validity_predicate :: "key \<Rightarrow> address option" where
  "is_validity_predicate (Key [AddressSeg a, StringSeg sub]) =
     (if sub = RESERVED_VP_KEY then Some a else None)"
| "is_validity_predicate _ = None"

definition key_sub_key :: "addr_codec \<Rightarrow> key \<Rightarrow> storage_error + key" where
  "key_sub_key c k =
     (case segments k of
        [] \<Rightarrow> Inl EmptyKey
      | _ # rest \<Rightarrow> if rest = [] then Inl (MissingSegments (key_to_string c k)) else Inr (Key rest))"

definition split_prefix :: "key \<Rightarrow> key \<Rightarrow> key option option" where
  "split_prefix k prefix =
     (let n = length (segments prefix) in
      if length (segments k) < n then None
      else if k = prefix then Some None
      else if take n (segments k) = segments prefix then Some (Some (Key (drop n (segments k))))
      else None)"

text \<open>\<open>parse_db_key\<close>: \<open>None\<close> is a panic (an \<open>expect\<close>, \<open>remove(0)\<close> on an empty string, or
  \<open>split_off(2)\<close> past the end). The character that \<open>remove(0)\<close> drops is the address prefix; a
  multi-byte first character is not distinguished from its first byte.\<close>

definition parse_db_key :: "addr_codec \<Rightarrow> string \<Rightarrow> (storage_error + key) option" where
  "parse_db_key c db_key =
     (let segs = split_on KEY_SEGMENT_SEPARATOR db_key in
      if 3 < length segs \<and> segs ! 3 = RESERVED_VP_KEY
      then (case segs ! 2 of
              [] \<Rightarrow> None
            | _ # addr_str \<Rightarrow>
                (case addr_decode c addr_str of
                   Inl _ \<Rightarrow> None
                 | Inr a \<Rightarrow> Some (Inr (validity_predicate_key a))))
      else if length segs < 2 then None
      else (case key_parse c (join_with KEY_SEGMENT_SEPARATOR (drop 2 segs)) of
              Inl e \<Rightarrow> Some (Inl (ParseKeySeg db_key))
            | Inr k \<Rightarrow> Some (Inr k)))"

section \<open>Parsing inverts printing\<close>

text \<open>A segment that is printed the way it is parsed: a plain string does not contain the
  separator and does not start like an address.\<close>

fun seg_wf :: "db_key_seg \<Rightarrow> bool" where
  "seg_wf (AddressSeg a) = True"
| "seg_wf (StringSeg s) =
     (KEY_SEGMENT_SEPARATOR \<notin> set s \<and> (s = [] \<or> hd s \<noteq> RESERVED_ADDRESS_PREFIX))"

definition key_wf :: "key \<Rightarrow> bool" where
  "key_wf k \<longleftrightarrow> list_all seg_wf (segments k) \<and> segments k \<noteq> [] \<and> segments k \<noteq> [StringSeg []]"

lemma seg_parse_raw:
  assumes "codec_ok c" and "seg_wf s"
  shows "seg_parse c (seg_raw c s) = Inr s \<and> KEY_SEGMENT_SEPARATOR \<notin> set (seg_raw c s)"
proof (cases s)
  case (AddressSeg a)
  have "KEY_SEGMENT_SEPARATOR \<noteq> RESERVED_ADDRESS_PREFIX"
    by (simp add: KEY_SEGMENT_SEPARATOR_def RESERVED_ADDRESS_PREFIX_def)
  with assms AddressSeg show ?thesis by (simp add: seg_parse_def codec_ok_def)
next
  case (StringSeg w)
  with assms show ?thesis by (cases w) (simp_all add: seg_parse_def)
qed

lemma split_on_ne: "split_on sep s \<noteq> []"
  by (induction s) (auto split: list.splits)

lemma split_on_free: "sep \<notin> set w \<Longrightarrow> split_on sep w = [w]"
  by (induction w) auto

lemma split_on_append: "sep \<notin> set w \<Longrightarrow> split_on sep (w @ sep # s) = w # split_on sep s"
  by (induction w) auto

lemma split_on_join:
  assumes "ws \<noteq> []" and "\<forall>w \<in> set ws. sep \<notin> set w"
  shows "split_on sep (join_with sep ws) = ws"
  using assms
proof (induction sep ws rule: join_with.induct)
  case (3 sep w v vs)
  then show ?case by (simp add: split_on_append)
qed (simp_all add: split_on_free)

lemma join_split_on: "join_with sep (split_on sep s) = s"
proof (induction s)
  case Nil
  show ?case by simp
next
  case (Cons ch s)
  obtain w ws where w: "split_on sep s = w # ws"
    using split_on_ne [of sep s] by (cases "split_on sep s") auto
  with Cons show ?case by (cases ws) auto
qed

lemma split_on_no_sep: "w \<in> set (split_on sep s) \<Longrightarrow> sep \<notin> set w"
proof (induction s arbitrary: w)
  case (Cons ch s)
  obtain v vs where v: "split_on sep s = v # vs"
    using split_on_ne [of sep s] by (cases "split_on sep s") auto
  with Cons show ?case by (auto split: if_splits)
qed simp

lemma join_with_eq_Nil: "join_with sep ws = [] \<longleftrightarrow> ws = [] \<or> ws = [[]]"
  by (induction sep ws rule: join_with.induct) auto

lemma parse_segments_raw:
  assumes "codec_ok c" and "list_all seg_wf segs"
  shows "parse_segments c (map (seg_raw c) segs) = Inr segs"
  using assms by (induction segs) (simp_all add: seg_parse_raw)

lemma seg_raw_eq_Nil: "seg_raw c s = [] \<longleftrightarrow> s = StringSeg []"
  by (cases s) simp_all

lemma key_parse_to_string:
  assumes c: "codec_ok c" and k: "key_wf k"
  shows "key_parse c (key_to_string c k) = Inr k"
proof -
  let ?ws = "map (seg_raw c) (segments k)"
  from k have segs: "list_all seg_wf (segments k)" "segments k \<noteq> []" "segments k \<noteq> [StringSeg []]"
    by (simp_all add: key_wf_def)
  have "?ws \<noteq> [[]]" using segs(3) by (cases "segments k") (auto simp: seg_raw_eq_Nil)
  then have ne: "join_with KEY_SEGMENT_SEPARATOR ?ws \<noteq> []"
    using segs(2) by (simp add: join_with_eq_Nil)
  have "\<forall>w \<in> set ?ws. KEY_SEGMENT_SEPARATOR \<notin> set w"
    using segs(1) seg_parse_raw [OF c] by (auto simp: list_all_iff)
  then have "split_on KEY_SEGMENT_SEPARATOR (join_with KEY_SEGMENT_SEPARATOR ?ws) = ?ws"
    using segs(2) by (intro split_on_join) auto
  with ne parse_segments_raw [OF c segs(1)] show ?thesis
    by (cases k) (simp add: key_parse_def key_to_string_def)
qed

lemma split_prefix_cases:
  "split_prefix k p = Some None \<longleftrightarrow> k = p"
  "split_prefix k p = Some (Some s) \<longleftrightarrow> segments s \<noteq> [] \<and> k = key_join p s"
  "split_prefix k p = None \<longleftrightarrow> (\<nexists>s. k = key_join p s)"
proof -
  obtain ks ps where kp: "k = Key ks" "p = Key ps" by (cases k, cases p) auto
  show "split_prefix k p = Some None \<longleftrightarrow> k = p"
    by (auto simp: split_prefix_def Let_def)
  have eq: "take (length ps) ks = ps \<longleftrightarrow> ks = ps @ drop (length ps) ks"
    by (metis append_eq_conv_conj)
  show "split_prefix k p = Some (Some s) \<longleftrightarrow> segments s \<noteq> [] \<and> k = key_join p s"
    by (cases s) (auto simp: split_prefix_def Let_def key_join_def kp eq not_less split: if_splits)
  show "split_prefix k p = None \<longleftrightarrow> (\<nexists>s. k = key_join p s)"
  proof
    assume "split_prefix k p = None"
    then show "\<nexists>s. k = key_join p s"
      by (auto simp: split_prefix_def Let_def key_join_def kp split: if_splits)
  next
    assume none: "\<nexists>s. k = key_join p s"
    have "k \<noteq> p" using none [simplified key_join_def kp] kp
      by (metis append_Nil2 key.sel)
    moreover have "take (length ps) ks \<noteq> ps"
      using none [simplified key_join_def kp] by (metis append_take_drop_id key.sel)
    ultimately show "split_prefix k p = None"
      by (simp add: split_prefix_def Let_def kp)
  qed
qed

lemma is_validity_predicate_iff: "is_validity_predicate k = Some a \<longleftrightarrow> k = validity_predicate_key a"
  by (cases k rule: is_validity_predicate.cases) (auto simp: validity_predicate_key_def)

section \<open>An instance of the address codec\<close>

text \<open>Letters for the kind of address and for the half bytes of its data: \<open>codec_ok\<close> can hold.\<close>

definition letter :: "nat \<Rightarrow> char" where
  "letter n = char_of (97 + n)"

definition letter_val :: "char \<Rightarrow> nat" where
  "letter_val ch = of_char ch - 97"

fun hex_bytes :: "bytes \<Rightarrow> string" where
  "hex_bytes [] = []"
| "hex_bytes (b # bs) = letter (unat b div 16) # letter (unat b mod 16) # hex_bytes bs"

fun unhex_bytes :: "string \<Rightarrow> bytes" where
  "unhex_bytes (h # l # s) = of_nat (letter_val h * 16 + letter_val l) # unhex_bytes s"
| "unhex_bytes _ = []"

fun hex_encode :: "address \<Rightarrow> string" where
  "hex_encode (Established h) = letter 0 # hex_bytes h"
| "hex_encode (Implicit h) = letter 1 # hex_bytes h"
| "hex_encode (Internal PoS) = [letter 2]"
| "hex_encode (Internal PosSlashPool) = [letter 3]"
| "hex_encode (Internal Parameters) = [letter 4]"
| "hex_encode (Internal Ibc) = [letter 5]"
| "hex_encode (Internal (IbcToken h)) = letter 6 # hex_bytes h"
| "hex_encode (Internal Governance) = [letter 7]"
| "hex_encode (Internal EthBridge) = [letter 8]"
| "hex_encode (Internal EthBridgePool) = [letter 9]"
| "hex_encode (Internal (Erc20 h)) = letter 10 # hex_bytes h"
| "hex_encode (Internal (Nut h)) = letter 11 # hex_bytes h"
| "hex_encode (Internal Multitoken) = [letter 12]"
| "hex_encode (Internal Pgf) = [letter 13]"
| "hex_encode (Internal Masp) = [letter 14]"

fun hex_decode :: "string \<Rightarrow> string + address" where
  "hex_decode [] = Inl ''empty''"
| "hex_decode (ch # s) =
     Inr ((\<lambda>h. [Established h, Implicit h, Internal PoS, Internal PosSlashPool, Internal Parameters,
       Internal Ibc, Internal (IbcToken h), Internal Governance, Internal EthBridge,
       Internal EthBridgePool, Internal (Erc20 h), Internal (Nut h), Internal Multitoken,
       Internal Pgf, Internal Masp] ! letter_val ch) (unhex_bytes s))"

definition hex_codec :: addr_codec where
  "hex_codec = \<lparr>addr_encode = hex_encode, addr_decode = hex_decode\<rparr>"

lemma letter_val_letter [simp]: "n < 16 \<Longrightarrow> letter_val (letter n) = n"
  by (simp add: letter_val_def letter_def of_char_of)

lemma letter_not_separator [simp]: "n < 16 \<Longrightarrow> letter n \<noteq> KEY_SEGMENT_SEPARATOR"
proof
  assume "n < 16" and "letter n = KEY_SEGMENT_SEPARATOR"
  then have "of_char (letter n) = (of_char (CHR ''/'') :: nat)" by (simp add: KEY_SEGMENT_SEPARATOR_def)
  with \<open>n < 16\<close> show False by (simp add: letter_def of_char_of)
qed

lemma unat_byte_div: "unat (b :: u8) div 16 < 16"
  using unat_bound [of b] by simp

lemma unhex_hex_bytes [simp]: "unhex_bytes (hex_bytes bs) = bs"
  by (induction bs) (simp_all add: unat_byte_div)

lemma hex_bytes_separator: "KEY_SEGMENT_SEPARATOR \<notin> set (hex_bytes bs)"
  by (induction bs) (simp_all add: unat_byte_div letter_not_separator [symmetric])

lemma hex_codec_ok: "codec_ok hex_codec"
proof -
  have "hex_decode (hex_encode a) = Inr a" for a
    by (cases a rule: hex_encode.cases) simp_all
  moreover have "KEY_SEGMENT_SEPARATOR \<notin> set (hex_encode a)" for a
    by (cases a rule: hex_encode.cases)
      (simp_all add: hex_bytes_separator letter_not_separator [symmetric])
  ultimately show ?thesis by (simp add: codec_ok_def hex_codec_def)
qed

section \<open>Properties\<close>

text \<open>(C23) Parsing inverts printing on the keys whose plain segments contain no separator and do not
  start like an address, and printing inverts parsing on every text none of whose segments starts
  like an address: such a text always parses, and its key is printed as the text.\<close>

theorem key_text_roundtrip:
  assumes "codec_ok c"
  shows "(key_wf k \<longrightarrow> key_parse c (key_to_string c k) = Inr k) \<and>
    (s \<noteq> [] \<and> (\<forall>w \<in> set (split_on KEY_SEGMENT_SEPARATOR s). w = [] \<or> hd w \<noteq> RESERVED_ADDRESS_PREFIX) \<longrightarrow>
       (\<exists>k'. key_parse c s = Inr k' \<and> key_to_string c k' = s))"
proof (intro conjI impI)
  show "key_wf k \<Longrightarrow> key_parse c (key_to_string c k) = Inr k"
    by (rule key_parse_to_string [OF assms])
  assume s: "s \<noteq> [] \<and> (\<forall>w \<in> set (split_on KEY_SEGMENT_SEPARATOR s). w = [] \<or> hd w \<noteq> RESERVED_ADDRESS_PREFIX)"
  have "parse_segments c ws = Inr (map StringSeg ws)"
    if "\<forall>w \<in> set ws. (w = [] \<or> hd w \<noteq> RESERVED_ADDRESS_PREFIX) \<and> KEY_SEGMENT_SEPARATOR \<notin> set w" for ws
    using that
  proof (induction ws)
    case (Cons w ws)
    then have "seg_parse c w = Inr (StringSeg w)" by (cases w) (simp_all add: seg_parse_def)
    with Cons show ?case by simp
  qed simp
  with s split_on_no_sep have "parse_segments c (split_on KEY_SEGMENT_SEPARATOR s)
      = Inr (map StringSeg (split_on KEY_SEGMENT_SEPARATOR s))" by blast
  moreover have "map (seg_raw c \<circ> StringSeg) ws = ws" for ws by (induction ws) simp_all
  ultimately show "\<exists>k'. key_parse c s = Inr k' \<and> key_to_string c k' = s"
    using s by (simp add: key_parse_def key_to_string_def join_split_on)
qed

theorem key_text_roundtrip_witness:
  "codec_ok hex_codec \<and>
   key_parse hex_codec (key_to_string hex_codec (Key [AddressSeg (Internal PoS), StringSeg ''a'']))
     = Inr (Key [AddressSeg (Internal PoS), StringSeg ''a'']) \<and>
   (\<exists>k'. key_parse hex_codec ''a//b'' = Inr k' \<and> key_to_string hex_codec k' = ''a//b'')"
  using key_text_roundtrip [OF hex_codec_ok, of "Key [AddressSeg (Internal PoS), StringSeg ''a'']" "''a//b''"]
  by (simp add: key_wf_def hex_codec_ok KEY_SEGMENT_SEPARATOR_def RESERVED_ADDRESS_PREFIX_def)

text \<open>(C24) Splitting a key at a prefix is exact: it returns the empty remainder only for the prefix
  itself, a remainder exactly when the key is the prefix followed by that non-empty remainder, and
  nothing exactly when the key does not extend the prefix.\<close>

theorem split_prefix_exact:
  "split_prefix k p = r \<longleftrightarrow>
     (case r of
        None \<Rightarrow> (\<nexists>s. k = key_join p s)
      | Some None \<Rightarrow> k = p
      | Some (Some s) \<Rightarrow> segments s \<noteq> [] \<and> k = key_join p s)"
  by (cases r rule: option.exhaust [case_product option.exhaust])
    (auto simp: split_prefix_cases split: option.split)

text \<open>(C25) The reserved key of a validity predicate is recognised for exactly the account it was made
  for. The restriction that only this function produces such a key does not hold of \<open>push\<close>: pushing
  the text \<open>?\<close> onto the key of an address gives the key of its validity predicate.\<close>

theorem validity_predicate_key_exact:
  "(is_validity_predicate k = Some a \<longleftrightarrow> k = validity_predicate_key a) \<and>
   key_push c (Key [AddressSeg a]) ''?'' = Inr (validity_predicate_key a)"
  by (simp add: is_validity_predicate_iff key_push_def seg_parse_def validity_predicate_key_def
      RESERVED_VP_KEY_def KEY_SEGMENT_SEPARATOR_def RESERVED_ADDRESS_PREFIX_def)

end
