(* ===== verification/Token_Keys.thy ===== *)
theory Token_Keys
  imports Storage_Key
begin

text \<open>
  The storage keys of tokens (\<open>core/src/types/token.rs\<close>): building the keys of balances, minters and
  denominations, and recognising them. A key that is built by \<open>push\<close> and \<open>expect\<close> is an option, in
  which \<open>None\<close> is the panic of \<open>expect\<close>; with a codec that satisfies \<open>codec_ok\<close> it never is.
\<close>

definition BALANCE_STORAGE_KEY :: string where "BALANCE_STORAGE_KEY = ''balance''"
definition DENOM_STORAGE_KEY :: string where "DENOM_STORAGE_KEY = ''denomination''"
definition MINTER_STORAGE_KEY :: string where "MINTER_STORAGE_KEY = ''minter''"
definition MINTED_STORAGE_KEY :: string where "MINTED_STORAGE_KEY = ''minted''"
definition HEAD_TX_KEY :: string where "HEAD_TX_KEY = ''head-tx''"
definition TX_KEY_PREFIX :: string where "TX_KEY_PREFIX = ''tx-''"
definition PIN_KEY_PREFIX :: string where "PIN_KEY_PREFIX = ''pin-''"
definition MASP_NULLIFIERS_KEY :: string where "MASP_NULLIFIERS_KEY = ''nullifiers''"
definition MASP_NOTE_COMMITMENT_TREE_KEY :: string where
  "MASP_NOTE_COMMITMENT_TREE_KEY = ''commitment_tree''"

abbreviation MULTITOKEN :: address where "MULTITOKEN \<equiv> Internal Multitoken"
abbreviation MASP :: address where "MASP \<equiv> Internal Masp"

section \<open>Building keys\<close>

definition push_expect :: "addr_codec \<Rightarrow> key \<Rightarrow> string \<Rightarrow> key option" where
  "push_expect c k raw = (case key_push c k raw of Inl _ \<Rightarrow> None | Inr k' \<Rightarrow> Some k')"

definition key_of_token :: "addr_codec \<Rightarrow> address \<Rightarrow> string \<Rightarrow> key option" where
  "key_of_token c token specific = push_expect c (Key [address_to_db_key token]) specific"

definition balance_prefix :: "addr_codec \<Rightarrow> address \<Rightarrow> key option" where
  "balance_prefix c token =
     do { k \<leftarrow> push_expect c (Key [address_to_db_key MULTITOKEN]) (seg_raw c (address_to_db_key token));
          push_expect c k BALANCE_STORAGE_KEY }"

definition balance_key :: "addr_codec \<Rightarrow> address \<Rightarrow> address \<Rightarrow> key option" where
  "balance_key c token owner =
     do { k \<leftarrow> balance_prefix c token;
          push_expect c k (seg_raw c (address_to_db_key owner)) }"

definition minter_key :: "addr_codec \<Rightarrow> address \<Rightarrow> key option" where
  "minter_key c token =
     do { k \<leftarrow> push_expect c (Key [address_to_db_key MULTITOKEN]) (seg_raw c (address_to_db_key token));
          push_expect c k MINTER_STORAGE_KEY }"

definition minted_balance_key :: "addr_codec \<Rightarrow> address \<Rightarrow> key option" where
  "minted_balance_key c token =
     do { k \<leftarrow> balance_prefix c token; push_expect c k MINTED_STORAGE_KEY }"

definition denom_key :: "addr_codec \<Rightarrow> address \<Rightarrow> key option" where
  "denom_key c token = push_expect c (Key [address_to_db_key token]) DENOM_STORAGE_KEY"

section \<open>Recognising keys\<close>

fun is_balance_key :: "address \<Rightarrow> key \<Rightarrow> address option" where
  "is_balance_key token_addr (Key [AddressSeg addr, AddressSeg token, StringSeg balance, AddressSeg owner]) =
     (if addr = MULTITOKEN \<and> token = token_addr \<and> balance = BALANCE_STORAGE_KEY
      then Some owner else None)"
| "is_balance_key token_addr _ = None"

fun is_any_token_balance_key :: "key \<Rightarrow> (address \<times> address) option" where
  "is_any_token_balance_key (Key [AddressSeg addr, AddressSeg token, StringSeg balance, AddressSeg owner]) =
     (if addr = MULTITOKEN \<and> balance = BALANCE_STORAGE_KEY then Some (token, owner) else None)"
| "is_any_token_balance_key _ = None"

definition is_denom_key :: "address \<Rightarrow> key \<Rightarrow> bool" where
  "is_denom_key token_addr k =
     (case segments k of
        AddressSeg addr # s # rest \<Rightarrow>
          (case last (s # rest) of
             StringSeg w \<Rightarrow> w = DENOM_STORAGE_KEY \<and> addr = token_addr
           | AddressSeg _ \<Rightarrow> False)
      | _ \<Rightarrow> False)"

fun is_any_minter_key :: "key \<Rightarrow> address option" where
  "is_any_minter_key (Key [AddressSeg addr, AddressSeg token, StringSeg minter]) =
     (if addr = MULTITOKEN \<and> minter = MINTER_STORAGE_KEY then Some token else None)"
| "is_any_minter_key _ = None"

fun is_any_minted_balance_key :: "key \<Rightarrow> address option" where
  "is_any_minted_balance_key (Key [AddressSeg addr, AddressSeg token, StringSeg balance, StringSeg owner]) =
     (if addr = MULTITOKEN \<and> balance = BALANCE_STORAGE_KEY \<and> owner = MINTED_STORAGE_KEY
      then Some token else None)"
| "is_any_minted_balance_key _ = None"

definition starts_with :: "string \<Rightarrow> string \<Rightarrow> bool" where
  "starts_with s p \<longleftrightarrow> take (length p) s = p"

definition is_masp_key :: "key \<Rightarrow> bool" where
  "is_masp_key k = (case segments k of AddressSeg addr # _ \<Rightarrow> addr = MASP | _ \<Rightarrow> False)"

fun is_masp_allowed_key :: "key \<Rightarrow> bool" where
  "is_masp_allowed_key (Key [AddressSeg addr, StringSeg k]) =
     (addr = MASP \<and>
      (k = HEAD_TX_KEY \<or> starts_with k TX_KEY_PREFIX \<or> starts_with k PIN_KEY_PREFIX
       \<or> k = MASP_NOTE_COMMITMENT_TREE_KEY))"
| "is_masp_allowed_key (Key [AddressSeg addr, StringSeg k, StringSeg nullifier]) =
     (addr = MASP \<and> k = MASP_NULLIFIERS_KEY)"
| "is_masp_allowed_key _ = False"

fun is_masp_tx_prefix_key :: "key \<Rightarrow> bool" where
  "is_masp_tx_prefix_key (Key [AddressSeg addr, StringSeg prefix]) =
     (addr = MASP \<and> starts_with prefix TX_KEY_PREFIX)"
| "is_masp_tx_prefix_key _ = False"

fun is_masp_tx_pin_key :: "key \<Rightarrow> bool" where
  "is_masp_tx_pin_key (Key [AddressSeg addr, StringSeg prefix]) =
     (addr = MASP \<and> starts_with prefix PIN_KEY_PREFIX)"
| "is_masp_tx_pin_key _ = False"

fun is_masp_nullifier_key :: "key \<Rightarrow> bool" where
  "is_masp_nullifier_key (Key [AddressSeg addr, StringSeg prefix, StringSeg nullifier]) =
     (addr = MASP \<and> prefix = MASP_NULLIFIERS_KEY)"
| "is_masp_nullifier_key _ = False"

section \<open>The recognisers accept exactly the keys that are built\<close>

lemma push_expect_seg:
  "codec_ok c \<Longrightarrow> push_expect c k (seg_raw c (AddressSeg a)) = Some (Key (segments k @ [AddressSeg a]))"
  using seg_parse_raw [of c "AddressSeg a"] by (simp add: push_expect_def key_push_def)

lemma push_expect_string:
  "seg_wf (StringSeg s) \<Longrightarrow> push_expect c k s = Some (Key (segments k @ [StringSeg s]))"
  by (cases s) (auto simp: push_expect_def key_push_def seg_parse_def)

lemmas token_key_consts =
  BALANCE_STORAGE_KEY_def DENOM_STORAGE_KEY_def MINTER_STORAGE_KEY_def MINTED_STORAGE_KEY_def
  KEY_SEGMENT_SEPARATOR_def RESERVED_ADDRESS_PREFIX_def

lemma token_seg_wf:
  "seg_wf (StringSeg BALANCE_STORAGE_KEY)" "seg_wf (StringSeg DENOM_STORAGE_KEY)"
  "seg_wf (StringSeg MINTER_STORAGE_KEY)" "seg_wf (StringSeg MINTED_STORAGE_KEY)"
  by (simp_all add: token_key_consts)

lemma balance_prefix_eq:
  "codec_ok c \<Longrightarrow> balance_prefix c token =
     Some (Key [AddressSeg MULTITOKEN, AddressSeg token, StringSeg BALANCE_STORAGE_KEY])"
  by (simp add: balance_prefix_def address_to_db_key_def push_expect_seg push_expect_string
      token_seg_wf del: seg_raw.simps seg_wf.simps)

lemma balance_key_eq:
  "codec_ok c \<Longrightarrow> balance_key c token owner =
     Some (Key [AddressSeg MULTITOKEN, AddressSeg token, StringSeg BALANCE_STORAGE_KEY, AddressSeg owner])"
  by (simp add: balance_key_def balance_prefix_eq address_to_db_key_def push_expect_seg
      del: seg_raw.simps)

lemma minter_key_eq:
  "codec_ok c \<Longrightarrow> minter_key c token =
     Some (Key [AddressSeg MULTITOKEN, AddressSeg token, StringSeg MINTER_STORAGE_KEY])"
  by (simp add: minter_key_def address_to_db_key_def push_expect_seg push_expect_string token_seg_wf
      del: seg_raw.simps seg_wf.simps)

lemma minted_balance_key_eq:
  "codec_ok c \<Longrightarrow> minted_balance_key c token =
     Some (Key [AddressSeg MULTITOKEN, AddressSeg token, StringSeg BALANCE_STORAGE_KEY,
                StringSeg MINTED_STORAGE_KEY])"
  by (simp add: minted_balance_key_def balance_prefix_eq push_expect_string token_seg_wf
      del: seg_wf.simps)

lemma is_any_token_balance_key_iff:
  "codec_ok c \<Longrightarrow> is_any_token_balance_key k = Some (token, owner) \<longleftrightarrow> balance_key c token owner = Some k"
  by (cases k rule: is_any_token_balance_key.cases) (auto simp: balance_key_eq)

lemma is_any_minter_key_iff:
  "codec_ok c \<Longrightarrow> is_any_minter_key k = Some token \<longleftrightarrow> minter_key c token = Some k"
  by (cases k rule: is_any_minter_key.cases) (auto simp: minter_key_eq)

lemma is_any_minted_balance_key_iff:
  "codec_ok c \<Longrightarrow> is_any_minted_balance_key k = Some token \<longleftrightarrow> minted_balance_key c token = Some k"
  by (cases k rule: is_any_minted_balance_key.cases) (auto simp: minted_balance_key_eq)

lemma is_balance_key_iff:
  "is_balance_key token k = Some owner \<longleftrightarrow> is_any_token_balance_key k = Some (token, owner)"
  by (cases k rule: is_any_token_balance_key.cases) auto

section \<open>Property\<close>

text \<open>(C26) The recognisers of token keys accept exactly the keys that the constructors build: building
  a balance, minter or minted-balance key never panics, and a key is recognised, with its token and
  owner, exactly when it is the key built from them. In particular no key is recognised as two
  different kinds.\<close>

theorem token_keys_exact:
  assumes "codec_ok c"
  shows "(is_any_token_balance_key k = Some (token, owner) \<longleftrightarrow> balance_key c token owner = Some k) \<and>
    (is_balance_key token k = Some owner \<longleftrightarrow> balance_key c token owner = Some k) \<and>
    (is_any_minter_key k = Some token \<longleftrightarrow> minter_key c token = Some k) \<and>
    (is_any_minted_balance_key k = Some token \<longleftrightarrow> minted_balance_key c token = Some k) \<and>
    balance_key c token owner \<noteq> None \<and> minter_key c token \<noteq> None \<and> minted_balance_key c token \<noteq> None"
  using assms
  by (simp add: is_any_token_balance_key_iff is_balance_key_iff is_any_minter_key_iff
      is_any_minted_balance_key_iff) (simp add: balance_key_eq minter_key_eq minted_balance_key_eq)

theorem token_keys_exact_witness:
  "codec_ok hex_codec \<and>
   balance_key hex_codec (Internal PoS) (Internal Pgf) = Some (Key [AddressSeg (Internal Multitoken),
     AddressSeg (Internal PoS), StringSeg ''balance'', AddressSeg (Internal Pgf)])"
  using token_keys_exact [OF hex_codec_ok, of "Key [AddressSeg (Internal Multitoken),
      AddressSeg (Internal PoS), StringSeg ''balance'', AddressSeg (Internal Pgf)]" "Internal PoS" "Internal Pgf"]
  by (simp add: hex_codec_ok BALANCE_STORAGE_KEY_def)

end
