(* ===== verification/Epochs.thy ===== *)
theory Epochs
  imports Prelude
begin

text \<open>
  Epochs and the table of their first blocks (\<open>Epoch\<close> and \<open>Epochs\<close> of
  \<open>core/src/types/storage.rs\<close>). Epochs and block heights are 64-bit words. \<open>+\<close> and \<open>-\<close> on them
  panic on overflow, which is the value \<open>None\<close>.
\<close>

type_synonym epoch = u64
type_synonym block_height = u64

definition epoch_next :: "epoch \<Rightarrow> epoch option" where
  "epoch_next e = checked_add e 1"

definition epoch_prev :: "epoch \<Rightarrow> epoch option" where
  "epoch_prev e = checked_sub e 1"

definition epoch_checked_sub :: "epoch \<Rightarrow> epoch \<Rightarrow> epoch option" where
  "epoch_checked_sub e rhs = (if e < rhs then None else Some (e - rhs))"

definition epoch_sub_or_default :: "epoch \<Rightarrow> epoch \<Rightarrow> epoch" where
  "epoch_sub_or_default e rhs = unwrap_or (epoch_checked_sub e rhs) 0"

definition epoch_iter_range :: "epoch \<Rightarrow> u64 \<Rightarrow> epoch list option" where
  "epoch_iter_range e len =
     map_option (\<lambda>end_ix. map of_nat [unat e ..< unat end_ix]) (checked_add e len)"

definition iter_bounds_inclusive :: "epoch \<Rightarrow> epoch \<Rightarrow> epoch list" where
  "iter_bounds_inclusive s e = map of_nat [unat s ..< Suc (unat e)]"

record epochs =
  first_block_heights :: "block_height list"

definition new_epoch :: "epochs \<Rightarrow> block_height \<Rightarrow> epochs" where
  "new_epoch es h = es\<lparr>first_block_heights := first_block_heights es @ [h]\<rparr>"

text \<open>The loop of \<open>get_epoch\<close>: the inner option is its answer, the outer one a panic of \<open>next\<close>.\<close>

fun get_epoch_loop :: "block_height \<Rightarrow> block_height list \<Rightarrow> epoch \<Rightarrow> epoch option" where
  "get_epoch_loop h [] e = Some e"
| "get_epoch_loop h (next_h # rest) e =
     (if h < next_h then Some e else Option.bind (epoch_next e) (get_epoch_loop h rest))"

definition get_epoch :: "epochs \<Rightarrow> block_height \<Rightarrow> epoch option option" where
  "get_epoch es h =
     (case first_block_heights es of
        [] \<Rightarrow> Some None
      | _ # rest \<Rightarrow> map_option Some (get_epoch_loop h rest 0))"

fun rfind_le :: "block_height \<Rightarrow> block_height list \<Rightarrow> block_height option" where
  "rfind_le h [] = None"
| "rfind_le h (s # rest) = (if s \<le> h then Some s else rfind_le h rest)"

definition get_epoch_start_height :: "epochs \<Rightarrow> block_height \<Rightarrow> block_height option" where
  "get_epoch_start_height es h = rfind_le h (rev (first_block_heights es))"

definition get_start_height_of_epoch :: "epochs \<Rightarrow> epoch \<Rightarrow> block_height option" where
  "get_start_height_of_epoch es e =
     (if unat e > length (first_block_heights es) then None
      else if unat e < length (first_block_heights es)
      then Some (first_block_heights es ! unat e) else None)"

section \<open>Looking up epochs\<close>

definition epochs_wf :: "epochs \<Rightarrow> bool" where
  "epochs_wf es \<longleftrightarrow>
     sorted_wrt (<) (first_block_heights es) \<and> length (first_block_heights es) < 2 ^ 64"

text \<open>The number of epochs after the first that have started at a height.\<close>

definition started :: "block_height \<Rightarrow> block_height list \<Rightarrow> nat" where
  "started h hs = length (takeWhile (\<lambda>s. s \<le> h) hs)"

lemma get_epoch_loop_eq:
  assumes "unat e + length hs < 2 ^ 64"
  shows "get_epoch_loop h hs e = Some (of_nat (unat e + started h hs))"
  using assms
proof (induction hs arbitrary: e)
  case Nil
  show ?case by (simp add: started_def)
next
  case (Cons s hs)
  show ?case
  proof (cases "h < s")
    case True
    then show ?thesis by (simp add: started_def not_le [symmetric])
  next
    case False
    let ?e = "of_nat (Suc (unat e)) :: epoch"
    from Cons.prems have e: "unat ?e = Suc (unat e)"
      by (subst unat_of_nat_lt) simp_all
    then have "epoch_next e = Some ?e" by (simp add: epoch_next_def checked_add_Some)
    with False Cons.IH [of ?e] Cons.prems e show ?thesis by (simp add: started_def not_less [symmetric])
  qed
qed

lemma started_le: "started h hs \<le> length hs"
  by (simp add: started_def length_takeWhile_le)

lemma started_nth: "i < started h hs \<Longrightarrow> hs ! i \<le> h"
  unfolding started_def by (metis nth_mem set_takeWhileD takeWhile_nth)

lemma started_next: "started h hs < length hs \<Longrightarrow> h < hs ! started h hs"
  unfolding started_def using nth_length_takeWhile [of "\<lambda>s. s \<le> h" hs] by (simp add: not_le)

lemma rfind_le_snoc_sorted:
  assumes "sorted_wrt (<) (s # hs)" and "s \<le> h"
  shows "rfind_le h (rev (s # hs)) = Some ((s # hs) ! started h hs)"
  using assms
proof (induction hs rule: rev_induct)
  case Nil
  then show ?case by (simp add: started_def)
next
  case (snoc x hs)
  then have IH: "rfind_le h (rev (s # hs)) = Some ((s # hs) ! started h hs)"
    by (simp add: sorted_wrt_append)
  show ?case
  proof (cases "x \<le> h")
    case True
    with snoc.prems have "\<forall>y \<in> set (hs @ [x]). y \<le> h"
      by (auto simp: sorted_wrt_append)
    then have "takeWhile (\<lambda>s. s \<le> h) (hs @ [x]) = hs @ [x]"
      by (simp only: takeWhile_eq_all_conv)
    then have "started h (hs @ [x]) = Suc (length hs)" by (simp add: started_def)
    with True show ?thesis by (simp add: nth_append)
  next
    case False
    then have "started h (hs @ [x]) = started h hs"
      by (simp add: started_def takeWhile_tail)
    moreover have "(s # hs @ [x]) ! started h hs = (s # hs) ! started h hs"
      using started_le [of h hs] by (cases "started h hs") (simp_all add: nth_append)
    ultimately show ?thesis using False IH by simp
  qed
qed

lemma get_epoch_correct:
  assumes wf: "epochs_wf es" and ne: "first_block_heights es = s # hs" and "s \<le> h"
  obtains e where "get_epoch es h = Some (Some e)"
    and "unat e = started h hs"
    and "get_start_height_of_epoch es e = get_epoch_start_height es h"
    and "get_epoch_start_height es h = Some ((s # hs) ! unat e)"
proof -
  let ?e = "of_nat (started h hs) :: epoch"
  from wf ne have len: "length hs < 2 ^ 64" "Suc (length hs) < 2 ^ 64" by (simp_all add: epochs_wf_def)
  have u: "unat ?e = started h hs"
    by (rule unat_of_nat_lt) (use started_le [of h hs] len in simp)
  have "get_epoch es h = Some (Some ?e)"
    using get_epoch_loop_eq [of 0 hs h] len by (simp add: get_epoch_def ne)
  moreover have start: "get_epoch_start_height es h = Some ((s # hs) ! unat ?e)"
    using wf ne \<open>s \<le> h\<close> rfind_le_snoc_sorted [of s hs h] u
    by (simp add: get_epoch_start_height_def epochs_wf_def)
  moreover have "get_start_height_of_epoch es ?e = get_epoch_start_height es h"
    unfolding start using u started_le [of h hs] by (simp add: get_start_height_of_epoch_def ne)
  ultimately show ?thesis using that u by blast
qed

section \<open>Property\<close>

text \<open>(C21) In a table of epochs with increasing first blocks, every height from the first block on
  belongs to exactly the epoch that the table says: the lookup does not panic, the epoch's first
  block is not after the height, the next epoch (if it is known) starts after the height, and the
  two other lookups agree that this is the epoch's first block.\<close>

theorem epoch_lookup_correct:
  assumes "epochs_wf es" and "first_block_heights es = s # hs" and "s \<le> h"
  shows "\<exists>e start. get_epoch es h = Some (Some e) \<and>
    get_start_height_of_epoch es e = Some start \<and> get_epoch_start_height es h = Some start \<and>
    start \<le> h \<and>
    (\<forall>next. get_start_height_of_epoch es (e + 1) = Some next \<and> unat e + 1 < 2 ^ 64 \<longrightarrow> h < next)"
proof -
  obtain e where e: "get_epoch es h = Some (Some e)" "unat e = started h hs"
      "get_start_height_of_epoch es e = get_epoch_start_height es h"
      "get_epoch_start_height es h = Some ((s # hs) ! unat e)"
    using get_epoch_correct [OF assms] by blast
  have start: "(s # hs) ! unat e \<le> h"
    using started_nth [of "started h hs - 1" h hs] \<open>s \<le> h\<close> e(2)
    by (cases "started h hs") simp_all
  have "h < n" if "get_start_height_of_epoch es (e + 1) = Some n" "unat e + 1 < 2 ^ 64" for n
  proof -
    have "unat (e + 1) = Suc (started h hs)" using that(2) e(2) by (simp add: unat_word_ariths)
    with that(1) show ?thesis
      using started_next [of h hs] by (auto simp: get_start_height_of_epoch_def assms(2) split: if_splits)
  qed
  with e start show ?thesis by auto
qed

theorem epoch_lookup_correct_witness:
  "\<exists>e start. get_epoch \<lparr>first_block_heights = [1, 10, 20]\<rparr> 15 = Some (Some e) \<and>
     get_start_height_of_epoch \<lparr>first_block_heights = [1, 10, 20]\<rparr> e = Some start \<and> start \<le> 15"
  using epoch_lookup_correct [of "\<lparr>first_block_heights = [1, 10, 20]\<rparr>" 1 "[10, 20]" 15]
  by (auto simp: epochs_wf_def)

end
