(* ===== verification/Eth_Events_Queue.thy ===== *)
theory Eth_Events_Queue
  imports Prelude "HOL-Library.Multiset"
begin

text \<open>
  The queue of confirmed Ethereum events (\<open>InnerEthEventsQueue\<close> and its draining iterator,
  \<open>core/src/types/storage.rs\<close>). An event type is given by the function that reads its nonce, a
  256-bit integer. \<open>None\<close> is a panic: a replayed event, a nonce that is already queued, or an
  overflow of the nonce counter.

  The deque's \<open>binary_search_by_key\<close> is modelled by its contract on a sorted deque, which the
  queue's invariant provides: the index of the element with the key, or the index at which an
  element with that key keeps the deque sorted.
\<close>

record 'e eth_queue =
  next_nonce_to_process :: u256
  queue_inner :: "'e list"

definition queue_default :: "'e eth_queue" where
  "queue_default = \<lparr>next_nonce_to_process = 0, queue_inner = []\<rparr>"

definition queue_new_at :: "u256 \<Rightarrow> 'e eth_queue" where
  "queue_new_at n = queue_default\<lparr>next_nonce_to_process := n\<rparr>"

definition peek_event_nonce :: "('e \<Rightarrow> u256) \<Rightarrow> 'e eth_queue \<Rightarrow> u256 option" where
  "peek_event_nonce nonce q = (case queue_inner q of [] \<Rightarrow> None | e # _ \<Rightarrow> Some (nonce e))"

definition pop_event :: "'e eth_queue \<Rightarrow> 'e option \<times> 'e eth_queue" where
  "pop_event q = (case queue_inner q of [] \<Rightarrow> (None, q) | e # es \<Rightarrow> (Some e, q\<lparr>queue_inner := es\<rparr>))"

text \<open>The result of \<open>binary_search_by_key\<close>: \<open>Inr\<close> is found, \<open>Inl\<close> the insertion point.\<close>

definition binary_search :: "('e \<Rightarrow> u256) \<Rightarrow> u256 \<Rightarrow> 'e list \<Rightarrow> nat + nat" where
  "binary_search nonce n es =
     (let i = length (takeWhile (\<lambda>e. nonce e < n) es) in
      if i < length es \<and> nonce (es ! i) = n then Inr i else Inl i)"

definition try_push_event :: "('e \<Rightarrow> u256) \<Rightarrow> 'e eth_queue \<Rightarrow> 'e \<Rightarrow> 'e eth_queue option" where
  "try_push_event nonce q e =
     (case binary_search nonce (nonce e) (queue_inner q) of
        Inl insert_at \<Rightarrow>
          Some (q\<lparr>queue_inner := take insert_at (queue_inner q) @ e # drop insert_at (queue_inner q)\<rparr>)
      | Inr _ \<Rightarrow> None)"

record 'e queue_iter =
  current_nonce :: u256
  iter_queue :: "'e eth_queue"

definition push_and_iter :: "('e \<Rightarrow> u256) \<Rightarrow> 'e eth_queue \<Rightarrow> 'e \<Rightarrow> 'e queue_iter option" where
  "push_and_iter nonce q e =
     (if nonce e < next_nonce_to_process q then None
      else map_option (\<lambda>q'. \<lparr>current_nonce = next_nonce_to_process q', iter_queue = q'\<rparr>)
             (try_push_event nonce q e))"

definition iter_next :: "('e \<Rightarrow> u256) \<Rightarrow> 'e queue_iter \<Rightarrow> ('e option \<times> 'e queue_iter) option" where
  "iter_next nonce it =
     (case peek_event_nonce nonce (iter_queue it) of
        None \<Rightarrow> Some (None, it)
      | Some n \<Rightarrow>
          if n = current_nonce it
          then (case checked_add (current_nonce it) 1 of
                  None \<Rightarrow> None
                | Some c \<Rightarrow>
                    (let (e, q) = pop_event (iter_queue it) in
                     Some (e, it\<lparr>current_nonce := c, iter_queue := q\<rparr>)))
          else Some (None, it))"

definition iter_drop :: "'e queue_iter \<Rightarrow> 'e eth_queue" where
  "iter_drop it =
     (if next_nonce_to_process (iter_queue it) < current_nonce it
      then (iter_queue it)\<lparr>next_nonce_to_process := current_nonce it\<rparr>
      else iter_queue it)"

section \<open>Draining\<close>

text \<open>The \<open>for\<close> loop over the iterator: it ends when \<open>next\<close> gives nothing; every step that gives an
  event takes one from the queue, so the length of the queue bounds the number of steps.\<close>

fun iter_collect :: "nat \<Rightarrow> ('e \<Rightarrow> u256) \<Rightarrow> 'e queue_iter \<Rightarrow> ('e list \<times> 'e queue_iter) option" where
  "iter_collect 0 nonce it = None"
| "iter_collect (Suc fuel) nonce it =
     (case iter_next nonce it of
        None \<Rightarrow> None
      | Some (None, it') \<Rightarrow> Some ([], it')
      | Some (Some e, it') \<Rightarrow> map_option (map_prod ((#) e) id) (iter_collect fuel nonce it'))"

definition process_event :: "('e \<Rightarrow> u256) \<Rightarrow> 'e eth_queue \<Rightarrow> 'e \<Rightarrow> ('e list \<times> 'e eth_queue) option" where
  "process_event nonce q e =
     Option.bind (push_and_iter nonce q e) (\<lambda>it.
       map_option (map_prod id iter_drop)
         (iter_collect (Suc (length (queue_inner (iter_queue it)))) nonce it))"

fun process_events :: "('e \<Rightarrow> u256) \<Rightarrow> 'e eth_queue \<Rightarrow> 'e list \<Rightarrow> ('e list \<times> 'e eth_queue) option" where
  "process_events nonce q [] = Some ([], q)"
| "process_events nonce q (e # es) =
     Option.bind (process_event nonce q e) (\<lambda>(out, q').
       map_option (map_prod ((@) out) id) (process_events nonce q' es))"

section \<open>The queue's invariant\<close>

text \<open>Between two events: the queued events are sorted by nonce, without repetition, and none of
  them is ready to be processed.\<close>

definition queue_inv :: "('e \<Rightarrow> u256) \<Rightarrow> 'e eth_queue \<Rightarrow> bool" where
  "queue_inv nonce q \<longleftrightarrow>
     sorted_wrt (<) (map nonce (queue_inner q)) \<and>
     (\<forall>e \<in> set (queue_inner q). next_nonce_to_process q < nonce e)"

text \<open>The events at the head of a sorted list that have the nonces \<open>n\<close>, \<open>n + 1\<close>, ...\<close>

fun ready_run :: "('e \<Rightarrow> u256) \<Rightarrow> nat \<Rightarrow> 'e list \<Rightarrow> 'e list" where
  "ready_run nonce n [] = []"
| "ready_run nonce n (e # es) = (if unat (nonce e) = n then e # ready_run nonce (Suc n) es else [])"

lemma ready_run_nonces:
  "map (unat \<circ> nonce) (ready_run nonce n es) = [n ..< n + length (ready_run nonce n es)]"
  by (induction nonce n es rule: ready_run.induct) (auto simp: upt_conv_Cons simp del: upt_Suc)

lemma ready_run_append: "ready_run nonce n es @ drop (length (ready_run nonce n es)) es = es"
  by (induction nonce n es rule: ready_run.induct) auto

lemma ready_run_rest:
  assumes "sorted_wrt (<) (map nonce es)" and "\<forall>e \<in> set es. n \<le> unat (nonce e)"
    and "e \<in> set (drop (length (ready_run nonce n es)) es)"
  shows "n + length (ready_run nonce n es) < unat (nonce e)"
  using assms
proof (induction nonce n es rule: ready_run.induct)
  case (2 nonce n x es)
  show ?case
  proof (cases "unat (nonce x) = n")
    case True
    with "2.prems" have "\<forall>e \<in> set es. Suc n \<le> unat (nonce e)"
      by (auto simp: word_less_nat_alt Suc_le_eq)
    with 2 True show ?thesis by simp
  next
    case False
    with "2.prems" have "n < unat (nonce x)" by force
    with "2.prems" False show ?thesis by (auto simp: word_less_nat_alt)
  qed
qed simp

lemma iter_collect_eq:
  assumes "length (queue_inner (iter_queue it)) < fuel"
    and "\<forall>e \<in> set (queue_inner (iter_queue it)). nonce e \<noteq> - 1"
  defines "run \<equiv> ready_run nonce (unat (current_nonce it)) (queue_inner (iter_queue it))"
  shows "iter_collect fuel nonce it =
    Some (run, \<lparr>current_nonce = current_nonce it + of_nat (length run),
                iter_queue = (iter_queue it)\<lparr>queue_inner := drop (length run) (queue_inner (iter_queue it))\<rparr>\<rparr>)"
  using assms(1,2) unfolding run_def
proof (induction fuel arbitrary: it)
  case (Suc fuel)
  show ?case
  proof (cases "queue_inner (iter_queue it)")
    case Nil
    then show ?thesis by (simp add: iter_next_def peek_event_nonce_def)
  next
    case (Cons e es)
    show ?thesis
    proof (cases "nonce e = current_nonce it")
      case True
      let ?c = "current_nonce it + 1"
      have "current_nonce it \<noteq> - 1" using Suc.prems(2) Cons True by auto
      then have c: "unat ?c = Suc (unat (current_nonce it))"
        by (rule unat_plus_one)
      then have "checked_add (current_nonce it) 1 = Some ?c" by (simp add: checked_add_Some)
      with True Cons Suc.prems Suc.IH [of "it\<lparr>current_nonce := ?c,
          iter_queue := (iter_queue it)\<lparr>queue_inner := es\<rparr>\<rparr>"] c
      show ?thesis
        by (simp add: iter_next_def peek_event_nonce_def pop_event_def algebra_simps)
    next
      case False
      then have "unat (nonce e) \<noteq> unat (current_nonce it)" by (simp add: word_unat_eq_iff)
      with False Cons show ?thesis by (simp add: iter_next_def peek_event_nonce_def)
    qed
  qed
qed simp

lemma binary_search_cases:
  assumes "sorted_wrt (<) (map nonce es)"
  shows "case binary_search nonce n es of
      Inr i \<Rightarrow> n \<in> nonce ` set es
    | Inl i \<Rightarrow> n \<notin> nonce ` set es \<and> (\<forall>e \<in> set (take i es). nonce e < n) \<and> (\<forall>e \<in> set (drop i es). n < nonce e)"
proof -
  let ?lo = "takeWhile (\<lambda>e. nonce e < n) es" and ?hi = "dropWhile (\<lambda>e. nonce e < n) es"
  have es: "es = ?lo @ ?hi" by simp
  have lo: "\<forall>e \<in> set ?lo. nonce e < n" using set_takeWhileD by fastforce
  show ?thesis
  proof (cases ?hi)
    case Nil
    with es have lo_es: "?lo = es" by simp
    with lo have "\<forall>e \<in> set es. nonce e < n" by simp
    then show ?thesis by (auto simp: binary_search_def Let_def lo_es)
  next
    case (Cons h hs)
    have h: "\<not> nonce h < n" using Cons by (metis dropWhile_eq_Cons_conv)
    have len: "length ?lo < length es" and nth: "es ! length ?lo = h"
      using Cons es by (metis length_append length_Cons less_add_Suc1 add_Suc_right, metis nth_append_length)
    have sorted: "sorted_wrt (<) (map nonce (?lo @ h # hs))" using assms es Cons by metis
    then have hs: "\<forall>e \<in> set hs. nonce h < nonce e" by (simp add: sorted_wrt_append)
    have tk: "take (length ?lo) es = ?lo" "drop (length ?lo) es = h # hs"
      using es Cons by (metis append_eq_conv_conj)+
    have set_es: "set es = set ?lo \<union> insert h (set hs)" using es Cons by (metis list.simps(15) set_append)
    show ?thesis
    proof (cases "nonce h = n")
      case True
      then show ?thesis using len nth set_es by (auto simp: binary_search_def Let_def)
    next
      case False
      with h have "n < nonce h" by simp
      with hs have hi: "\<forall>e \<in> set (h # hs). n < nonce e" by auto
      then have "n \<notin> nonce ` set es" unfolding set_es using lo by fastforce
      then show ?thesis using False len nth lo hi by (simp add: binary_search_def Let_def tk)
    qed
  qed
qed

lemma try_push_event_cases:
  assumes "sorted_wrt (<) (map nonce (queue_inner q))"
  shows "case try_push_event nonce q e of
      None \<Rightarrow> nonce e \<in> nonce ` set (queue_inner q)
    | Some q' \<Rightarrow> nonce e \<notin> nonce ` set (queue_inner q) \<and>
        next_nonce_to_process q' = next_nonce_to_process q \<and>
        mset (queue_inner q') = add_mset e (mset (queue_inner q)) \<and>
        sorted_wrt (<) (map nonce (queue_inner q'))"
proof (cases "binary_search nonce (nonce e) (queue_inner q)")
  case (Inr i)
  with binary_search_cases [OF assms, of "nonce e"] show ?thesis by (simp add: try_push_event_def)
next
  case (Inl i)
  let ?lo = "take i (queue_inner q)" and ?hi = "drop i (queue_inner q)"
  from Inl binary_search_cases [OF assms, of "nonce e"]
  have new: "nonce e \<notin> nonce ` set (queue_inner q)"
    and lo: "\<forall>x \<in> set ?lo. nonce x < nonce e" and hi: "\<forall>x \<in> set ?hi. nonce e < nonce x" by simp_all
  have "sorted_wrt (<) (map nonce (?lo @ ?hi))" using assms by simp
  then have "sorted_wrt (<) (map nonce (?lo @ e # ?hi))"
    using lo hi unfolding map_append sorted_wrt_append by simp
  moreover have "mset (?lo @ e # ?hi) = add_mset e (mset (queue_inner q))"
    by (metis append_take_drop_id mset.simps(2) mset_append union_mset_add_mset_right)
  ultimately show ?thesis using new Inl by (simp add: try_push_event_def)
qed

text \<open>What one event does to a queue between two events.\<close>

definition event_done :: "('e \<Rightarrow> u256) \<Rightarrow> 'e eth_queue \<Rightarrow> 'e list \<Rightarrow> 'e list \<Rightarrow> 'e eth_queue \<Rightarrow> bool" where
  "event_done nonce q es out q' \<longleftrightarrow>
     queue_inv nonce q' \<and>
     mset out + mset (queue_inner q') = mset es + mset (queue_inner q) \<and>
     map (unat \<circ> nonce) out = [unat (next_nonce_to_process q) ..< unat (next_nonce_to_process q')] \<and>
     next_nonce_to_process q \<le> next_nonce_to_process q'"

lemma length_ready_run_bound:
  assumes "\<forall>e \<in> set es. nonce e \<noteq> - 1" and "n < 2 ^ 256"
  shows "n + length (ready_run nonce n es) < 2 ^ 256"
  using assms
proof (induction nonce n es rule: ready_run.induct)
  case (2 nonce n e es)
  have "Suc n < 2 ^ 256" if "unat (nonce e) = n"
    using unat_plus_one [of "nonce e"] unat_bound [of "nonce e + 1"] "2.prems"(1) that by simp
  with 2 show ?case by simp
qed simp

lemma process_event_done:
  assumes inv: "queue_inv nonce q" and le: "next_nonce_to_process q \<le> nonce e"
    and new: "nonce e \<notin> nonce ` set (queue_inner q)"
    and max: "\<forall>x \<in> set (e # queue_inner q). nonce x \<noteq> - 1"
  shows "\<exists>out q'. process_event nonce q e = Some (out, q') \<and> event_done nonce q [e] out q'"
proof -
  have sorted: "sorted_wrt (<) (map nonce (queue_inner q))" using inv by (simp add: queue_inv_def)
  obtain q1 where q1: "try_push_event nonce q e = Some q1"
      "next_nonce_to_process q1 = next_nonce_to_process q"
      "mset (queue_inner q1) = add_mset e (mset (queue_inner q))"
      "sorted_wrt (<) (map nonce (queue_inner q1))"
    using try_push_event_cases [OF sorted, of e] new
    by (cases "try_push_event nonce q e") auto
  have set1: "set (queue_inner q1) = insert e (set (queue_inner q))"
    using q1(3) by (metis set_mset_add_mset_insert set_mset_mset)
  let ?n = "next_nonce_to_process q" and ?es = "queue_inner q1"
  define run where "run = ready_run nonce (unat ?n) ?es"
  define q' where "q' = q1\<lparr>queue_inner := drop (length run) ?es,
    next_nonce_to_process := ?n + of_nat (length run)\<rparr>"
  have bound: "unat ?n + length run < 2 ^ 256"
    unfolding run_def by (rule length_ready_run_bound) (use max set1 unat_bound [of ?n] in auto)
  then have n': "unat (?n + of_nat (length run)) = unat ?n + length run"
    by (simp add: unat_word_ariths unat_of_nat_lt)
  have "process_event nonce q e = Some (run, q')"
  proof -
    have "iter_drop \<lparr>current_nonce = ?n + of_nat (length run),
        iter_queue = q1\<lparr>queue_inner := drop (length run) ?es\<rparr>\<rparr> = q'"
      using n' q1(2) by (cases "length run") (auto simp: iter_drop_def q'_def word_less_nat_alt)
    moreover have "push_and_iter nonce q e = Some \<lparr>current_nonce = ?n, iter_queue = q1\<rparr>"
      using le q1 by (simp add: push_and_iter_def not_less [symmetric])
    moreover have "\<forall>x \<in> set ?es. nonce x \<noteq> - 1" using max set1 by auto
    ultimately show ?thesis
      by (simp add: process_event_def iter_collect_eq run_def del: iter_collect.simps)
  qed
  moreover have "event_done nonce q [e] run q'"
  proof -
    have ge: "\<forall>x \<in> set ?es. unat ?n \<le> unat (nonce x)"
      using inv le set1 by (auto simp: queue_inv_def word_le_nat_alt word_less_nat_alt)
    have "queue_inv nonce q'"
      unfolding queue_inv_def q'_def using ready_run_rest [OF q1(4) ge] q1(4)
      by (auto simp: run_def [symmetric] n' word_less_nat_alt drop_map [symmetric] sorted_wrt_drop)
    moreover have "mset run + mset (drop (length run) ?es) = mset ?es"
      unfolding run_def by (metis mset_append ready_run_append)
    ultimately show ?thesis
      using q1(3) n' ready_run_nonces [of nonce "unat ?n" ?es, folded run_def]
      by (simp add: event_done_def q'_def word_le_nat_alt)
  qed
  ultimately show ?thesis by blast
qed

lemma event_done_trans:
  assumes "event_done nonce q es out q1" and "event_done nonce q1 es' out' q2"
  shows "event_done nonce q (es @ es') (out @ out') q2"
  using assms unfolding event_done_def
  by (auto simp: word_le_nat_alt upt_append_le ac_simps)

text \<open>The nonces that the queue does not accept any more.\<close>

definition blocked :: "('e \<Rightarrow> u256) \<Rightarrow> 'e eth_queue \<Rightarrow> u256 set" where
  "blocked nonce q = {n. n < next_nonce_to_process q} \<union> nonce ` set (queue_inner q)"

lemma event_done_blocked:
  assumes "event_done nonce q es out q'"
  shows "blocked nonce q' = blocked nonce q \<union> nonce ` set es"
proof -
  let ?n = "next_nonce_to_process q" and ?n' = "next_nonce_to_process q'"
  from assms have out: "(unat \<circ> nonce) ` set out = {unat ?n ..< unat ?n'}" and le: "?n \<le> ?n'"
    by (simp_all only: event_done_def set_map [symmetric] set_upt)
  have sets: "set out \<union> set (queue_inner q') = set es \<union> set (queue_inner q)"
    using assms unfolding event_done_def by (metis set_mset_mset set_mset_union)
  have "nonce ` set out = {x. ?n \<le> x \<and> x < ?n'}"
  proof (intro set_eqI)
    fix x
    have "x \<in> nonce ` set out \<longleftrightarrow> unat x \<in> (unat \<circ> nonce) ` set out"
      by (auto simp: image_iff word_unat_eq_iff)
    then show "x \<in> nonce ` set out \<longleftrightarrow> x \<in> {x. ?n \<le> x \<and> x < ?n'}"
      unfolding out by (simp add: word_le_nat_alt word_less_nat_alt)
  qed
  then have "{x. x < ?n'} = {x. x < ?n} \<union> nonce ` set out"
    using le by (auto simp: not_le [symmetric])
  then show ?thesis
    unfolding blocked_def using sets by (metis (no_types, lifting) Un_assoc Un_commute image_Un)
qed

lemma process_event_blocked:
  assumes "queue_inv nonce q" and "nonce e \<in> blocked nonce q"
  shows "process_event nonce q e = None"
proof (cases "nonce e < next_nonce_to_process q")
  case True
  then show ?thesis by (simp add: process_event_def push_and_iter_def)
next
  case False
  with assms have "nonce e \<in> nonce ` set (queue_inner q)" by (simp add: blocked_def)
  with assms(1) try_push_event_cases [of nonce q e] have "try_push_event nonce q e = None"
    by (cases "try_push_event nonce q e") (auto simp: queue_inv_def)
  with False show ?thesis by (simp add: process_event_def push_and_iter_def)
qed

lemma process_events_cases:
  assumes "queue_inv nonce q" and "\<forall>x \<in> set es \<union> set (queue_inner q). nonce x \<noteq> - 1"
  shows "case process_events nonce q es of
      None \<Rightarrow> \<not> (distinct (map nonce es) \<and> nonce ` set es \<inter> blocked nonce q = {})
    | Some (out, q') \<Rightarrow> distinct (map nonce es) \<and> nonce ` set es \<inter> blocked nonce q = {} \<and>
        event_done nonce q es out q'"
  using assms
proof (induction es arbitrary: q)
  case Nil
  then show ?case by (simp add: event_done_def)
next
  case (Cons e es)
  show ?case
  proof (cases "nonce e \<in> blocked nonce q")
    case True
    with Cons.prems show ?thesis by (simp add: process_event_blocked)
  next
    case False
    then have "next_nonce_to_process q \<le> nonce e" "nonce e \<notin> nonce ` set (queue_inner q)"
      by (simp_all add: blocked_def not_less)
    with Cons.prems process_event_done [of nonce q e] obtain out q1
      where q1: "process_event nonce q e = Some (out, q1)" "event_done nonce q [e] out q1" by auto
    have b: "blocked nonce q1 = insert (nonce e) (blocked nonce q)"
      using event_done_blocked [OF q1(2)] by simp
    have sub: "set (queue_inner q1) \<subseteq> insert e (set (queue_inner q))"
      using q1(2) unfolding event_done_def
      by (metis Un_upper2 empty_set insert_is_Un list.simps(15) set_mset_mset set_mset_union)
    have IH: "case process_events nonce q1 es of
        None \<Rightarrow> \<not> (distinct (map nonce es) \<and> nonce ` set es \<inter> blocked nonce q1 = {})
      | Some (out, q') \<Rightarrow> distinct (map nonce es) \<and> nonce ` set es \<inter> blocked nonce q1 = {} \<and>
          event_done nonce q1 es out q'"
      by (rule Cons.IH) (use q1(2) sub Cons.prems in \<open>auto simp: event_done_def\<close>)
    show ?thesis
      using IH False b q1 event_done_trans [OF q1(2), of es]
      by (auto split: option.splits simp: image_iff)
  qed
qed

lemma queue_inv_new_at: "queue_inv nonce (queue_new_at n)"
  by (simp add: queue_inv_def queue_new_at_def queue_default_def)

section \<open>Property\<close>

text \<open>(C8) Confirmed Ethereum events are processed in the order of their nonces, each exactly once,
  whatever the order of their confirmation. Starting at a nonce, a sequence of confirmed events is
  processed without a panic exactly when no two of them have the same nonce and none is older than
  the start; the events that have come out then have the nonces from the start up to the next one to
  process, without a gap, and the others wait in the queue.\<close>

theorem eth_events_in_order:
  assumes "\<forall>e \<in> set es. nonce e \<noteq> - 1"
  shows "case process_events nonce (queue_new_at n) es of
      None \<Rightarrow> \<not> (distinct (map nonce es) \<and> (\<forall>e \<in> set es. n \<le> nonce e))
    | Some (out, q) \<Rightarrow>
        distinct (map nonce es) \<and> (\<forall>e \<in> set es. n \<le> nonce e) \<and>
        mset out + mset (queue_inner q) = mset es \<and>
        map (unat \<circ> nonce) out = [unat n ..< unat (next_nonce_to_process q)] \<and>
        (\<forall>e \<in> set (queue_inner q). next_nonce_to_process q < nonce e)"
proof -
  have b: "nonce ` set es \<inter> blocked nonce (queue_new_at n) = {} \<longleftrightarrow> (\<forall>e \<in> set es. n \<le> nonce e)"
    by (auto simp: blocked_def queue_new_at_def queue_default_def not_less [symmetric])
  have q: "queue_inner (queue_new_at n) = []" "next_nonce_to_process (queue_new_at n) = n"
    by (simp_all add: queue_new_at_def queue_default_def)
  note cases = process_events_cases [OF queue_inv_new_at [of nonce n], of es]
  show ?thesis
  proof (cases "process_events nonce (queue_new_at n) es")
    case None
    with cases assms show ?thesis unfolding b by (simp add: q)
  next
    case (Some r)
    obtain out q' where r: "r = (out, q')" by (cases r)
    have "distinct (map nonce es)" "\<forall>e \<in> set es. n \<le> nonce e" "event_done nonce (queue_new_at n) es out q'"
      using cases assms unfolding Some r b by (simp_all add: q)
    then show ?thesis unfolding Some r by (simp add: event_done_def queue_inv_def q)
  qed
qed

theorem eth_events_in_order_witness:
  "\<exists>out q. process_events (\<lambda>x. x) (queue_new_at 5) [6, 5, 8] = Some (out, q) \<and>
     mset out + mset (queue_inner q) = mset [6, 5, 8] \<and>
     map unat out = [5 ..< unat (next_nonce_to_process q)]"
proof (cases "process_events (\<lambda>x. x) (queue_new_at 5) [6, 5, 8 :: u256]")
  case None
  with eth_events_in_order [of "[6, 5, 8]" "\<lambda>x. x" 5] show ?thesis by simp
next
  case (Some r)
  obtain out q where "r = (out, q)" by (cases r)
  with Some eth_events_in_order [of "[6, 5, 8]" "\<lambda>x. x" 5] show ?thesis by (simp add: comp_def)
qed

end
