(* ===== verification/Write_Log.thy ===== *)
theory Write_Log
  imports Token_Keys Gas Containers
begin

text \<open>
  The write log (\<open>core/src/ledger/storage/write_log.rs\<close>): the modifications of the current
  transaction, of its precommit bucket and of the block, the replay-protection requests, and the
  generator of established addresses (\<open>core/src/types/address.rs\<close>). An operation of
  \<open>&mut self\<close> returns the new log with its result; a log that was changed before an error is the
  changed log. Gas costs are products of byte lengths and per-byte prices; a byte length is bounded
  by the memory of the machine, so they are natural numbers here, and size differences integers. The
  host functions that charge a cost check that it fits into the 64 bits that the source computes with.
\<close>

datatype write_log_error =
    UpdateTemporaryValue
  | UpdateVpOfNewAccount
  | DeleteVp
  | WriteTempAfterDelete
  | ReplayProtection
  | StorageError string

datatype storage_modification =
    Write (mod_value: bytes)
  | Delete
  | InitAccount (vp_code_hash: bytes)
  | Temp (mod_value: bytes)

datatype reprot_modification = RpWrite | RpDelete | RpFinalize

record ibc_event =
  event_type :: string
  attributes :: "(string, string) hash_map"

text \<open>\<open>Ord\<close> and \<open>PartialOrd\<close> of events compare the types of the events only.\<close>

definition ibc_event_cmp :: "ibc_event \<Rightarrow> ibc_event \<Rightarrow> ordering" where
  "ibc_event_cmp ev other = compare_by (event_type ev) (event_type other)"

definition ibc_event_partial_cmp :: "ibc_event \<Rightarrow> ibc_event \<Rightarrow> ordering option" where
  "ibc_event_partial_cmp ev other = Some (compare_by (event_type ev) (event_type other))"

interpretation ibc: keyed_order ibc_event_cmp event_type
  by unfold_locales (simp add: ibc_event_cmp_def)

section \<open>The generator of established addresses\<close>

record address_gen =
  last_hash :: bytes

definition address_gen_new :: "(bytes \<Rightarrow> bytes) \<Rightarrow> bytes \<Rightarrow> address_gen" where
  "address_gen_new sha seed = \<lparr>last_hash = sha seed\<rparr>"

text \<open>The Borsh form of the generator is its 32 bytes.\<close>

definition generate_address :: "(bytes \<Rightarrow> bytes) \<Rightarrow> address_gen \<Rightarrow> bytes \<Rightarrow> address \<times> address_gen" where
  "generate_address sha gen rng_source =
     (let full_hash = sha (last_hash gen @ rng_source) in
      (Established (take HASH_LEN full_hash), gen\<lparr>last_hash := full_hash\<rparr>))"

section \<open>The log\<close>

type_synonym mods = "(key, storage_modification) hash_map"

text \<open>The IBC events are a \<open>BTreeSet\<close>, which finds its elements by \<open>ibc_event_cmp\<close>.\<close>

record write_log =
  log_address_gen :: "address_gen option"
  block_write_log :: mods
  tx_write_log :: mods
  tx_precommit_write_log :: mods
  ibc_events :: "ibc_event list"
  replay_protection :: "(bytes, reprot_modification) hash_map"

definition write_log_default :: write_log where
  "write_log_default =
     \<lparr>log_address_gen = None, block_write_log = [], tx_write_log = [], tx_precommit_write_log = [],
      ibc_events = [], replay_protection = []\<rparr>"

lemma write_log_default_simps [simp]:
  "log_address_gen write_log_default = None" "block_write_log write_log_default = []"
  "tx_write_log write_log_default = []" "tx_precommit_write_log write_log_default = []"
  "ibc_events write_log_default = []" "replay_protection write_log_default = []"
  by (simp_all add: write_log_default_def)

fun mod_len :: "storage_modification \<Rightarrow> nat" where
  "mod_len (Write v) = length v"
| "mod_len Delete = 0"
| "mod_len (InitAccount h) = length h"
| "mod_len (Temp v) = length v"

definition or_else :: "'a option \<Rightarrow> 'a option \<Rightarrow> 'a option" where
  "or_else a b = (case a of None \<Rightarrow> b | Some _ \<Rightarrow> a)"

lemma or_else_simps [simp]: "or_else None b = b" "or_else (Some x) b = Some x"
  by (simp_all add: or_else_def)

lemma or_else_eq_None [simp]: "or_else a b = None \<longleftrightarrow> a = None \<and> b = None"
  by (cases a) simp_all

definition wl_read :: "addr_codec \<Rightarrow> write_log \<Rightarrow> key \<Rightarrow> storage_modification option \<times> nat" where
  "wl_read c w k =
     (case or_else (or_else (map_of (tx_write_log w) k) (map_of (tx_precommit_write_log w) k))
             (map_of (block_write_log w) k) of
        Some v \<Rightarrow> (Some v, (key_len c k + mod_len v) * unat MEMORY_ACCESS_GAS_PER_BYTE)
      | None \<Rightarrow> (None, key_len c k * unat MEMORY_ACCESS_GAS_PER_BYTE))"

definition wl_read_pre :: "addr_codec \<Rightarrow> write_log \<Rightarrow> key \<Rightarrow> storage_modification option \<times> nat" where
  "wl_read_pre c w k =
     (case map_of (block_write_log w) k of
        Some v \<Rightarrow> (Some v, (key_len c k + mod_len v) * unat MEMORY_ACCESS_GAS_PER_BYTE)
      | None \<Rightarrow> (None, key_len c k * unat MEMORY_ACCESS_GAS_PER_BYTE))"

definition wl_write :: "addr_codec \<Rightarrow> write_log \<Rightarrow> key \<Rightarrow> bytes
    \<Rightarrow> write_log \<times> (write_log_error + nat \<times> int)" where
  "wl_write c w k value =
     (let len = length value;
          gas = (key_len c k + len) * unat STORAGE_WRITE_GAS_PER_BYTE;
          w' = w\<lparr>tx_write_log := hm_insert k (Write value) (tx_write_log w)\<rparr>
      in case map_of (tx_write_log w) k of
           Some (Write prev) \<Rightarrow> (w', Inr (gas, int len - int (length prev)))
         | Some Delete \<Rightarrow> (w', Inr (gas, int len))
         | Some (InitAccount _) \<Rightarrow> (w', Inl UpdateVpOfNewAccount)
         | Some (Temp _) \<Rightarrow> (w', Inl UpdateTemporaryValue)
         | None \<Rightarrow> (w', Inr (gas, int len)))"

definition protocol_write :: "write_log \<Rightarrow> key \<Rightarrow> bytes \<Rightarrow> write_log \<times> (write_log_error + unit)" where
  "protocol_write w k value =
     (let w' = w\<lparr>block_write_log := hm_insert k (Write value) (block_write_log w)\<rparr>
      in case map_of (block_write_log w) k of
           Some (InitAccount _) \<Rightarrow> (w', Inl UpdateVpOfNewAccount)
         | Some (Temp _) \<Rightarrow> (w', Inl UpdateTemporaryValue)
         | _ \<Rightarrow> (w', Inr ()))"

definition wl_write_temp :: "addr_codec \<Rightarrow> write_log \<Rightarrow> key \<Rightarrow> bytes
    \<Rightarrow> write_log \<times> (write_log_error + nat \<times> int)" where
  "wl_write_temp c w k value =
     (let len = length value;
          gas = (key_len c k + len) * unat MEMORY_ACCESS_GAS_PER_BYTE;
          w' = w\<lparr>tx_write_log := hm_insert k (Temp value) (tx_write_log w)\<rparr>
      in case map_of (tx_write_log w) k of
           Some (Write prev) \<Rightarrow> (w', Inr (gas, int len - int (length prev)))
         | Some Delete \<Rightarrow> (w', Inl WriteTempAfterDelete)
         | Some (InitAccount _) \<Rightarrow> (w', Inl UpdateVpOfNewAccount)
         | Some (Temp prev) \<Rightarrow> (w', Inr (gas, int len - int (length prev)))
         | None \<Rightarrow> (w', Inr (gas, int len)))"

definition wl_delete :: "addr_codec \<Rightarrow> write_log \<Rightarrow> key \<Rightarrow> write_log \<times> (write_log_error + nat \<times> int)" where
  "wl_delete c w k =
     (if is_validity_predicate k \<noteq> None then (w, Inl DeleteVp)
      else
        let w' = w\<lparr>tx_write_log := hm_insert k Delete (tx_write_log w)\<rparr>;
            done = (\<lambda>size_diff.
              (w', Inr ((key_len c k + size_diff) * unat STORAGE_WRITE_GAS_PER_BYTE, - int size_diff)))
        in case map_of (tx_write_log w) k of
             Some (Write prev) \<Rightarrow> done (length prev)
           | Some Delete \<Rightarrow> done 0
           | Some (InitAccount _) \<Rightarrow> (w', Inl DeleteVp)
           | Some (Temp prev) \<Rightarrow> done (length prev)
           | None \<Rightarrow> done 0)"

definition protocol_delete :: "write_log \<Rightarrow> key \<Rightarrow> write_log \<times> (write_log_error + unit)" where
  "protocol_delete w k =
     (if is_validity_predicate k \<noteq> None then (w, Inl DeleteVp)
      else
        let w' = w\<lparr>block_write_log := hm_insert k Delete (block_write_log w)\<rparr>
        in case map_of (block_write_log w) k of
             Some (InitAccount _) \<Rightarrow> (w', Inl DeleteVp)
           | _ \<Rightarrow> (w', Inr ()))"

definition ADDRESS_RNG_SOURCE :: bytes where
  "ADDRESS_RNG_SOURCE = map of_char ''TODO more randomness''"

definition init_account :: "(bytes \<Rightarrow> bytes) \<Rightarrow> addr_codec \<Rightarrow> write_log \<Rightarrow> address_gen \<Rightarrow> bytes
    \<Rightarrow> write_log \<times> address \<times> nat" where
  "init_account sha c w storage_address_gen code_hash =
     (let gen = unwrap_or (log_address_gen w) storage_address_gen;
          (addr, gen') = generate_address sha gen ADDRESS_RNG_SOURCE;
          k = validity_predicate_key addr;
          gas = (key_len c k + length code_hash) * unat STORAGE_WRITE_GAS_PER_BYTE
      in (w\<lparr>log_address_gen := Some gen',
            tx_write_log := hm_insert k (InitAccount code_hash) (tx_write_log w)\<rparr>, addr, gas))"

definition emit_ibc_event :: "write_log \<Rightarrow> ibc_event \<Rightarrow> write_log \<times> nat" where
  "emit_ibc_event w ev =
     (let len = fold (\<lambda>(k, v) acc. acc + length k + length v) (attributes ev) 0;
          events = bset_insert ibc_event_cmp ev (ibc_events w)
      in (w\<lparr>ibc_events := events\<rparr>, len * unat MEMORY_ACCESS_GAS_PER_BYTE))"

section \<open>Reading the changes\<close>

definition get_keys :: "write_log \<Rightarrow> key set" where
  "get_keys w = set (map fst (tx_write_log w))"

definition get_keys_with_precommit :: "write_log \<Rightarrow> key set" where
  "get_keys_with_precommit w = set (map fst (tx_precommit_write_log w @ tx_write_log w))"

definition initialized_address :: "key \<times> storage_modification \<Rightarrow> address option" where
  "initialized_address e =
     (case (is_validity_predicate (fst e), snd e) of
        (Some a, InitAccount _) \<Rightarrow> Some a
      | _ \<Rightarrow> None)"

definition get_partitioned_keys :: "write_log \<Rightarrow> key set \<times> address set" where
  "get_partitioned_keys w =
     (set (map fst (filter (\<lambda>e. initialized_address e = None) (tx_write_log w))),
      set (List.map_filter initialized_address (tx_write_log w)))"

definition get_initialized_accounts :: "write_log \<Rightarrow> address list" where
  "get_initialized_accounts w = List.map_filter initialized_address (tx_write_log w)"

definition take_ibc_events :: "write_log \<Rightarrow> write_log \<times> ibc_event list" where
  "take_ibc_events w = (w\<lparr>ibc_events := []\<rparr>, ibc_events w)"

section \<open>Committing and dropping a transaction\<close>

definition precommit_tx :: "write_log \<Rightarrow> write_log" where
  "precommit_tx w =
     w\<lparr>tx_write_log := [],
       tx_precommit_write_log := extend_with hm_insert (tx_precommit_write_log w) (tx_write_log w)\<rparr>"

fun is_temp :: "storage_modification \<Rightarrow> bool" where
  "is_temp (Temp _) = True"
| "is_temp _ = False"

definition commit_tx :: "write_log \<Rightarrow> write_log" where
  "commit_tx w =
     (let w1 = precommit_tx w;
          retained = filter (\<lambda>(k, v). \<not> is_temp v) (tx_precommit_write_log w1);
          w2 = w1\<lparr>tx_precommit_write_log := [],
                 block_write_log := extend_with hm_insert (block_write_log w1) retained\<rparr>
      in fst (take_ibc_events w2))"

definition drop_tx :: "write_log \<Rightarrow> write_log" where
  "drop_tx w = w\<lparr>tx_precommit_write_log := [], tx_write_log := []\<rparr>"

definition drop_tx_keep_precommit :: "write_log \<Rightarrow> write_log" where
  "drop_tx_keep_precommit w = w\<lparr>tx_write_log := []\<rparr>"

section \<open>Verifiers\<close>

definition verifiers_of_key :: "address set \<Rightarrow> address list \<Rightarrow> key \<Rightarrow> address set \<Rightarrow> address set" where
  "verifiers_of_key verifiers_from_tx initialized k verifiers =
     (case is_any_token_balance_key k of
        Some (token, owner) \<Rightarrow>
          (case token of
             Internal (Nut _) \<Rightarrow> {token} | _ \<Rightarrow> {}) \<union> {MULTITOKEN, owner} \<union> verifiers
      | None \<Rightarrow>
          if is_any_minted_balance_key k \<noteq> None \<or> is_any_minter_key k \<noteq> None
          then insert MULTITOKEN verifiers
          else fold (\<lambda>addr vs. if addr \<in> verifiers_from_tx \<or> addr \<in> set initialized then vs
                               else insert addr vs) (iter_addresses k) verifiers)"

definition verifiers_and_changed_keys :: "write_log \<Rightarrow> address set \<Rightarrow> address set \<times> key set" where
  "verifiers_and_changed_keys w verifiers_from_tx =
     (let initialized = get_initialized_accounts w in
      (fold (verifiers_of_key verifiers_from_tx initialized) (map fst (tx_write_log w)) verifiers_from_tx,
       get_keys w))"

section \<open>Prefix iterators\<close>

definition matching :: "addr_codec \<Rightarrow> key \<Rightarrow> mods \<Rightarrow> (string \<times> storage_modification) list" where
  "matching c prefix m =
     map (\<lambda>(k, v). (key_to_string c k, v)) (filter (\<lambda>(k, v). split_prefix k prefix \<noteq> None) m)"

definition wl_iter_prefix_pre :: "addr_codec \<Rightarrow> write_log \<Rightarrow> key
    \<Rightarrow> (string, storage_modification) btree_map" where
  "wl_iter_prefix_pre c w prefix = extend_with bt_insert [] (matching c prefix (block_write_log w))"

definition wl_iter_prefix_post :: "addr_codec \<Rightarrow> write_log \<Rightarrow> key
    \<Rightarrow> (string, storage_modification) btree_map" where
  "wl_iter_prefix_post c w prefix =
     extend_with bt_insert
       (extend_with bt_insert [] (matching c prefix (block_write_log w)))
       (matching c prefix (tx_write_log w))"

section \<open>Replay protection\<close>

definition wl_has_replay_protection_entry :: "write_log \<Rightarrow> bytes \<Rightarrow> bool option" where
  "wl_has_replay_protection_entry w h =
     map_option (\<lambda>action. action \<noteq> RpDelete) (map_of (replay_protection w) h)"

definition wl_write_tx_hash :: "write_log \<Rightarrow> bytes \<Rightarrow> write_log \<times> (write_log_error + unit)" where
  "wl_write_tx_hash w h =
     (w\<lparr>replay_protection := hm_insert h RpWrite (replay_protection w)\<rparr>,
      if map_of (replay_protection w) h \<noteq> None then Inl ReplayProtection else Inr ())"

definition wl_delete_tx_hash :: "write_log \<Rightarrow> bytes \<Rightarrow> write_log \<times> (write_log_error + unit)" where
  "wl_delete_tx_hash w h =
     (w\<lparr>replay_protection := hm_insert h RpDelete (replay_protection w)\<rparr>,
      case map_of (replay_protection w) h of
        None \<Rightarrow> Inr ()
      | Some RpFinalize \<Rightarrow> Inr ()
      | Some _ \<Rightarrow> Inl ReplayProtection)"

definition wl_finalize_tx_hash :: "write_log \<Rightarrow> bytes \<Rightarrow> write_log \<times> (write_log_error + unit)" where
  "wl_finalize_tx_hash w h =
     (w\<lparr>replay_protection := hm_insert h RpFinalize (replay_protection w)\<rparr>,
      if map_of (replay_protection w) h \<noteq> None then Inl ReplayProtection else Inr ())"

section \<open>Operations on a log, and what every reachable log satisfies\<close>

text \<open>The operations that a transaction performs, and those of the protocol around it. An error of
  an operation does not undo its effect on the log.\<close>

datatype tx_op =
    OpWrite key bytes
  | OpWriteTemp key bytes
  | OpDelete key
  | OpInitAccount bytes
  | OpEmit ibc_event

fun tx_op_run :: "(bytes \<Rightarrow> bytes) \<Rightarrow> addr_codec \<Rightarrow> address_gen \<Rightarrow> tx_op \<Rightarrow> write_log \<Rightarrow> write_log" where
  "tx_op_run sha c gen (OpWrite k v) w = fst (wl_write c w k v)"
| "tx_op_run sha c gen (OpWriteTemp k v) w = fst (wl_write_temp c w k v)"
| "tx_op_run sha c gen (OpDelete k) w = fst (wl_delete c w k)"
| "tx_op_run sha c gen (OpInitAccount h) w = fst (init_account sha c w gen h)"
| "tx_op_run sha c gen (OpEmit ev) w = fst (emit_ibc_event w ev)"

inductive wl_step :: "(bytes \<Rightarrow> bytes) \<Rightarrow> addr_codec \<Rightarrow> address_gen \<Rightarrow> write_log \<Rightarrow> write_log \<Rightarrow> bool"
  for sha c gen where
  tx_step: "wl_step sha c gen w (tx_op_run sha c gen op w)"
| protocol_write_step: "wl_step sha c gen w (fst (protocol_write w k v))"
| protocol_delete_step: "wl_step sha c gen w (fst (protocol_delete w k))"
| precommit_step: "wl_step sha c gen w (precommit_tx w)"
| commit_step: "wl_step sha c gen w (commit_tx w)"
| drop_step: "wl_step sha c gen w (drop_tx w)"
| drop_keep_step: "wl_step sha c gen w (drop_tx_keep_precommit w)"
| take_events_step: "wl_step sha c gen w (fst (take_ibc_events w))"
| write_hash_step: "wl_step sha c gen w (fst (wl_write_tx_hash w h))"
| delete_hash_step: "wl_step sha c gen w (fst (wl_delete_tx_hash w h))"
| finalize_hash_step: "wl_step sha c gen w (fst (wl_finalize_tx_hash w h))"
| block_step: "wl_step sha c gen w (w\<lparr>log_address_gen := None, block_write_log := [], replay_protection := []\<rparr>)"

inductive wl_reachable :: "(bytes \<Rightarrow> bytes) \<Rightarrow> addr_codec \<Rightarrow> address_gen \<Rightarrow> write_log \<Rightarrow> bool"
  for sha c gen where
  wl_start: "wl_reachable sha c gen write_log_default"
| wl_next: "wl_reachable sha c gen w \<Longrightarrow> wl_step sha c gen w w' \<Longrightarrow> wl_reachable sha c gen w'"

text \<open>The invariant: distinct keys in every map, no temporary value in the block's log, and an
  account is only initialised at the key of a validity predicate. (A write over a new account's
  predicate is refused, but it has replaced the entry by then.)\<close>

definition mods_ok :: "mods \<Rightarrow> bool" where
  "mods_ok m \<longleftrightarrow> hm_ok m \<and>
     (\<forall>k h. map_of m k = Some (InitAccount h) \<longrightarrow> is_validity_predicate k \<noteq> None)"

definition wl_inv :: "write_log \<Rightarrow> bool" where
  "wl_inv w \<longleftrightarrow>
     mods_ok (block_write_log w) \<and> mods_ok (tx_write_log w) \<and> mods_ok (tx_precommit_write_log w) \<and>
     (\<forall>k v. map_of (block_write_log w) k \<noteq> Some (Temp v)) \<and>
     bset_ok ibc_event_cmp (ibc_events w) \<and> hm_ok (replay_protection w)"

lemma mods_ok_Nil [simp]: "mods_ok []"
  by (simp add: mods_ok_def)

lemma mods_ok_hm: "mods_ok m \<Longrightarrow> hm_ok m"
  by (simp add: mods_ok_def)

lemma mods_ok_insert:
  "mods_ok m \<Longrightarrow> \<forall>h. v = InitAccount h \<longrightarrow> is_validity_predicate k \<noteq> None \<Longrightarrow> mods_ok (hm_insert k v m)"
  by (auto simp: mods_ok_def hm.get_ins hm.ok_ins)

lemma mods_ok_extend: "mods_ok m \<Longrightarrow> mods_ok m' \<Longrightarrow> mods_ok (extend_with hm_insert m m')"
  by (auto simp: mods_ok_def hm.get_extend hm.ok_extend split: option.splits)

lemma mods_ok_filter: "mods_ok m \<Longrightarrow> mods_ok (filter (\<lambda>(k, v). P k v) m)"
  by (auto simp: mods_ok_def map_of_filter_val hm_ok_filter split: option.splits if_splits)

lemma retained_no_temp:
  "hm_ok m \<Longrightarrow> map_of (filter (\<lambda>(k, v). \<not> is_temp v) m) k \<noteq> Some (Temp v)"
  by (auto simp: map_of_filter_val split: option.splits if_splits)

lemma insert_no_temp:
  "\<not> is_temp x \<Longrightarrow> \<forall>k v. map_of m k \<noteq> Some (Temp v) \<Longrightarrow> \<forall>k v. map_of (hm_insert k' x m) k \<noteq> Some (Temp v)"
  by (auto simp: update_conv' split: if_splits)

lemma validity_predicate_key_inj [simp]: "validity_predicate_key a = validity_predicate_key b \<longleftrightarrow> a = b"
  by (simp add: validity_predicate_key_def)

lemma is_validity_predicate_key [simp]: "is_validity_predicate (validity_predicate_key a) = Some a"
  by (simp add: is_validity_predicate_iff)

lemma emit_ibc_event_ok:
  "bset_ok ibc_event_cmp (ibc_events w) \<Longrightarrow> bset_ok ibc_event_cmp (ibc_events (fst (emit_ibc_event w ev)))"
  by (simp add: emit_ibc_event_def Let_def ibc.bset_insert_ok)

lemma wl_inv_update:
  assumes "wl_inv w"
  shows "mods_ok t \<Longrightarrow> wl_inv (w\<lparr>tx_write_log := t\<rparr>)"
    and "mods_ok p \<Longrightarrow> wl_inv (w\<lparr>tx_precommit_write_log := p\<rparr>)"
    and "mods_ok b \<Longrightarrow> \<forall>k v. map_of b k \<noteq> Some (Temp v) \<Longrightarrow> wl_inv (w\<lparr>block_write_log := b\<rparr>)"
    and "bset_ok ibc_event_cmp es \<Longrightarrow> wl_inv (w\<lparr>ibc_events := es\<rparr>)"
    and "hm_ok r \<Longrightarrow> wl_inv (w\<lparr>replay_protection := r\<rparr>)"
    and "wl_inv (w\<lparr>log_address_gen := g\<rparr>)"
  using assms by (simp_all add: wl_inv_def)

lemma wl_inv_D:
  assumes "wl_inv w"
  shows "mods_ok (block_write_log w)" "mods_ok (tx_write_log w)" "mods_ok (tx_precommit_write_log w)"
    "map_of (block_write_log w) k \<noteq> Some (Temp v)" "bset_ok ibc_event_cmp (ibc_events w)" "hm_ok (replay_protection w)"
  using assms by (simp_all add: wl_inv_def)

text \<open>The log after an operation of a transaction, errors included: only the transaction's part of
  it changes.\<close>

lemma tx_op_log:
  obtains t g es where "tx_op_run sha c gen op w =
      w\<lparr>tx_write_log := t, log_address_gen := g, ibc_events := es\<rparr>"
    and "wl_inv w \<Longrightarrow> mods_ok t" and "wl_inv w \<Longrightarrow> bset_ok ibc_event_cmp es"
proof (cases op)
  case (OpWrite k v)
  have "tx_op_run sha c gen op w = w\<lparr>tx_write_log := hm_insert k (Write v) (tx_write_log w),
      log_address_gen := log_address_gen w, ibc_events := ibc_events w\<rparr>"
    by (simp add: OpWrite wl_write_def Let_def split: option.split storage_modification.split)
  then show ?thesis by (rule that) (simp_all add: mods_ok_insert wl_inv_D)
next
  case (OpWriteTemp k v)
  have "tx_op_run sha c gen op w = w\<lparr>tx_write_log := hm_insert k (Temp v) (tx_write_log w),
      log_address_gen := log_address_gen w, ibc_events := ibc_events w\<rparr>"
    by (simp add: OpWriteTemp wl_write_temp_def Let_def split: option.split storage_modification.split)
  then show ?thesis by (rule that) (simp_all add: mods_ok_insert wl_inv_D)
next
  case (OpDelete k)
  have "tx_op_run sha c gen op w =
      w\<lparr>tx_write_log := if is_validity_predicate k \<noteq> None then tx_write_log w
          else hm_insert k Delete (tx_write_log w),
        log_address_gen := log_address_gen w, ibc_events := ibc_events w\<rparr>"
    by (simp add: OpDelete wl_delete_def Let_def split: option.split storage_modification.split)
  then show ?thesis by (rule that) (simp_all add: mods_ok_insert wl_inv_D)
next
  case (OpInitAccount h)
  obtain a g where ag: "generate_address sha (unwrap_or (log_address_gen w) gen) ADDRESS_RNG_SOURCE = (a, g)"
    by fastforce
  have "tx_op_run sha c gen op w =
      w\<lparr>tx_write_log := hm_insert (validity_predicate_key a) (InitAccount h) (tx_write_log w),
        log_address_gen := Some g, ibc_events := ibc_events w\<rparr>"
    by (simp add: OpInitAccount init_account_def Let_def ag)
  then show ?thesis by (rule that) (simp_all add: mods_ok_insert wl_inv_D)
next
  case (OpEmit ev)
  have "tx_op_run sha c gen op w = w\<lparr>tx_write_log := tx_write_log w,
      log_address_gen := log_address_gen w, ibc_events := ibc_events (fst (emit_ibc_event w ev))\<rparr>"
    by (simp add: OpEmit emit_ibc_event_def Let_def)
  then show ?thesis by (rule that) (simp_all add: wl_inv_D emit_ibc_event_ok)
qed

lemma wl_inv_default: "wl_inv write_log_default"
  by (simp add: wl_inv_def write_log_default_def)

lemma wl_inv_tx_op: "wl_inv w \<Longrightarrow> wl_inv (tx_op_run sha c gen op w)"
  by (rule tx_op_log [of sha c gen op w]) (simp add: wl_inv_update)

lemma wl_inv_precommit: "wl_inv w \<Longrightarrow> wl_inv (precommit_tx w)"
  by (simp add: precommit_tx_def wl_inv_update mods_ok_extend wl_inv_D)

lemma commit_tx_block:
  assumes "wl_inv w"
  shows "map_of (block_write_log (commit_tx w)) k =
    (case or_else (map_of (tx_write_log w) k) (map_of (tx_precommit_write_log w) k) of
       Some v \<Rightarrow> if is_temp v then map_of (block_write_log w) k else Some v
     | None \<Rightarrow> map_of (block_write_log w) k)"
proof -
  let ?p = "extend_with hm_insert (tx_precommit_write_log w) (tx_write_log w)"
  have ok: "hm_ok (block_write_log w)" "hm_ok (tx_write_log w)" "hm_ok (tx_precommit_write_log w)" "hm_ok ?p"
    using assms by (simp_all add: wl_inv_D mods_ok_hm hm.ok_extend)
  have "map_of (block_write_log (commit_tx w)) k =
      (case map_of (filter (\<lambda>(k, v). \<not> is_temp v) ?p) k of
         None \<Rightarrow> map_of (block_write_log w) k | Some v \<Rightarrow> Some v)"
    using ok by (simp add: commit_tx_def Let_def precommit_tx_def take_ibc_events_def hm.get_extend hm_ok_filter)
  moreover have "map_of ?p k = or_else (map_of (tx_write_log w) k) (map_of (tx_precommit_write_log w) k)"
    using ok by (simp add: hm.get_extend or_else_def split: option.split)
  ultimately show ?thesis
    using ok(4) by (simp add: map_of_filter_val split: option.split)
qed

lemma wl_inv_commit:
  assumes "wl_inv w"
  shows "wl_inv (commit_tx w)"
proof -
  let ?p = "extend_with hm_insert (tx_precommit_write_log w) (tx_write_log w)"
  let ?b = "extend_with hm_insert (block_write_log w) (filter (\<lambda>(k, v). \<not> is_temp v) ?p)"
  have w': "commit_tx w = w\<lparr>tx_write_log := [], tx_precommit_write_log := [], block_write_log := ?b, ibc_events := []\<rparr>"
    by (simp add: commit_tx_def Let_def precommit_tx_def take_ibc_events_def)
  have "map_of ?b k \<noteq> Some (Temp v)" for k v
    using commit_tx_block [OF assms, of k] wl_inv_D(4) [OF assms]
    by (auto simp: w' split: option.splits if_splits)
  moreover have "mods_ok ?b" using assms by (simp add: mods_ok_extend mods_ok_filter wl_inv_D)
  ultimately show ?thesis unfolding w' using assms by (intro wl_inv_update) simp_all
qed

lemma wl_inv_step: "wl_step sha c gen w w' \<Longrightarrow> wl_inv w \<Longrightarrow> wl_inv w'"
proof (induction rule: wl_step.induct)
  case (protocol_write_step w k v)
  have "fst (protocol_write w k v) = w\<lparr>block_write_log := hm_insert k (Write v) (block_write_log w)\<rparr>"
    by (simp add: protocol_write_def Let_def split: option.split storage_modification.split)
  then show ?case using protocol_write_step
    by (simp only:) (intro wl_inv_update(3) mods_ok_insert insert_no_temp, simp_all add: wl_inv_D)
next
  case (protocol_delete_step w k)
  have "fst (protocol_delete w k) = (if is_validity_predicate k \<noteq> None then w
      else w\<lparr>block_write_log := hm_insert k Delete (block_write_log w)\<rparr>)"
    by (simp add: protocol_delete_def Let_def split: option.split storage_modification.split)
  moreover have "wl_inv (w\<lparr>block_write_log := hm_insert k Delete (block_write_log w)\<rparr>)"
    using protocol_delete_step
    by (intro wl_inv_update(3) mods_ok_insert insert_no_temp) (simp_all add: wl_inv_D)
  ultimately show ?case using protocol_delete_step by simp
qed (simp_all add: wl_inv_tx_op wl_inv_precommit wl_inv_commit wl_inv_update wl_inv_D drop_tx_def
    drop_tx_keep_precommit_def take_ibc_events_def wl_write_tx_hash_def wl_delete_tx_hash_def
    wl_finalize_tx_hash_def hm.ok_ins)

lemma wl_reachable_inv: "wl_reachable sha c gen w \<Longrightarrow> wl_inv w"
  by (induction rule: wl_reachable.induct) (auto intro: wl_inv_default wl_inv_step)

section \<open>Transactions are atomic\<close>

lemma wl_read_fst:
  "fst (wl_read c w k) =
     or_else (or_else (map_of (tx_write_log w) k) (map_of (tx_precommit_write_log w) k))
       (map_of (block_write_log w) k)"
  by (simp add: wl_read_def split: option.split)

lemma wl_read_pre_fst: "fst (wl_read_pre c w k) = map_of (block_write_log w) k"
  by (simp add: wl_read_pre_def split: option.split)

definition run_tx_ops :: "(bytes \<Rightarrow> bytes) \<Rightarrow> addr_codec \<Rightarrow> address_gen \<Rightarrow> tx_op list \<Rightarrow> write_log \<Rightarrow> write_log" where
  "run_tx_ops sha c gen ops w = fold (tx_op_run sha c gen) ops w"

lemma run_tx_ops_frame:
  "block_write_log (run_tx_ops sha c gen ops w) = block_write_log w"
  "tx_precommit_write_log (run_tx_ops sha c gen ops w) = tx_precommit_write_log w"
  "replay_protection (run_tx_ops sha c gen ops w) = replay_protection w"
proof -
  have step: "block_write_log (tx_op_run sha c gen op w) = block_write_log w"
    "tx_precommit_write_log (tx_op_run sha c gen op w) = tx_precommit_write_log w"
    "replay_protection (tx_op_run sha c gen op w) = replay_protection w" for op w
    by (rule tx_op_log [of sha c gen op w], simp)+
  show "block_write_log (run_tx_ops sha c gen ops w) = block_write_log w"
    "tx_precommit_write_log (run_tx_ops sha c gen ops w) = tx_precommit_write_log w"
    "replay_protection (run_tx_ops sha c gen ops w) = replay_protection w"
    by (induction ops arbitrary: w) (simp_all add: run_tx_ops_def step)
qed

lemma wl_inv_run: "wl_inv w \<Longrightarrow> wl_inv (run_tx_ops sha c gen ops w)"
  by (induction ops arbitrary: w) (simp_all add: run_tx_ops_def wl_inv_tx_op)

lemma commit_tx_read:
  assumes "wl_inv w"
  shows "fst (wl_read c (commit_tx w) k) =
    (case fst (wl_read c w k) of
       Some (Temp v) \<Rightarrow> fst (wl_read_pre c w k)
     | m \<Rightarrow> m)"
proof -
  have logs: "tx_write_log (commit_tx w) = []" "tx_precommit_write_log (commit_tx w) = []"
    by (simp_all add: commit_tx_def Let_def precommit_tx_def take_ibc_events_def)
  show ?thesis
    using wl_inv_D(4) [OF assms, of k]
    by (simp add: wl_read_fst wl_read_pre_fst logs commit_tx_block [OF assms] or_else_def
        split: option.split storage_modification.split)
qed

lemma drop_tx_read: "fst (wl_read c (drop_tx w) k) = fst (wl_read_pre c w k)"
  by (simp add: wl_read_fst wl_read_pre_fst drop_tx_def)

section \<open>Every changed key has its verifiers\<close>

text \<open>The addresses that must verify a change of a key, when the accounts in \<open>known\<close> are
  verifiers already or have been created by the transaction.\<close>

definition responsible :: "address set \<Rightarrow> key \<Rightarrow> address set" where
  "responsible known k =
     (case is_any_token_balance_key k of
        Some (token, owner) \<Rightarrow> (if \<exists>h. token = Internal (Nut h) then {token} else {}) \<union> {MULTITOKEN, owner}
      | None \<Rightarrow>
          if is_any_minted_balance_key k \<noteq> None \<or> is_any_minter_key k \<noteq> None then {MULTITOKEN}
          else set (iter_addresses k) - known)"

lemma fold_insert_unless:
  "fold (\<lambda>a vs. if P a then vs else insert a vs) as vs = {a \<in> set as. \<not> P a} \<union> vs"
  by (induction as arbitrary: vs) auto

lemma verifiers_of_key_eq:
  "verifiers_of_key from_tx initialized k vs = responsible (from_tx \<union> set initialized) k \<union> vs"
proof (cases "is_any_token_balance_key k")
  case None
  then show ?thesis
    by (auto simp: verifiers_of_key_def responsible_def fold_insert_unless)
next
  case (Some p)
  obtain token owner where p: "p = (token, owner)" by (cases p)
  have "(case token of Internal (Nut _) \<Rightarrow> {token} | _ \<Rightarrow> {}) =
      (if \<exists>h. token = Internal (Nut h) then {token} else {})"
    by (auto split: address.split internal_address.split)
  with Some p show ?thesis by (simp add: verifiers_of_key_def responsible_def)
qed

lemma verifiers_and_changed_keys_eq:
  "verifiers_and_changed_keys w from_tx =
     (from_tx \<union> (\<Union>k \<in> get_keys w. responsible (from_tx \<union> set (get_initialized_accounts w)) k), get_keys w)"
proof -
  have "fold (verifiers_of_key from_tx ini) ks vs =
      vs \<union> (\<Union>k \<in> set ks. responsible (from_tx \<union> set ini) k)" for ini ks vs
    by (induction ks arbitrary: vs) (auto simp: verifiers_of_key_eq)
  then show ?thesis by (simp add: verifiers_and_changed_keys_def Let_def get_keys_def)
qed

lemma get_initialized_accounts_iff:
  assumes "hm_ok (tx_write_log w)"
  shows "a \<in> set (get_initialized_accounts w) \<longleftrightarrow>
    (\<exists>h. map_of (tx_write_log w) (validity_predicate_key a) = Some (InitAccount h))"
proof -
  have "initialized_address (k, v) = Some a \<longleftrightarrow> k = validity_predicate_key a \<and> (\<exists>h. v = InitAccount h)" for k v
    by (auto simp: initialized_address_def is_validity_predicate_iff
        split: option.split storage_modification.split)
  then have "a \<in> set (get_initialized_accounts w) \<longleftrightarrow>
      (\<exists>h. (validity_predicate_key a, InitAccount h) \<in> set (tx_write_log w))"
    by (auto simp: get_initialized_accounts_def mem_map_filter)
  then show ?thesis using assms by (simp add: map_of_eq_Some_iff)
qed

section \<open>The prefix iterators list the matching modifications\<close>

text \<open>The keys of a log, restricted to keys that are printed unambiguously.\<close>

definition mods_wf :: "mods \<Rightarrow> bool" where
  "mods_wf m \<longleftrightarrow> hm_ok m \<and> list_all (\<lambda>(k, v). key_wf k) m"

lemma key_to_string_inj:
  "codec_ok c \<Longrightarrow> key_wf k \<Longrightarrow> key_wf k' \<Longrightarrow> key_to_string c k = key_to_string c k' \<longleftrightarrow> k = k'"
  by (metis key_parse_to_string sum.inject(2))

lemma matching_simps [simp]:
  "matching c prefix [] = []"
  "matching c prefix ((k, v) # m) =
     (if split_prefix k prefix \<noteq> None then (key_to_string c k, v) # matching c prefix m
      else matching c prefix m)"
  by (simp_all add: matching_def)

lemma matching_keys: "fst ` set (matching c prefix m) \<subseteq> key_to_string c ` fst ` set m"
  by (force simp: matching_def)

lemma matching_other:
  assumes "mods_wf m" and "\<nexists>k. key_wf k \<and> s = key_to_string c k"
  shows "map_of (matching c prefix m) s = None"
proof -
  have "s \<notin> key_to_string c ` fst ` set m" using assms by (fastforce simp: mods_wf_def list_all_iff)
  then show ?thesis using matching_keys [of c prefix m] by (auto simp: map_of_eq_None_iff)
qed

lemma mods_wf_Cons:
  "mods_wf ((k, v) # m) \<longleftrightarrow> key_wf k \<and> k \<notin> fst ` set m \<and> mods_wf m"
  by (auto simp: mods_wf_def)

lemma matching_distinct:
  assumes c: "codec_ok c" and "mods_wf m"
  shows "hm_ok (matching c prefix m)"
  using assms(2)
proof (induction m)
  case (Cons e m)
  obtain k0 v0 where e: "e = (k0, v0)" by (cases e)
  have m: "mods_wf m" and k0: "key_wf k0" "k0 \<notin> fst ` set m" and wf: "\<forall>k \<in> fst ` set m. key_wf k"
    using Cons.prems by (auto simp: mods_wf_def e list_all_iff)
  have "key_to_string c k0 \<notin> key_to_string c ` fst ` set m"
    using k0 wf key_to_string_inj [OF c] by fastforce
  then have "key_to_string c k0 \<notin> fst ` set (matching c prefix m)"
    using matching_keys [of c prefix m] by blast
  with Cons.IH [OF m] show ?case by (simp add: e)
qed simp

lemma matching_lookup:
  assumes c: "codec_ok c" and "mods_wf m" and k: "key_wf k"
  shows "map_of (matching c prefix m) (key_to_string c k) =
      (if split_prefix k prefix \<noteq> None then map_of m k else None)"
  using assms(2)
proof (induction m)
  case (Cons e m)
  obtain k0 v0 where e: "e = (k0, v0)" by (cases e)
  from Cons.prems have m: "mods_wf m" "key_wf k0" "map_of m k0 = None"
    by (simp_all add: mods_wf_Cons e map_of_eq_None_iff)
  with Cons.IH [OF m(1)] k show ?case by (auto simp: e key_to_string_inj [OF c])
qed simp

lemma iter_prefix_pre_lookup:
  assumes "codec_ok c" and "mods_wf (block_write_log w)"
  shows "bt_ok (wl_iter_prefix_pre c w prefix)"
    and "key_wf k \<Longrightarrow> map_of (wl_iter_prefix_pre c w prefix) (key_to_string c k) =
      (if split_prefix k prefix \<noteq> None then fst (wl_read_pre c w k) else None)"
    and "(\<nexists>k. key_wf k \<and> s = key_to_string c k) \<Longrightarrow> map_of (wl_iter_prefix_pre c w prefix) s = None"
  using matching_distinct [OF assms] matching_lookup [OF assms] matching_other [OF assms(2)]
  by (simp_all add: wl_iter_prefix_pre_def bt_ok_from_list map_of_from_list wl_read_pre_fst)

lemma iter_prefix_post_lookup:
  assumes "codec_ok c" and "mods_wf (block_write_log w)" and "mods_wf (tx_write_log w)"
  shows "bt_ok (wl_iter_prefix_post c w prefix)"
    and "key_wf k \<Longrightarrow> map_of (wl_iter_prefix_post c w prefix) (key_to_string c k) =
      (if split_prefix k prefix \<noteq> None
       then or_else (map_of (tx_write_log w) k) (map_of (block_write_log w) k) else None)"
    and "(\<nexists>k. key_wf k \<and> s = key_to_string c k) \<Longrightarrow> map_of (wl_iter_prefix_post c w prefix) s = None"
  using matching_distinct [OF assms(1,2)] matching_lookup [OF assms(1,2)] matching_other [OF assms(2)]
    matching_distinct [OF assms(1,3)] matching_lookup [OF assms(1,3)] matching_other [OF assms(3)]
  by (simp_all add: wl_iter_prefix_post_def bt.ok_extend bt_ok_from_list bt.get_extend
      map_of_from_list or_else_def split: option.split)

section \<open>Properties\<close>

text \<open>(C6) Transactions are atomic. Whatever a transaction writes, deletes, initialises or emits, and
  whichever of its operations fail, values before the transaction are read unchanged; dropping it
  makes every key read as before, and committing it makes every key read as the transaction left it,
  except that a temporary value disappears and the value before the transaction is read again.\<close>

theorem transactions_are_atomic:
  fixes ops :: "tx_op list"
  assumes "wl_reachable sha c gen w" and "tx_write_log w = []" and "tx_precommit_write_log w = []"
  defines "w' \<equiv> run_tx_ops sha c gen ops w"
  shows "fst (wl_read_pre c w' k) = fst (wl_read_pre c w k) \<and>
    fst (wl_read c (drop_tx w') k) = fst (wl_read c w k) \<and>
    fst (wl_read c (commit_tx w') k) =
      (case fst (wl_read c w' k) of Some (Temp v) \<Rightarrow> fst (wl_read c w k) | m \<Rightarrow> m)"
proof -
  have inv: "wl_inv w'" unfolding w'_def using assms(1) by (simp add: wl_inv_run wl_reachable_inv)
  have pre: "fst (wl_read_pre c w' k) = fst (wl_read_pre c w k)"
    by (simp add: w'_def wl_read_pre_fst run_tx_ops_frame)
  have start: "fst (wl_read_pre c w k) = fst (wl_read c w k)"
    by (simp add: wl_read_pre_fst wl_read_fst assms(2,3))
  show ?thesis
    using commit_tx_read [OF inv, of c k, unfolded pre start]
    by (intro conjI) (simp_all only: pre start drop_tx_read)
qed

theorem transactions_are_atomic_witness:
  "wl_reachable id hex_codec \<lparr>last_hash = []\<rparr> write_log_default \<and>
   fst (wl_read hex_codec (commit_tx (run_tx_ops id hex_codec \<lparr>last_hash = []\<rparr>
     [OpWrite (Key [StringSeg ''a'']) [1], OpWriteTemp (Key [StringSeg ''b'']) [2]] write_log_default))
     (Key [StringSeg ''b''])) = None"
  using transactions_are_atomic [where sha = id and c = hex_codec and gen = "\<lparr>last_hash = []\<rparr>"
      and w = write_log_default and k = "Key [StringSeg ''b'']"
      and ops = "[OpWrite (Key [StringSeg ''a'']) [1], OpWriteTemp (Key [StringSeg ''b'']) [2]]"]
  by (simp add: wl_start  run_tx_ops_def wl_write_def wl_write_temp_def wl_read_fst)

text \<open>(C16) Every reachable write log satisfies its invariant: the block's log never holds a temporary
  value, so that protocol writes are never refused for one, and an account is only ever initialised
  at the key of a validity predicate; a protocol write then fails exactly for an account that the
  block has initialised.\<close>

theorem reachable_log_invariant:
  assumes "wl_reachable sha c gen w"
  shows "map_of (block_write_log w) k \<noteq> Some (Temp v) \<and>
    (map_of (block_write_log w) k = Some (InitAccount h) \<longrightarrow> (\<exists>a. k = validity_predicate_key a)) \<and>
    (snd (protocol_write w k v) = Inr () \<longleftrightarrow> (\<nexists>h. map_of (block_write_log w) k = Some (InitAccount h)))"
proof -
  have inv: "wl_inv w" by (rule wl_reachable_inv [OF assms])
  have "\<exists>a. k = validity_predicate_key a" if init: "map_of (block_write_log w) k = Some (InitAccount h)"
  proof -
    obtain a where "is_validity_predicate k = Some a"
      using wl_inv_D(1) [OF inv] init unfolding mods_ok_def by blast
    then show ?thesis by (auto simp: is_validity_predicate_iff)
  qed
  moreover have "snd (protocol_write w k v) = Inr () \<longleftrightarrow> (\<nexists>h. map_of (block_write_log w) k = Some (InitAccount h))"
    using wl_inv_D(4) [OF inv, of k]
    by (simp add: protocol_write_def Let_def split: option.split storage_modification.split)
  ultimately show ?thesis using wl_inv_D(4) [OF inv, of k v] by blast
qed

theorem reachable_log_invariant_witness:
  "wl_reachable id hex_codec \<lparr>last_hash = []\<rparr> write_log_default \<and>
   snd (protocol_write write_log_default (Key [StringSeg ''a'']) [1]) = Inr ()"
  using wl_start [of id hex_codec "\<lparr>last_hash = []\<rparr>"] reachable_log_invariant [of id hex_codec "\<lparr>last_hash = []\<rparr>" write_log_default "Key [StringSeg ''a'']" "[1]"]
  by (simp add: wl_start)

text \<open>(C7) Every change of a transaction is put before the validity predicates that are responsible
  for it. The verifiers contain those the transaction asked for; for a changed balance they contain
  its owner and the multitoken account, and the token only if it is a non-usable token (NUT); for a
  minter or a minted balance they contain the multitoken account alone; and for any other changed key
  every address in it that was not created by the transaction. Nobody else is made a verifier,
  whatever the order in which the keys are visited. So not every address of a changed key is a
  verifier, as the documentation of the function says.\<close>

theorem changes_are_verified:
  assumes "wl_reachable sha c gen w"
  defines "created \<equiv> {a. \<exists>h. map_of (tx_write_log w) (validity_predicate_key a) = Some (InitAccount h)}"
  shows "fst (verifiers_and_changed_keys w from_tx) =
      from_tx \<union> (\<Union>k \<in> dom (map_of (tx_write_log w)).
        case is_any_token_balance_key k of
          Some (token, owner) \<Rightarrow> (if \<exists>h. token = Internal (Nut h) then {token} else {}) \<union> {MULTITOKEN, owner}
        | None \<Rightarrow>
            if is_any_minted_balance_key k \<noteq> None \<or> is_any_minter_key k \<noteq> None then {MULTITOKEN}
            else set (iter_addresses k) - (from_tx \<union> created)) \<and>
    snd (verifiers_and_changed_keys w from_tx) = dom (map_of (tx_write_log w))"
proof -
  have "hm_ok (tx_write_log w)" using wl_reachable_inv [OF assms(1)] by (simp add: wl_inv_D mods_ok_hm)
  then have "set (get_initialized_accounts w) = created"
    unfolding created_def using get_initialized_accounts_iff [of w] by blast
  moreover have "get_keys w = dom (map_of (tx_write_log w))"
    by (simp add: get_keys_def dom_map_of_conv_image_fst)
  ultimately show ?thesis
    unfolding verifiers_and_changed_keys_eq by (simp only: responsible_def [abs_def] fst_conv snd_conv simp_thms)
qed

theorem changes_are_verified_witness:
  "snd (verifiers_and_changed_keys (fst (wl_write hex_codec write_log_default
      (Key [AddressSeg (Internal PoS), StringSeg ''a'']) [1])) {}) = {Key [AddressSeg (Internal PoS), StringSeg ''a'']} \<and>
   fst (verifiers_and_changed_keys (fst (wl_write hex_codec write_log_default
      (Key [AddressSeg (Internal PoS), StringSeg ''a'']) [1])) {}) = {Internal PoS}"
proof -
  let ?k = "Key [AddressSeg (Internal PoS), StringSeg ''a'']"
  let ?w = "fst (wl_write hex_codec write_log_default ?k [1])"
  have "wl_reachable id hex_codec \<lparr>last_hash = []\<rparr> ?w"
    using wl_next [OF wl_start tx_step, of id hex_codec "\<lparr>last_hash = []\<rparr>" "OpWrite ?k [1]"] by simp
  from changes_are_verified [OF this, of "{}"] show ?thesis
    by (simp add: wl_write_def  iter_addresses_def List.map_filter_simps
        validity_predicate_key_def RESERVED_VP_KEY_def)
qed

lemma fold_emit_ibc_event:
  "fst (fold (\<lambda>ev (w, gas). map_prod id ((+) gas) (emit_ibc_event w ev)) evs (w, n))
     = w\<lparr>ibc_events := fold (bset_insert ibc_event_cmp) evs (ibc_events w)\<rparr>"
  by (induction evs arbitrary: w n) (simp_all add: emit_ibc_event_def Let_def)

lemma fold_emit_gas:
  "snd (fold (\<lambda>ev (w, gas). map_prod id ((+) gas) (emit_ibc_event w ev)) evs (w, n))
     = n + (\<Sum>ev \<leftarrow> evs. snd (emit_ibc_event w0 ev))"
  by (induction evs arbitrary: w n) (simp_all add: emit_ibc_event_def Let_def)

text \<open>(C40) Of the IBC events of a type that a transaction emits only the first is recorded, because the
  set of events finds its elements by the order of the events, which compares their types. Whatever
  the sequence of emitted events, the set then holds, sorted by type, exactly the first event of each
  type among those it held before and those emitted, while the gas of every event is charged.\<close>

theorem only_first_ibc_event_of_a_type:
  assumes "wl_reachable sha c gen w"
    and "fold (\<lambda>ev (w, gas). map_prod id ((+) gas) (emit_ibc_event w ev)) evs (w, 0) = (w', gas)"
  shows "set (ibc_events w') = {ev. find (\<lambda>e. event_type e = event_type ev) (ibc_events w @ evs) = Some ev} \<and>
    sorted_wrt (<) (map event_type (ibc_events w')) \<and>
    gas = (\<Sum>ev \<leftarrow> evs. snd (emit_ibc_event write_log_default ev))"
proof -
  have ok: "bset_ok ibc_event_cmp (ibc_events w)" using wl_reachable_inv [OF assms(1)] by (rule wl_inv_D)
  have w': "ibc_events w' = fold (bset_insert ibc_event_cmp) evs (ibc_events w)"
    using fold_emit_ibc_event [of evs w 0] assms(2) by simp
  have "bset_ok ibc_event_cmp (fold (bset_insert ibc_event_cmp) es xs)" if "bset_ok ibc_event_cmp xs" for es xs
    using that by (induction es arbitrary: xs) (simp_all add: ibc.bset_insert_ok)
  then have "sorted_wrt (<) (map event_type (ibc_events w'))"
    using ok unfolding w' ibc.bset_ok_keys [symmetric] by blast
  then show ?thesis
    using ibc.bset_insert_first [OF ok, of evs] fold_emit_gas [of evs w 0 write_log_default] assms(2) w' by simp
qed

theorem only_first_ibc_event_of_a_type_witness:
  "let send = (\<lambda>n. \<lparr>event_type = ''send'', attributes = [(''n'', n)]\<rparr>); recv = \<lparr>event_type = ''recv'', attributes = []\<rparr>
   in set (ibc_events (fst (fold (\<lambda>ev (w, gas). map_prod id ((+) gas) (emit_ibc_event w ev))
          [send ''1'', recv, send ''2''] (write_log_default, 0)))) = {send ''1'', recv}"
proof -
  let ?evs = "[\<lparr>event_type = ''send'', attributes = [(''n'', ''1'')]\<rparr>, \<lparr>event_type = ''recv'', attributes = []\<rparr>,
      \<lparr>event_type = ''send'', attributes = [(''n'', ''2'')]\<rparr>]"
  obtain w' gas where f: "fold (\<lambda>ev (w, gas). map_prod id ((+) gas) (emit_ibc_event w ev)) ?evs (write_log_default, 0) = (w', gas)"
    by (meson surj_pair)
  have "set (ibc_events w') = {ev. find (\<lambda>e. event_type e = event_type ev) (ibc_events write_log_default @ ?evs) = Some ev}"
    using only_first_ibc_event_of_a_type
      [of id hex_codec "\<lparr>last_hash = []\<rparr>" write_log_default ?evs w' gas, OF wl_start f] by (rule conjunct1)
  also have "\<dots> = {?evs ! 0, ?evs ! 1}"
  proof (rule set_eqI)
    fix x :: ibc_event
    have "''send'' = event_type x \<Longrightarrow> ''recv'' \<noteq> event_type x" by (drule sym) simp
    then show "x \<in> {ev. find (\<lambda>e. event_type e = event_type ev) (ibc_events write_log_default @ ?evs) = Some ev}
        \<longleftrightarrow> x \<in> {?evs ! 0, ?evs ! 1}" by auto
  qed
  finally show ?thesis unfolding Let_def f by simp
qed

end
