(* ===== verification/Block_Time.thy ===== *)
theory Block_Time
  imports Prelude
begin

text \<open>
  Times and durations (\<open>core/src/types/time.rs\<close>). A \<open>DateTimeUtc\<close> wraps the date and time of the
  \<open>chrono\<close> crate, which is given by its nanoseconds since the Unix epoch; \<open>DurationSecs\<close> is a number of
  seconds. The conversions and operators of the crate are collected in \<open>chrono\<close>, with \<open>None\<close> for a value
  out of their range; \<open>chrono_ok\<close> says that they are exact where they return.
\<close>

type_synonym date_time = int
type_synonym duration_secs = u64

record chrono =
  duration_from_std :: "u64 \<Rightarrow> int option"
  date_time_plus :: "date_time \<Rightarrow> int \<Rightarrow> date_time option"
  date_time_minus :: "date_time \<Rightarrow> int \<Rightarrow> date_time option"

definition chrono_ok :: "chrono \<Rightarrow> bool" where
  "chrono_ok C \<longleftrightarrow>
     (\<forall>n d. duration_from_std C n = Some d \<longrightarrow> d = uint n * 10 ^ 9) \<and>
     (\<forall>t d u. date_time_plus C t d = Some u \<longrightarrow> u = t + d) \<and>
     (\<forall>t d u. date_time_minus C t d = Some u \<longrightarrow> u = t - d)"

text \<open>\<open>impl Add<DurationSecs> for DateTimeUtc\<close>: both the conversion of the duration, through \<open>expect\<close>, and
  the addition panic out of range.\<close>

definition add_secs :: "chrono \<Rightarrow> date_time \<Rightarrow> duration_secs \<Rightarrow> date_time option" where
  "add_secs C t duration = do { duration_chrono \<leftarrow> duration_from_std C duration; date_time_plus C t duration_chrono }"

definition add_duration :: "chrono \<Rightarrow> date_time \<Rightarrow> int \<Rightarrow> date_time option" where
  "add_duration C t rhs = date_time_plus C t rhs"

definition sub_duration :: "chrono \<Rightarrow> date_time \<Rightarrow> int \<Rightarrow> date_time option" where
  "sub_duration C t rhs = date_time_minus C t rhs"

definition duration_passed :: "chrono \<Rightarrow> date_time \<Rightarrow> date_time \<Rightarrow> duration_secs \<Rightarrow> bool option" where
  "duration_passed C current start duration = map_option (\<lambda>t. t \<le> current) (add_secs C start duration)"

definition next_second :: "chrono \<Rightarrow> date_time \<Rightarrow> date_time option" where
  "next_second C t = add_secs C t 0"

lemma add_secs_exact: "chrono_ok C \<Longrightarrow> add_secs C t n = Some u \<Longrightarrow> u = t + uint n * 10 ^ 9"
  by (auto simp: add_secs_def chrono_ok_def bind_eq_Some_conv)

lemma duration_passed_exact:
  "chrono_ok C \<Longrightarrow> duration_passed C current start n = Some b \<Longrightarrow> b \<longleftrightarrow> start + uint n * 10 ^ 9 \<le> current"
  by (auto simp: duration_passed_def dest: add_secs_exact)

text \<open>The next second is the same instant.\<close>

lemma next_second_same: "chrono_ok C \<Longrightarrow> next_second C t = Some u \<Longrightarrow> u = t"
  by (auto simp: next_second_def dest: add_secs_exact)

text \<open>An instance with the range of durations of the crate, a signed 64-bit number of milliseconds, and a
  range of dates of 262000 years.\<close>

definition plain_chrono :: chrono where
  "plain_chrono =
     (let in_dates = (\<lambda>t :: int. if \<bar>t\<bar> < 262000 * 365 * 24 * 3600 * 10 ^ 9 then Some t else None)
      in \<lparr>duration_from_std = (\<lambda>n. if uint n * 1000 < 2 ^ 63 then Some (uint n * 10 ^ 9) else None),
          date_time_plus = (\<lambda>t d. in_dates (t + d)), date_time_minus = (\<lambda>t d. in_dates (t - d))\<rparr>)"

lemma plain_chrono_ok: "chrono_ok plain_chrono"
  by (simp add: chrono_ok_def plain_chrono_def Let_def)

end
