(* ===== verification/Wl_Storage.thy ===== *)
theory Wl_Storage
  imports Write_Log Epochs Block_Time
begin

text \<open>
  Storage with a write log (\<open>core/src/ledger/storage/wl_storage.rs\<close>) over the storage and its
  database (\<open>core/src/ledger/storage/mod.rs\<close>, \<open>core/src/ledger/storage/mockdb.rs\<close>): reading through
  the log, the merged prefix iterator, committing a block's log to the database, replay protection
  and the switch to a new epoch.

  Library code is collected in \<open>storage_env\<close>: the address codec, the textual forms of block heights
  and of hashes, and the operations of the Merkle tree, which may fail. The database is the
  in-memory one: a map sorted by strings, in which the keys of accounts live under \<open>subspace\<close>,
  transaction hashes under \<open>replay_protection\<close> and the differences of a block under its height.
\<close>

record 't tree_ops =
  tree_update :: "'t \<Rightarrow> key \<Rightarrow> bytes \<Rightarrow> string + 't"
  tree_delete :: "'t \<Rightarrow> key \<Rightarrow> string + 't"
  tree_has_key :: "'t \<Rightarrow> key \<Rightarrow> string + bool"

record 't storage_env =
  env_codec :: addr_codec
  env_height_raw :: "block_height \<Rightarrow> string"
  env_hash_string :: "bytes \<Rightarrow> string"
  env_tree :: "'t tree_ops"

datatype db_error = DBError string | MerkleTreeError string

section \<open>The database\<close>

type_synonym mock_db = "(string, bytes) btree_map"

text \<open>The keys that \<open>Key::parse\<close> gives for the literals \<open>subspace\<close> and \<open>replay_protection\<close>.\<close>

definition subspace_prefix :: key where "subspace_prefix = Key [StringSeg ''subspace'']"
definition replay_prefix :: key where "replay_prefix = Key [StringSeg ''replay_protection'']"

lemma parse_db_prefixes:
  "key_parse c ''subspace'' = Inr subspace_prefix"
  "key_parse c ''replay_protection'' = Inr replay_prefix"
  by (simp_all add: key_parse_def KEY_SEGMENT_SEPARATOR_def RESERVED_ADDRESS_PREFIX_def seg_parse_def
      subspace_prefix_def replay_prefix_def)

definition subspace_string :: "addr_codec \<Rightarrow> key \<Rightarrow> string" where
  "subspace_string c k = key_to_string c (key_join subspace_prefix k)"

definition read_subspace_val :: "addr_codec \<Rightarrow> mock_db \<Rightarrow> key \<Rightarrow> bytes option" where
  "read_subspace_val c db k = map_of db (subspace_string c k)"










text \<open>\<open>iter_prefix\<close>: the entries whose key starts with the printed prefix and a separator.\<close>

definition strip_prefix :: "string \<Rightarrow> string \<Rightarrow> string option" where
  "strip_prefix p s = (if starts_with s p then Some (drop (length p) s) else None)"

definition db_iter_prefix :: "addr_codec \<Rightarrow> mock_db \<Rightarrow> key \<Rightarrow> (string \<times> bytes) list" where
  "db_iter_prefix c db prefix =
     (let stripped = ''subspace/'';
          full = stripped @ (if prefix = Key [] then key_to_string c prefix
                             else key_to_string c prefix @ [KEY_SEGMENT_SEPARATOR])
      in List.map_filter (\<lambda>(s, v). map_option (\<lambda>s'. (s', v)) (strip_prefix stripped s))
           (filter (\<lambda>(s, v). starts_with s full) db))"

section \<open>Storage\<close>

record 't storage =
  st_db :: mock_db
  st_tree :: 't
  st_height :: block_height
  st_epoch :: epoch
  st_pred_epochs :: epochs
  st_last_epoch :: epoch
  next_epoch_min_start_height :: block_height
  next_epoch_min_start_time :: date_time
  st_address_gen :: address_gen
  update_epoch_blocks_delay :: "u32 option"




definition st_has_key :: "'t storage_env \<Rightarrow> 't storage \<Rightarrow> key \<Rightarrow> db_error + bool \<times> nat" where
  "st_has_key env st k =
     (case tree_has_key (env_tree env) (st_tree st) k of
        Inl e \<Rightarrow> Inl (MerkleTreeError e)
      | Inr b \<Rightarrow> Inr (b, key_len (env_codec env) k * unat STORAGE_ACCESS_GAS_PER_BYTE))"

definition st_read :: "'t storage_env \<Rightarrow> 't storage \<Rightarrow> key \<Rightarrow> db_error + bytes option \<times> nat" where
  "st_read env st k =
     res_bind (st_has_key env st k) (\<lambda>(present, gas).
       if \<not> present then Inr (None, gas)
       else (case read_subspace_val (env_codec env) (st_db st) k of
               Some v \<Rightarrow>
                 Inr (Some v, (key_len (env_codec env) k + length v) * unat STORAGE_ACCESS_GAS_PER_BYTE)
             | None \<Rightarrow> Inr (None, key_len (env_codec env) k * unat STORAGE_ACCESS_GAS_PER_BYTE)))"



definition begin_block :: "'t storage \<Rightarrow> block_height \<Rightarrow> 't storage" where
  "begin_block st h = st\<lparr>st_height := h\<rparr>"

section \<open>Committing the log of a block\<close>






section \<open>Reading through the log\<close>

record 't wl_storage =
  wls_log :: write_log
  wls_storage :: "'t storage"

fun mod_bytes :: "storage_modification \<Rightarrow> bytes option" where
  "mod_bytes (Write v) = Some v"
| "mod_bytes Delete = None"
| "mod_bytes (InitAccount h) = Some h"
| "mod_bytes (Temp v) = Some v"

definition read_bytes :: "'t storage_env \<Rightarrow> 't wl_storage \<Rightarrow> key \<Rightarrow> bytes option" where
  "read_bytes env s k =
     (case fst (wl_read (env_codec env) (wls_log s) k) of
        Some m \<Rightarrow> mod_bytes m
      | None \<Rightarrow> read_subspace_val (env_codec env) (st_db (wls_storage s)) k)"

definition wls_has_key :: "'t storage_env \<Rightarrow> 't wl_storage \<Rightarrow> key \<Rightarrow> db_error + bool" where
  "wls_has_key env s k =
     (case fst (wl_read (env_codec env) (wls_log s) k) of
        Some Delete \<Rightarrow> Inr False
      | Some _ \<Rightarrow> Inr True
      | None \<Rightarrow> map_sum id fst (st_has_key env (wls_storage s) k))"

definition write_bytes :: "'t wl_storage \<Rightarrow> key \<Rightarrow> bytes \<Rightarrow> 't wl_storage" where
  "write_bytes s k v = s\<lparr>wls_log := fst (protocol_write (wls_log s) k v)\<rparr>"

definition delete_bytes :: "'t wl_storage \<Rightarrow> key \<Rightarrow> 't wl_storage" where
  "delete_bytes s k = s\<lparr>wls_log := fst (protocol_delete (wls_log s) k)\<rparr>"


section \<open>The merged prefix iterator\<close>

text \<open>\<open>PrefixIter::next\<close> until it returns \<open>None\<close>: the entries of the storage iterator and of the log
  iterator, both sorted by key, in one sorted sequence. An entry of the log hides the entry of the
  storage with the same key, and a deletion gives no item.\<close>

function merge_iter :: "(string \<times> bytes) list \<Rightarrow> (string \<times> storage_modification) list
    \<Rightarrow> (string \<times> bytes) list" where
  "merge_iter [] [] = []"
| "merge_iter [] ((wk, m) # wl) =
     (case mod_bytes m of Some v \<Rightarrow> (wk, v) # merge_iter [] wl | None \<Rightarrow> merge_iter [] wl)"
| "merge_iter ((sk, sv) # st) [] = (sk, sv) # merge_iter st []"
| "merge_iter ((sk, sv) # st) ((wk, m) # wl) =
     (if wk \<le> sk
      then (let st' = if wk = sk then st else (sk, sv) # st
            in case mod_bytes m of Some v \<Rightarrow> (wk, v) # merge_iter st' wl | None \<Rightarrow> merge_iter st' wl)
      else (sk, sv) # merge_iter st ((wk, m) # wl))"
  by pat_completeness auto
termination by (relation "measure (\<lambda>(st, wl). length st + length wl)") auto

definition iter_prefix_pre :: "'t storage_env \<Rightarrow> 't wl_storage \<Rightarrow> key \<Rightarrow> (string \<times> bytes) list" where
  "iter_prefix_pre env s prefix =
     merge_iter (db_iter_prefix (env_codec env) (st_db (wls_storage s)) prefix)
       (wl_iter_prefix_pre (env_codec env) (wls_log s) prefix)"

definition iter_prefix_post :: "'t storage_env \<Rightarrow> 't wl_storage \<Rightarrow> key \<Rightarrow> (string \<times> bytes) list" where
  "iter_prefix_post env s prefix =
     merge_iter (db_iter_prefix (env_codec env) (st_db (wls_storage s)) prefix)
       (wl_iter_prefix_post (env_codec env) (wls_log s) prefix)"

section \<open>Switching to a new epoch\<close>

definition EPOCH_SWITCH_BLOCKS_DELAY :: u32 where "EPOCH_SWITCH_BLOCKS_DELAY = 2"

record epoch_duration =
  min_num_of_blocks :: u64
  min_duration :: duration_secs

text \<open>\<open>update_epoch\<close> with the epoch duration of the protocol parameters. \<open>None\<close> is a panic of the
  arithmetic on epochs, heights or times.\<close>

definition update_epoch :: "chrono \<Rightarrow> epoch_duration \<Rightarrow> 't storage \<Rightarrow> block_height \<Rightarrow> date_time
    \<Rightarrow> ('t storage \<times> bool) option" where
  "update_epoch C dur st height time =
     do { st1 \<leftarrow> (case update_epoch_blocks_delay st of
                    None \<Rightarrow>
                      Some (if next_epoch_min_start_height st \<le> height
                               \<and> next_epoch_min_start_time st \<le> time
                            then st\<lparr>update_epoch_blocks_delay := Some EPOCH_SWITCH_BLOCKS_DELAY\<rparr>
                            else st)
                  | Some n \<Rightarrow>
                      map_option (\<lambda>n'. st\<lparr>update_epoch_blocks_delay := Some n'\<rparr>) (checked_sub n 1));
          if update_epoch_blocks_delay st1 = Some 0
          then do { e \<leftarrow> epoch_next (st_epoch st1);
                    h \<leftarrow> checked_add height (min_num_of_blocks dur);
                    t \<leftarrow> add_secs C time (min_duration dur);
                    Some (st1\<lparr>update_epoch_blocks_delay := None,
                              st_epoch := e,
                              next_epoch_min_start_height := h,
                              next_epoch_min_start_time := t,
                              st_pred_epochs := new_epoch (st_pred_epochs st1) height\<rparr>, True) }
          else Some (st1, False) }"

section \<open>The merged iterator is the log over the storage\<close>

lemma merge_iter_item: "(k, v) \<in> set (merge_iter st wl) \<Longrightarrow> k \<in> fst ` set st \<union> fst ` set wl"
  by (induction st wl rule: merge_iter.induct) (auto simp: Let_def split: option.splits if_splits)

lemma merge_iter_keys: "x \<in> fst ` set (merge_iter st wl) \<Longrightarrow> x \<in> fst ` set st \<union> fst ` set wl"
  using merge_iter_item by fastforce

lemma merge_iter_Nil: "merge_iter st [] = st"
  by (induction st) auto

lemma merge_iter_correct:
  assumes "bt_ok st" and "bt_ok wl"
  shows "bt_ok (merge_iter st wl) \<and>
    map_of (merge_iter st wl) s = (case map_of wl s of Some m \<Rightarrow> mod_bytes m | None \<Rightarrow> map_of st s)"
  using assms
proof (induction st wl rule: merge_iter.induct)
  case (2 wk m wl)
  have lt: "\<forall>x \<in> fst ` set (merge_iter [] wl). wk < x"
    using merge_iter_keys [of _ "[]" wl] "2.prems"(2) by fastforce
  have none: "map_of wl wk = None" using "2.prems"(2) by (auto simp: map_of_eq_None_iff)
  show ?case
  proof (cases "mod_bytes m")
    case None
    with 2 none show ?thesis by (auto split: option.split)
  next
    case (Some v)
    with 2 lt show ?thesis by (auto split: option.split)
  qed
next
  case (4 sk sv st wk m wl)
  let ?st = "if wk = sk then st else (sk, sv) # st"
  show ?case
  proof (cases "wk \<le> sk")
    case True
    have ok: "bt_ok ?st" "bt_ok wl" using "4.prems" by auto
    have lt: "\<forall>x \<in> fst ` set (merge_iter ?st wl). wk < x"
      using merge_iter_keys [of _ ?st wl] "4.prems" True by (fastforce split: if_splits)
    have none: "map_of wl wk = None" "wk = sk \<Longrightarrow> map_of st wk = None"
      using "4.prems" by (auto simp: map_of_eq_None_iff)
    have st: "s \<noteq> wk \<Longrightarrow> map_of ?st s = map_of ((sk, sv) # st) s" by auto
    have wk: "map_of ?st wk = None"
      using True none(2) "4.prems"(1) by (auto simp: map_of_eq_None_iff)
    show ?thesis
    proof (cases "mod_bytes m")
      case None
      with "4.IH"(1) [OF True refl None ok] True none wk st show ?thesis
        by (auto simp: Let_def split: option.split)
    next
      case (Some v)
      with "4.IH"(2) [OF True refl Some ok] True lt st show ?thesis
        by (auto simp: Let_def split: option.split)
    qed
  next
    case False
    then have "sk < wk" by simp
    have ok: "bt_ok st" "bt_ok ((wk, m) # wl)" using "4.prems" by auto
    have lt: "\<forall>x \<in> fst ` set (merge_iter st ((wk, m) # wl)). sk < x"
      using merge_iter_keys [of _ st "(wk, m) # wl"] "4.prems" \<open>sk < wk\<close> by fastforce
    have "map_of ((wk, m) # wl) sk = None"
      using "4.prems" \<open>sk < wk\<close> by (auto simp: map_of_eq_None_iff)
    with "4.IH"(3) [OF False ok] False lt show ?thesis
      by (auto split: option.split if_splits)
  qed
qed (auto simp: merge_iter_Nil)

section \<open>The database as a map from keys\<close>

text \<open>What the code relies on of the library: decoding inverts encoding, heights and hashes are
  printed as plain segments, heights are not printed like one of the other two name spaces, and
  different hashes are printed differently.\<close>

definition env_ok :: "'t storage_env \<Rightarrow> bool" where
  "env_ok env \<longleftrightarrow>
     codec_ok (env_codec env) \<and>
     (\<forall>h. seg_wf (StringSeg (env_height_raw env h)) \<and>
          env_height_raw env h \<notin> {''subspace'', ''replay_protection''}) \<and>
     (\<forall>h. seg_wf (StringSeg (env_hash_string env h))) \<and>
     inj (env_hash_string env)"



lemma env_ok_codec: "env_ok env \<Longrightarrow> codec_ok (env_codec env)"
  by (simp add: env_ok_def)














section \<open>Committing a block\<close>




















section \<open>The prefix iterator lists the readable keys\<close>

lemma starts_with_iff: "starts_with s p \<longleftrightarrow> (\<exists>t. s = p @ t)"
  by (auto simp: starts_with_def) (metis append_take_drop_id)

lemma append_less_append: "xs @ ys < xs @ (zs :: 'a::linorder list) \<longleftrightarrow> ys < zs"
  by (induction xs) auto

lemma join_with_append:
  "xs \<noteq> [] \<Longrightarrow> ys \<noteq> [] \<Longrightarrow> join_with sep (xs @ ys) = join_with sep xs @ sep # join_with sep ys"
proof (induction sep xs rule: join_with.induct)
  case (2 sep w)
  then show ?case by (cases ys) auto
qed auto

lemma split_on_join_append:
  "xs \<noteq> [] \<Longrightarrow> \<forall>w \<in> set xs. sep \<notin> set w \<Longrightarrow>
   split_on sep (join_with sep xs @ sep # t) = xs @ split_on sep t"
  by (induction sep xs rule: join_with.induct) (simp_all add: split_on_append)

lemma seg_raw_inj: "codec_ok c \<Longrightarrow> seg_wf a \<Longrightarrow> seg_wf b \<Longrightarrow> seg_raw c a = seg_raw c b \<Longrightarrow> a = b"
  by (metis seg_parse_raw sum.inject(2))

lemma map_seg_raw_inj:
  "codec_ok c \<Longrightarrow> list_all seg_wf xs \<Longrightarrow> list_all seg_wf ys \<Longrightarrow>
   map (seg_raw c) xs = map (seg_raw c) ys \<Longrightarrow> xs = ys"
proof (induction xs arbitrary: ys)
  case (Cons x xs)
  then show ?case by (cases ys) (auto dest: seg_raw_inj)
qed simp

lemma split_prefix_strict: "(\<exists>s. segments s \<noteq> [] \<and> k = key_join p s) \<longleftrightarrow> k \<noteq> p \<and> split_prefix k p \<noteq> None"
proof (cases "split_prefix k p")
  case None
  then show ?thesis using split_prefix_cases(3) [of k p] by blast
next
  case (Some r)
  show ?thesis
  proof (cases r)
    case None
    with Some have "k = p" using split_prefix_cases(1) by blast
    moreover have "segments s = []" if "p = key_join p s" for s
      using that by (cases p) (simp add: key_join_def)
    ultimately show ?thesis by metis
  next
    case (Some s)
    with \<open>split_prefix k p = Some r\<close> have eq: "split_prefix k p = Some (Some s)" by simp
    then have "k \<noteq> p" using split_prefix_cases(1) [of k p] by simp
    moreover have "segments s \<noteq> [] \<and> k = key_join p s" using eq split_prefix_cases(2) [of k p s] by simp
    ultimately show ?thesis using eq by blast
  qed
qed

text \<open>The string that the entries below a prefix start with.\<close>

definition below :: "addr_codec \<Rightarrow> key \<Rightarrow> string" where
  "below c p = (if p = Key [] then key_to_string c p else key_to_string c p @ [KEY_SEGMENT_SEPARATOR])"

lemma starts_with_below:
  assumes c: "codec_ok c" and k: "key_wf k" and p: "key_wf p \<or> p = Key []"
  shows "starts_with (key_to_string c k) (below c p) \<longleftrightarrow> k \<noteq> p \<and> split_prefix k p \<noteq> None"
proof (cases "p = Key []")
  case True
  then have "k \<noteq> p" and "k = key_join p k" using k by (auto simp: key_wf_def key_join_def)
  then have "split_prefix k p \<noteq> None" using split_prefix_cases(3) by blast
  with True \<open>k \<noteq> p\<close> show ?thesis by (simp add: below_def key_to_string_def starts_with_def)
next
  case False
  with p have p: "list_all seg_wf (segments p)" "segments p \<noteq> []" by (simp_all add: key_wf_def)
  let ?sep = KEY_SEGMENT_SEPARATOR and ?raw = "map (seg_raw c)"
  have sep: "list_all seg_wf ss \<Longrightarrow> \<forall>w \<in> set (?raw ss). ?sep \<notin> set w" for ss
    using seg_parse_raw [OF c] by (auto simp: list_all_iff)
  have "starts_with (key_to_string c k) (below c p) \<longleftrightarrow> (\<exists>s. segments s \<noteq> [] \<and> k = key_join p s)"
  proof
    assume "starts_with (key_to_string c k) (below c p)"
    then obtain t where t: "join_with ?sep (?raw (segments k)) = join_with ?sep (?raw (segments p)) @ ?sep # t"
      using False by (auto simp: starts_with_iff below_def key_to_string_def)
    have "?raw (segments k) = split_on ?sep (join_with ?sep (?raw (segments k)))"
      using k sep by (subst split_on_join) (auto simp: key_wf_def)
    also have "\<dots> = ?raw (segments p) @ split_on ?sep t"
      unfolding t using p sep by (intro split_on_join_append) auto
    finally have raw: "?raw (segments k) = ?raw (segments p) @ split_on ?sep t" .
    let ?n = "length (segments p)"
    have "?raw (take ?n (segments k)) = ?raw (segments p)"
      using arg_cong [OF raw, of "take ?n"] by (simp add: take_map)
    then have "take ?n (segments k) = segments p"
      using k p(1) by (intro map_seg_raw_inj [OF c]) (auto simp: key_wf_def list_all_iff dest: in_set_takeD)
    moreover have "drop ?n (segments k) \<noteq> []"
      using arg_cong [OF raw, of length] split_on_ne [of ?sep t] by simp
    ultimately have "k = key_join p (Key (drop ?n (segments k)))" "drop ?n (segments k) \<noteq> []"
      by (metis append_take_drop_id key.collapse key.sel key_join_def, simp)
    then show "\<exists>s. segments s \<noteq> [] \<and> k = key_join p s" by (metis key.sel)
  next
    assume "\<exists>s. segments s \<noteq> [] \<and> k = key_join p s"
    then show "starts_with (key_to_string c k) (below c p)"
      using p False by (auto simp: key_join_def key_to_string_def below_def starts_with_iff join_with_append)
  qed
  also have "\<dots> \<longleftrightarrow> k \<noteq> p \<and> split_prefix k p \<noteq> None" by (rule split_prefix_strict)
  finally show ?thesis .
qed

lemma subspace_string_append: "segments k \<noteq> [] \<Longrightarrow> subspace_string c k = ''subspace/'' @ key_to_string c k"
  using join_with_append [of "[''subspace'']" "map (seg_raw c) (segments k)" KEY_SEGMENT_SEPARATOR]
  by (simp add: subspace_string_def key_to_string_def key_join_def subspace_prefix_def
      KEY_SEGMENT_SEPARATOR_def)

lemma db_iter_prefix_simps:
  "db_iter_prefix c [] p = []"
  "db_iter_prefix c ((s, v) # db) p =
     (if starts_with s (''subspace/'' @ below c p) then (drop 9 s, v) # db_iter_prefix c db p
      else db_iter_prefix c db p)"
proof -
  have "strip_prefix ''subspace/'' s = Some (drop 9 s)" if "starts_with s (''subspace/'' @ below c p)"
    using that by (auto simp: strip_prefix_def starts_with_iff)
  then show "db_iter_prefix c [] p = []"
    "db_iter_prefix c ((s, v) # db) p =
     (if starts_with s (''subspace/'' @ below c p) then (drop 9 s, v) # db_iter_prefix c db p
      else db_iter_prefix c db p)"
    by (simp_all add: db_iter_prefix_def Let_def below_def List.map_filter_simps)
qed

lemma db_iter_prefix_correct:
  assumes "bt_ok db"
  shows "bt_ok (db_iter_prefix c db p) \<and>
    (\<forall>x \<in> fst ` set (db_iter_prefix c db p). ''subspace/'' @ x \<in> fst ` set db) \<and>
    map_of (db_iter_prefix c db p) s =
      (if starts_with s (below c p) then map_of db (''subspace/'' @ s) else None)"
  using assms
proof (induction db)
  case Nil
  then show ?case by (simp add: db_iter_prefix_simps)
next
  case (Cons e db)
  obtain k v where e: "e = (k, v)" by (cases e)
  from Cons have IH: "bt_ok (db_iter_prefix c db p)"
      "\<forall>x \<in> fst ` set (db_iter_prefix c db p). ''subspace/'' @ x \<in> fst ` set db"
      "map_of (db_iter_prefix c db p) s =
         (if starts_with s (below c p) then map_of db (''subspace/'' @ s) else None)" by simp_all
  have lt: "\<forall>x \<in> fst ` set db. k < x" using Cons.prems by (simp add: e)
  show ?case
  proof (cases "starts_with k (''subspace/'' @ below c p)")
    case True
    then obtain t where k: "k = ''subspace/'' @ below c p @ t" by (auto simp: starts_with_iff)
    have "\<forall>x \<in> fst ` set (db_iter_prefix c db p). below c p @ t < x"
      using IH(2) lt append_less_append [of "''subspace/''"] unfolding k by blast
    with IH True show ?thesis
      by (auto simp: e k db_iter_prefix_simps starts_with_iff)
  next
    case False
    then have "k \<noteq> ''subspace/'' @ s" if "starts_with s (below c p)"
      using that by (auto simp: starts_with_iff)
    with IH False show ?thesis by (auto simp: e db_iter_prefix_simps)
  qed
qed

lemma db_iter_prefix_lookup:
  assumes "env_ok env" and "bt_ok db" and "key_wf k" and "key_wf p \<or> p = Key []"
  shows "map_of (db_iter_prefix (env_codec env) db p) (key_to_string (env_codec env) k) =
    (if k \<noteq> p \<and> split_prefix k p \<noteq> None then read_subspace_val (env_codec env) db k else None)"
  using db_iter_prefix_correct [OF assms(2), of "env_codec env" p] assms(3)
  by (simp add: starts_with_below [OF env_ok_codec [OF assms(1)] assms(3,4)] read_subspace_val_def
      subspace_string_append key_wf_def)

lemma iter_prefix_post_correct:
  assumes env: "env_ok env" and db: "bt_ok (st_db (wls_storage s))"
    and block: "mods_wf (block_write_log (wls_log s))" and tx: "mods_wf (tx_write_log (wls_log s))"
    and pre: "tx_precommit_write_log (wls_log s) = []" and p: "key_wf p \<or> p = Key []"
  shows "bt_ok (iter_prefix_post env s p)"
    and "key_wf k \<Longrightarrow> map_of (iter_prefix_post env s p) (key_to_string (env_codec env) k) =
      (if split_prefix k p = None then None
       else if k = p then Option.bind (fst (wl_read (env_codec env) (wls_log s) k)) mod_bytes
       else read_bytes env s k)"
proof -
  let ?st = "db_iter_prefix (env_codec env) (st_db (wls_storage s)) p"
  let ?wl = "wl_iter_prefix_post (env_codec env) (wls_log s) p"
  have wl: "bt_ok ?wl" by (rule iter_prefix_post_lookup(1) [OF env_ok_codec [OF env] block tx])
  have st: "bt_ok ?st" using db_iter_prefix_correct [OF db] by blast
  show "bt_ok (iter_prefix_post env s p)"
    unfolding iter_prefix_post_def using merge_iter_correct [OF st wl] by blast
  assume k: "key_wf k"
  have "map_of ?wl (key_to_string (env_codec env) k) =
      (if split_prefix k p = None then None else fst (wl_read (env_codec env) (wls_log s) k))"
    using iter_prefix_post_lookup(2) [OF env_ok_codec [OF env] block tx k] pre
    by (simp add: wl_read_fst or_else_def split: option.split)
  moreover have "split_prefix k k \<noteq> None" using split_prefix_cases(1) [of k k] by simp
  ultimately show "map_of (iter_prefix_post env s p) (key_to_string (env_codec env) k) =
      (if split_prefix k p = None then None
       else if k = p then Option.bind (fst (wl_read (env_codec env) (wls_log s) k)) mod_bytes
       else read_bytes env s k)"
    using merge_iter_correct [OF st wl] db_iter_prefix_lookup [OF env db k p]
    by (auto simp: iter_prefix_post_def read_bytes_def split: option.split)
qed

definition without_precommit :: "'t wl_storage \<Rightarrow> 't wl_storage" where
  "without_precommit s = s\<lparr>wls_log := (wls_log s)\<lparr>tx_precommit_write_log := []\<rparr>\<rparr>"

section \<open>Epochs follow one another\<close>

text \<open>The table of epochs agrees with the current epoch: epochs are numbered from 0 without a gap,
  their first blocks are increasing and not later than the current height, and a pending switch is
  one or two blocks away.\<close>

definition epoch_inv :: "'t storage \<Rightarrow> block_height \<Rightarrow> bool" where
  "epoch_inv st h \<longleftrightarrow>
     epochs_wf (st_pred_epochs st) \<and>
     length (first_block_heights (st_pred_epochs st)) = Suc (unat (st_epoch st)) \<and>
     last (first_block_heights (st_pred_epochs st)) \<le> h \<and>
     update_epoch_blocks_delay st \<in> {None, Some 1, Some 2}"

lemma epoch_inv_get_epoch:
  assumes "epoch_inv st h"
  shows "get_epoch (st_pred_epochs st) h = Some (Some (st_epoch st))"
proof -
  obtain s hs where hs: "first_block_heights (st_pred_epochs st) = s # hs"
    using assms by (cases "first_block_heights (st_pred_epochs st)") (auto simp: epoch_inv_def)
  have sorted: "sorted_wrt (<) (s # hs)" and last: "last (s # hs) \<le> h" and len: "length hs = unat (st_epoch st)"
    and bound: "length hs < 2 ^ 64"
    using assms by (auto simp: epoch_inv_def epochs_wf_def hs)
  have "x \<le> h" if "x \<in> set hs" for x
    using sorted_wrt_less_le_last [OF sorted, of x] that last by auto
  then have "takeWhile (\<lambda>x. x \<le> h) hs = hs" by (simp add: takeWhile_eq_all_conv)
  then have "started h hs = unat (st_epoch st)" unfolding started_def by (simp only: len)
  then show ?thesis
    using get_epoch_loop_eq [of 0 hs h] bound by (simp add: get_epoch_def hs)
qed

lemma u32_cases: "n \<in> {None, Some 1, Some 2} \<Longrightarrow> n = None \<or> n = Some (1 :: u32) \<or> n = Some 2"
  by blast

lemma checked_sub_u32 [simp]: "checked_sub (2 :: u32) 1 = Some 1" "checked_sub (1 :: u32) 1 = Some 0"
  by (simp_all add: checked_sub_def)

lemma epochs_wf_new_epoch:
  assumes "epochs_wf es" and "first_block_heights es \<noteq> []" and "last (first_block_heights es) < h"
    and "Suc (length (first_block_heights es)) < 2 ^ 64"
  shows "epochs_wf (new_epoch es h)"
proof -
  have "x < h" if "x \<in> set (first_block_heights es)" for x
    using sorted_wrt_less_le_last [of "first_block_heights es" x] that assms(1,3)
    by (auto simp: epochs_wf_def)
  with assms show ?thesis by (simp add: epochs_wf_def new_epoch_def sorted_wrt_append)
qed

text \<open>One block: the invariant is kept, a switch happens exactly when the delay has run down to one
  block, and it adds one to the epoch.\<close>

lemma update_epoch_step:
  assumes inv: "epoch_inv st h0" and "h0 < h" and ue: "update_epoch C dur st h t = Some (st', switched)"
    and room: "Suc (unat (st_epoch st)) < 2 ^ 64 - 1"
  shows "epoch_inv st' h"
    and "switched \<longleftrightarrow> update_epoch_blocks_delay st = Some 1"
    and "st_epoch st' = (if switched then st_epoch st + 1 else st_epoch st)"
proof -
  from inv have fb: "first_block_heights (st_pred_epochs st) \<noteq> []" and wf: "epochs_wf (st_pred_epochs st)"
    and len: "length (first_block_heights (st_pred_epochs st)) = Suc (unat (st_epoch st))"
    and last: "last (first_block_heights (st_pred_epochs st)) < h"
    and delay: "update_epoch_blocks_delay st = None \<or> update_epoch_blocks_delay st = Some 1
      \<or> update_epoch_blocks_delay st = Some 2"
    using \<open>h0 < h\<close> by (auto simp: epoch_inv_def)
  have "epoch_inv st' h \<and> (switched \<longleftrightarrow> update_epoch_blocks_delay st = Some 1) \<and>
      st_epoch st' = (if switched then st_epoch st + 1 else st_epoch st)"
    using delay
  proof (elim disjE)
    assume d: "update_epoch_blocks_delay st = Some 1"
    obtain e where e: "epoch_next (st_epoch st) = Some e" and "switched" and
      st': "st_epoch st' = e" "update_epoch_blocks_delay st' = None"
        "st_pred_epochs st' = new_epoch (st_pred_epochs st) h"
      using ue d by (auto simp: update_epoch_def split: bind_splits)
    have "unat e = Suc (unat (st_epoch st))" using e by (simp add: epoch_next_def checked_add_Some)
    moreover have "e = st_epoch st + 1"
      using e by (simp add: epoch_next_def checked_add_def split: if_splits)
    ultimately show ?thesis
      using st' \<open>switched\<close> d len last epochs_wf_new_epoch [OF wf fb last] room
      by (simp add: epoch_inv_def) (simp add: new_epoch_def)
  qed (use ue wf len last in \<open>auto simp: update_epoch_def epoch_inv_def EPOCH_SWITCH_BLOCKS_DELAY_def
      split: if_splits\<close>)
  then show "epoch_inv st' h" "switched \<longleftrightarrow> update_epoch_blocks_delay st = Some 1"
    "st_epoch st' = (if switched then st_epoch st + 1 else st_epoch st)" by blast+
qed

text \<open>A run of blocks, with the flag that each of them returns.\<close>

fun update_epochs :: "chrono \<Rightarrow> epoch_duration \<Rightarrow> 't storage \<Rightarrow> (block_height \<times> date_time) list
    \<Rightarrow> ('t storage \<times> bool list) option" where
  "update_epochs C dur st [] = Some (st, [])"
| "update_epochs C dur st ((h, t) # bs) =
     do { (st1, b) \<leftarrow> update_epoch C dur st h t;
          (st2, fs) \<leftarrow> update_epochs C dur st1 bs;
          Some (st2, b # fs) }"

lemma unat_plus_one_epoch: "Suc (unat e) < 2 ^ 64 - 1 \<Longrightarrow> unat ((e :: epoch) + 1) = Suc (unat e)"
  by (simp add: unat_word_ariths)

lemma update_epochs_inv:
  assumes "epoch_inv st h0" and "sorted_wrt (<) (h0 # map fst bs)"
    and "update_epochs C dur st bs = Some (st', fs)"
    and "unat (st_epoch st) + length bs < 2 ^ 64 - 1"
  shows "epoch_inv st' (last (h0 # map fst bs)) \<and> length fs = length bs \<and>
    unat (st_epoch st') = unat (st_epoch st) + count_list fs True"
  using assms
proof (induction bs arbitrary: st h0 fs)
  case (Cons b bs)
  obtain h t where b: "b = (h, t)" by (cases b)
  obtain st1 f fs' where 1: "update_epoch C dur st h t = Some (st1, f)"
    and 2: "update_epochs C dur st1 bs = Some (st', fs')" and fs: "fs = f # fs'"
    using Cons.prems(3) by (auto simp: b split: bind_splits)
  have room: "Suc (unat (st_epoch st)) < 2 ^ 64 - 1" using Cons.prems(4) by simp
  have "h0 < h" using Cons.prems(2) by (simp add: b)
  note step = update_epoch_step [OF Cons.prems(1) this 1 room]
  have e: "unat (st_epoch st1) = unat (st_epoch st) + (if f then 1 else 0)"
    using step(3) unat_plus_one_epoch [OF room] by simp
  have "epoch_inv st' (last (h # map fst bs)) \<and> length fs' = length bs \<and>
      unat (st_epoch st') = unat (st_epoch st1) + count_list fs' True"
    by (rule Cons.IH [OF step(1) _ 2]) (use Cons.prems(2,4) e in \<open>auto simp: b\<close>)
  with e show ?case by (simp add: b fs)
qed simp

text \<open>The reference: from the minimum height and time of an epoch on, the first block that has reached both
  is followed by one more block of the epoch and by the block that starts the next epoch, which sets
  the minima of that epoch.\<close>

definition next_minima :: "chrono \<Rightarrow> epoch_duration \<Rightarrow> block_height \<times> date_time \<Rightarrow> (block_height \<times> date_time) option" where
  "next_minima C dur b =
     do { h \<leftarrow> checked_add (fst b) (min_num_of_blocks dur); t \<leftarrow> add_secs C (snd b) (min_duration dur); Some (h, t) }"

definition reached :: "block_height \<times> date_time \<Rightarrow> block_height \<times> date_time \<Rightarrow> bool" where
  "reached m b \<longleftrightarrow> fst m \<le> fst b \<and> snd m \<le> snd b"

fun switch_schedule :: "chrono \<Rightarrow> epoch_duration \<Rightarrow> block_height \<times> date_time \<Rightarrow> (block_height \<times> date_time) list
    \<Rightarrow> bool list option" where
  "switch_schedule C dur m [] = Some []"
| "switch_schedule C dur m (b # bs) =
     (if reached m b
      then (case bs of
              b2 # b3 # rest \<Rightarrow>
                do { m' \<leftarrow> next_minima C dur b3;
                     fs \<leftarrow> switch_schedule C dur m' rest;
                     Some (False # False # True # fs) }
            | _ \<Rightarrow> Some (map (\<lambda>_. False) (b # bs)))
      else map_option (Cons False) (switch_schedule C dur m bs))"

definition epoch_minima :: "'t storage \<Rightarrow> block_height \<times> date_time" where
  "epoch_minima st = (next_epoch_min_start_height st, next_epoch_min_start_time st)"

lemma update_epoch_waits:
  assumes "update_epoch_blocks_delay st = None" and "\<not> reached (epoch_minima st) b"
  shows "update_epoch C dur st (fst b) (snd b) = Some (st, False)"
  using assms by (auto simp: update_epoch_def reached_def epoch_minima_def)

lemma update_epoch_queues:
  assumes "update_epoch_blocks_delay st = None" and "reached (epoch_minima st) b"
  shows "update_epoch C dur st (fst b) (snd b) = Some (st\<lparr>update_epoch_blocks_delay := Some 2\<rparr>, False)"
    and "update_epoch C dur (st\<lparr>update_epoch_blocks_delay := Some 2\<rparr>) h2 t2
      = Some (st\<lparr>update_epoch_blocks_delay := Some 1\<rparr>, False)"
  using assms by (auto simp: update_epoch_def reached_def epoch_minima_def EPOCH_SWITCH_BLOCKS_DELAY_def)

lemma update_epoch_switches:
  assumes "Suc (unat (st_epoch st)) < 2 ^ 64" and "update_epoch_blocks_delay st = None"
  obtains "next_minima C dur b = None"
      "update_epoch C dur (st\<lparr>update_epoch_blocks_delay := Some 1\<rparr>) (fst b) (snd b) = None"
    | m' st' where "next_minima C dur b = Some m'"
      "update_epoch C dur (st\<lparr>update_epoch_blocks_delay := Some 1\<rparr>) (fst b) (snd b) = Some (st', True)"
      "update_epoch_blocks_delay st' = None" "epoch_minima st' = m'" "unat (st_epoch st') = Suc (unat (st_epoch st))"
proof (cases "next_minima C dur b")
  case None
  then show ?thesis
    by (intro that(1)) (auto simp: update_epoch_def next_minima_def bind_eq_None_conv split: bind_splits)
next
  case (Some m')
  obtain e where e: "epoch_next (st_epoch st) = Some e" "unat e = Suc (unat (st_epoch st))"
    using assms(1) by (simp add: epoch_next_def checked_add_def unat_word_ariths)
  obtain st' where "update_epoch C dur (st\<lparr>update_epoch_blocks_delay := Some 1\<rparr>) (fst b) (snd b) = Some (st', True)"
      "update_epoch_blocks_delay st' = None" "epoch_minima st' = m'" "unat (st_epoch st') = Suc (unat (st_epoch st))"
    using Some e by (auto simp: update_epoch_def next_minima_def epoch_minima_def bind_eq_Some_conv)
  then show ?thesis by (rule that(2) [OF Some])
qed

lemma update_epochs_Cons:
  "update_epoch C dur st (fst b) (snd b) = Some (st1, f) \<Longrightarrow>
     update_epochs C dur st (b # bs) = map_option (map_prod id (Cons f)) (update_epochs C dur st1 bs)"
  "update_epoch C dur st (fst b) (snd b) = None \<Longrightarrow> update_epochs C dur st (b # bs) = None"
  by (cases b; cases "update_epochs C dur st1 bs"; auto) (cases b; simp)

text \<open>What is shown of a run: its flags are scheduled and count the epochs.\<close>

definition scheduled :: "chrono \<Rightarrow> epoch_duration \<Rightarrow> 't storage \<Rightarrow> (block_height \<times> date_time) list \<Rightarrow> bool" where
  "scheduled C dur st bs \<longleftrightarrow>
     map_option snd (update_epochs C dur st bs) = switch_schedule C dur (epoch_minima st) bs
     \<and> (\<forall>st' fs. update_epochs C dur st bs = Some (st', fs) \<longrightarrow>
          unat (st_epoch st') = unat (st_epoch st) + count_list fs True)"

lemma scheduled_wait:
  assumes "update_epoch_blocks_delay st = None" "\<not> reached (epoch_minima st) b" "scheduled C dur st bs"
  shows "scheduled C dur st (b # bs)"
  using assms(2,3) update_epochs_Cons(1) [OF update_epoch_waits [OF assms(1,2)], of C dur bs]
  unfolding scheduled_def by (cases "update_epochs C dur st bs") (auto dest: sym)

lemma scheduled_switch:
  fixes st :: "'t storage"
  assumes "update_epoch_blocks_delay st = None" "reached (epoch_minima st) b"
    and "Suc (unat (st_epoch st)) < 2 ^ 64"
    and IH: "\<And>st' :: 't storage. update_epoch_blocks_delay st' = None \<Longrightarrow>
      unat (st_epoch st') = Suc (unat (st_epoch st)) \<Longrightarrow> scheduled C dur st' rest"
  shows "scheduled C dur st (b # b2 # b3 # rest)"
proof -
  note q = update_epoch_queues [OF assms(1,2)]
  have run: "update_epochs C dur st (b # b2 # b3 # rest) = map_option (map_prod id (\<lambda>fs. False # False # fs))
      (update_epochs C dur (st\<lparr>update_epoch_blocks_delay := Some 1\<rparr>) (b3 # rest))"
    unfolding update_epochs_Cons(1) [OF q(1)] update_epochs_Cons(1) [OF q(2)]
    by (simp only: option.map_comp) (rule option.map_cong0, auto)
  show ?thesis
  proof (cases rule: update_epoch_switches [OF assms(3,1), of C dur b3])
    case 1
    then show ?thesis
      using run assms(2) update_epochs_Cons(2) [OF 1(2), of rest] by (simp add: scheduled_def del: update_epochs.simps)
  next
    case (2 m' st')
    show ?thesis
      using run assms(2) 2(1,4,5) update_epochs_Cons(1) [OF 2(2), of rest] IH [OF 2(3,5)]
      unfolding scheduled_def by (cases "update_epochs C dur st' rest") (auto dest: sym simp del: update_epochs.simps)
  qed
qed

lemma scheduled_short:
  assumes "update_epoch_blocks_delay st = None" "reached (epoch_minima st) b" "length bs \<le> 1"
  shows "scheduled C dur st (b # bs)"
proof -
  note q = update_epoch_queues [OF assms(1,2)]
  obtain b2 where "bs = [] \<or> bs = [b2]" using assms(3) by (cases bs) auto
  then show ?thesis
    using assms(2) update_epochs_Cons(1) [OF q(1), of C dur bs]
      update_epochs_Cons(1) [OF q(2), of C dur b2 "[]"]
    by (auto simp: scheduled_def simp del: update_epochs.simps(2))
qed

lemma update_epochs_schedule:
  assumes "update_epoch_blocks_delay st = None" and "unat (st_epoch st) + length bs < 2 ^ 64 - 1"
  shows "scheduled C dur st bs"
  using assms
proof (induction bs arbitrary: st rule: length_induct)
  case (1 bs)
  show ?case
  proof (cases bs)
    case Nil
    then show ?thesis by (simp add: scheduled_def)
  next
    case (Cons b bs')
    consider "\<not> reached (epoch_minima st) b" | "reached (epoch_minima st) b" "length bs' \<le> 1"
      | b2 b3 rest where "reached (epoch_minima st) b" "bs' = b2 # b3 # rest"
      by (cases bs'; cases "tl bs'") auto
    then show ?thesis
    proof cases
      case w: 1
      have "scheduled C dur st bs'" using "1.IH" "1.prems" Cons by auto
      then show ?thesis unfolding Cons by (rule scheduled_wait [OF "1.prems"(1) w])
    next
      case 2
      then show ?thesis unfolding Cons by (rule scheduled_short [OF "1.prems"(1)])
    next
      case (3 b2 b3 rest)
      have "scheduled C dur st' rest" if "update_epoch_blocks_delay st' = None" "unat (st_epoch st') = Suc (unat (st_epoch st))"
        for st' :: "'a storage"
        using "1.IH" "1.prems"(2) that Cons 3(2) by simp
      moreover have "Suc (unat (st_epoch st)) < 2 ^ 64" using "1.prems"(2) Cons 3(2) by simp
      ultimately show ?thesis unfolding Cons 3(2) using scheduled_switch [OF "1.prems"(1) 3(1)] by blast
    qed
  qed
qed

lemma schedule_switches:
  assumes "switch_schedule C dur m bs = Some fs" "i + 2 < length bs" "reached m (bs ! i)"
  shows "True \<in> set fs"
  using assms
proof (induction bs arbitrary: i fs)
  case (Cons b bs)
  show ?case
  proof (cases "reached m b")
    case True
    obtain b2 b3 rest where "bs = b2 # b3 # rest"
      using Cons.prems(2) by (cases bs; cases "tl bs") auto
    then show ?thesis using Cons.prems(1) True by (auto simp: bind_eq_Some_conv)
  next
    case False
    then obtain j where "i = Suc j" using Cons.prems(3) by (cases i) auto
    then show ?thesis using Cons False by auto
  qed
qed simp

section \<open>An instance of the library code\<close>

definition plain_env :: "unit storage_env" where
  "plain_env =
     \<lparr>env_codec = hex_codec, env_height_raw = (\<lambda>h. ''0''), env_hash_string = hex_bytes,
      env_tree = \<lparr>tree_update = (\<lambda>t k v. Inr t), tree_delete = (\<lambda>t k. Inr t), tree_has_key = (\<lambda>t k. Inr True)\<rparr>\<rparr>"

lemma letter_not_reserved: "n < 16 \<Longrightarrow> letter n \<noteq> RESERVED_ADDRESS_PREFIX"
proof
  assume "n < 16" and "letter n = RESERVED_ADDRESS_PREFIX"
  then have "of_char (letter n) = (of_char (CHR ''#'') :: nat)" by (simp add: RESERVED_ADDRESS_PREFIX_def)
  with \<open>n < 16\<close> show False by (simp add: letter_def of_char_of)
qed

lemma plain_env_ok: "env_ok plain_env"
proof -
  have "seg_wf (StringSeg (hex_bytes h))" for h
    by (cases h) (simp_all add: hex_bytes_separator letter_not_reserved unat_byte_div
        letter_not_separator [symmetric])
  moreover have "inj hex_bytes" by (rule injI) (metis unhex_hex_bytes)
  ultimately show ?thesis
    by (simp add: env_ok_def plain_env_def hex_codec_ok KEY_SEGMENT_SEPARATOR_def RESERVED_ADDRESS_PREFIX_def)
qed

definition empty_storage :: "unit storage" where
  "empty_storage =
     \<lparr>st_db = [], st_tree = (), st_height = 1, st_epoch = 0, st_pred_epochs = \<lparr>first_block_heights = [1]\<rparr>,
      st_last_epoch = 0, next_epoch_min_start_height = 10, next_epoch_min_start_time = 0,
      st_address_gen = \<lparr>last_hash = []\<rparr>, update_epoch_blocks_delay = None\<rparr>"

definition one_write :: "unit wl_storage" where
  "one_write = \<lparr>wls_log = write_log_default\<lparr>block_write_log := [(Key [StringSeg ''a'', StringSeg ''b''], Write [7])]\<rparr>,
     wls_storage = empty_storage\<rparr>"



section \<open>Properties\<close>



text \<open>(C5) Iterating over a prefix lists, sorted by the printed keys and without repetition, exactly
  the keys below the prefix that can be read, with the values that reading them gives in the state
  without the precommit log: reads consult that log and the iterator does not, so iteration agrees with
  the reads of the state itself only while the precommit log is empty. The prefix itself is an
  exception: as a key it is listed while the log has it, but not once it is only in the database.\<close>

theorem iter_prefix_lists_reads:
  assumes "env_ok env" and "bt_ok (st_db (wls_storage s))"
    and "mods_wf (block_write_log (wls_log s))" and "mods_wf (tx_write_log (wls_log s))"
    and "key_wf p \<or> p = Key []" and "key_wf k"
  shows "sorted_wrt (<) (map fst (iter_prefix_post env s p)) \<and>
    map_of (iter_prefix_post env s p) (key_to_string (env_codec env) k) =
      (if split_prefix k p = None then None
       else if k = p
       then Option.bind (fst (wl_read (env_codec env) (wls_log (without_precommit s)) k)) mod_bytes
       else read_bytes env (without_precommit s) k)"
proof -
  have "iter_prefix_post env (without_precommit s) p = iter_prefix_post env s p"
    by (simp add: iter_prefix_post_def wl_iter_prefix_post_def without_precommit_def)
  then show ?thesis
    using iter_prefix_post_correct [of env "without_precommit s" p] assms by (simp add: without_precommit_def)
qed

theorem iter_prefix_lists_reads_witness:
  "map_of (iter_prefix_post plain_env one_write (Key [StringSeg ''a'']))
     (key_to_string hex_codec (Key [StringSeg ''a'', StringSeg ''b''])) = Some [7]"
proof -
  let ?k = "Key [StringSeg ''a'', StringSeg ''b'']"
  have wf: "key_wf (Key [StringSeg ''a''])" "key_wf ?k"
    by (simp_all add: key_wf_def KEY_SEGMENT_SEPARATOR_def RESERVED_ADDRESS_PREFIX_def)
  have "read_bytes plain_env (without_precommit one_write) ?k = Some [7]"
    by (simp add: read_bytes_def wl_read_fst one_write_def without_precommit_def)
  moreover have "env_codec plain_env = hex_codec" by (simp add: plain_env_def)
  moreover have "mods_wf (block_write_log (wls_log one_write))" "mods_wf (tx_write_log (wls_log one_write))"
      "bt_ok (st_db (wls_storage one_write))"
    using wf by (simp_all add: mods_wf_def one_write_def empty_storage_def)
  moreover have "split_prefix ?k (Key [StringSeg ''a'']) \<noteq> None" by (simp add: split_prefix_def)
  ultimately show ?thesis
    using iter_prefix_lists_reads [OF plain_env_ok, of one_write "Key [StringSeg ''a'']" ?k] wf
    by (simp only: if_False key.inject list.inject) simp
qed

text \<open>(C19) Over any run of blocks with increasing heights the table of epochs stays consistent: the
  first blocks of the epochs stay increasing, every switch adds exactly one epoch, and looking up the
  current height gives the current epoch.\<close>

theorem epochs_follow_blocks:
  assumes "epoch_inv st h0" and "sorted_wrt (<) (h0 # map fst bs)"
    and "update_epochs C dur st bs = Some (st', fs)"
    and "unat (st_epoch st) + length bs < 2 ^ 64 - 1"
  shows "epoch_inv st' (last (h0 # map fst bs)) \<and>
    unat (st_epoch st') = unat (st_epoch st) + count_list fs True \<and>
    get_epoch (st_pred_epochs st') (last (h0 # map fst bs)) = Some (Some (st_epoch st'))"
  using update_epochs_inv [OF assms] epoch_inv_get_epoch by blast

theorem epochs_follow_blocks_witness:
  "\<exists>st'. update_epochs plain_chrono \<lparr>min_num_of_blocks = 5, min_duration = 0\<rparr> empty_storage [(10, 3), (11, 4), (12, 5)]
       = Some (st', [False, False, True]) \<and>
     get_epoch (st_pred_epochs st') 12 = Some (Some (st_epoch st'))"
proof -
  obtain st' where st': "update_epochs plain_chrono \<lparr>min_num_of_blocks = 5, min_duration = 0\<rparr> empty_storage
      [(10, 3), (11, 4), (12, 5)] = Some (st', [False, False, True])"
    by (simp add: update_epoch_def empty_storage_def EPOCH_SWITCH_BLOCKS_DELAY_def epoch_next_def checked_add_def
        add_secs_def plain_chrono_def Let_def)
  moreover have "epoch_inv empty_storage 1"
    by (simp add: epoch_inv_def empty_storage_def epochs_wf_def)
  ultimately show ?thesis
    using epochs_follow_blocks [of empty_storage 1 "[(10, 3), (11, 4), (12, 5)]" plain_chrono
        "\<lparr>min_num_of_blocks = 5, min_duration = 0\<rparr>" st' "[False, False, True]"]
    by (auto simp: empty_storage_def simp del: update_epochs.simps)
qed

text \<open>(C20) Over any run of blocks from a state without a pending switch, the calls that start a new epoch are exactly those of the reference
  schedule: an epoch ends two blocks after its first block that has reached both its minimum height and
  its minimum time, whatever the blocks in between, never earlier and never later, and the block that
  starts the new epoch sets the minima of that epoch. The run panics exactly where the schedule does,
  when a new minimum is out of range; it is assumed that the epoch number does not overflow. In
  particular a block that has reached the minima and is followed by two more blocks leads to a switch.\<close>

theorem epoch_switch_schedule:
  assumes "update_epoch_blocks_delay st = None" and "unat (st_epoch st) + length bs < 2 ^ 64 - 1"
  shows "map_option snd (update_epochs C dur st bs) = switch_schedule C dur (epoch_minima st) bs
    \<and> (\<forall>st' fs. update_epochs C dur st bs = Some (st', fs) \<longrightarrow>
         unat (st_epoch st') = unat (st_epoch st) + count_list fs True
         \<and> (\<forall>i. i + 2 < length bs \<and> reached (epoch_minima st) (bs ! i) \<longrightarrow> True \<in> set fs))"
proof -
  note run = update_epochs_schedule [OF assms, of C dur, unfolded scheduled_def]
  have "True \<in> set fs" if "update_epochs C dur st bs = Some (st', fs)" "i + 2 < length bs"
    "reached (epoch_minima st) (bs ! i)" for st' fs i
  proof (rule schedule_switches [OF _ that(2,3)])
    show "switch_schedule C dur (epoch_minima st) bs = Some fs" using run that(1) by simp
  qed
  then show ?thesis using run by blast
qed

theorem epoch_switch_schedule_witness:
  "\<exists>st'. update_epochs plain_chrono \<lparr>min_num_of_blocks = 5, min_duration = 60\<rparr> empty_storage
       [(9, 3), (10, 3), (11, 4), (12, 5), (13, 6)] = Some (st', [False, False, False, True, False])
     \<and> unat (st_epoch st') = 1"
proof -
  let ?bs = "[(9, 3), (10, 3), (11, 4), (12, 5), (13, 6)] :: (block_height \<times> date_time) list"
  let ?dur = "\<lparr>min_num_of_blocks = 5, min_duration = 60\<rparr>"
  have "switch_schedule plain_chrono ?dur (epoch_minima empty_storage) ?bs = Some [False, False, False, True, False]"
    by (simp add: reached_def epoch_minima_def empty_storage_def next_minima_def add_secs_def plain_chrono_def
        Let_def checked_add_def)
  then show ?thesis
    using epoch_switch_schedule [of empty_storage ?bs plain_chrono ?dur]
    by (auto simp: empty_storage_def simp del: update_epochs.simps switch_schedule.simps)
qed

end
