(* ===== verification/Effects.thy ===== *)
theory Effects
  imports Prelude
begin

text \<open>
  Computations on mutable arguments that may fail, as the storage functions and the host functions
  of the validity predicates are: the state is threaded through the calls, \<open>?\<close> is \<open>env_bind\<close>,
  and an error keeps the state that was reached.
\<close>

named_theorems env_simps \<open>success of a computation in terms of the successes of its parts\<close>

type_synonym ('s, 'e, 'a) comp = "'s \<Rightarrow> 's \<times> ('e + 'a)"

definition env_return :: "'a \<Rightarrow> ('s, 'e, 'a) comp" where
  "env_return x = (\<lambda>s. (s, Inr x))"

definition env_bind :: "('s, 'e, 'a) comp \<Rightarrow> ('a \<Rightarrow> ('s, 'e, 'b) comp) \<Rightarrow> ('s, 'e, 'b) comp" where
  "env_bind m f = (\<lambda>s. case m s of (s', Inl e) \<Rightarrow> (s', Inl e) | (s', Inr x) \<Rightarrow> f x s')"

definition env_of :: "'e + 'a \<Rightarrow> ('s, 'e, 'a) comp" where
  "env_of r = (\<lambda>s. (s, r))"

definition env_map_err :: "('e \<Rightarrow> 'f) \<Rightarrow> ('s, 'e, 'a) comp \<Rightarrow> ('s, 'f, 'a) comp" where
  "env_map_err f m = (\<lambda>s. map_prod id (map_sum f id) (m s))"

lemma env_return_iff [env_simps]: "env_return x s = (s', r) \<longleftrightarrow> s' = s \<and> r = Inr x"
  by (auto simp: env_return_def)

lemma env_bind_Inr [env_simps]:
  "env_bind m f s = (s', Inr y) \<longleftrightarrow> (\<exists>t x. m s = (t, Inr x) \<and> f x t = (s', Inr y))"
  by (auto simp: env_bind_def split: prod.splits sum.splits)

lemma env_bind_Inl:
  "env_bind m f s = (s', Inl e) \<longleftrightarrow> m s = (s', Inl e) \<or> (\<exists>t x. m s = (t, Inr x) \<and> f x t = (s', Inl e))"
  by (auto simp: env_bind_def split: prod.splits sum.splits)

lemma env_of_Inr [env_simps]: "env_of r s = (s', Inr x) \<longleftrightarrow> s' = s \<and> r = Inr x"
  by (auto simp: env_of_def)

lemma env_map_err_Inr [env_simps]: "env_map_err f m s = (s', Inr x) \<longleftrightarrow> m s = (s', Inr x)"
  by (cases "m s"; cases "snd (m s)") (auto simp: env_map_err_def)

lemma env_bind_values: "env_bind (env_return x) f s = f x s" "env_bind (env_of (Inr x)) f s = f x s" "env_bind (env_of (Inl e)) f s = (s, Inl e)"
  by (simp_all add: env_bind_def env_of_def env_return_def)

lemma env_bind_assoc: "env_bind (env_bind m f) g s = env_bind m (\<lambda>x. env_bind (f x) g) s"
  by (auto simp: env_bind_def split: prod.split sum.split)

end
