(* ===== verification/Vp_Host_Fns.thy ===== *)
theory Vp_Host_Fns
  imports Wl_Storage Effects
begin

text \<open>
  The functions of the host that a validity predicate calls (shared/src/ledger/vp_host_fns.rs):
  reads of the state before and after the transaction, each charging gas to the meter of the
  predicate and setting its sentinel when the gas runs out. The lemmas say which value a
  successful read returns.
\<close>

section \<open>Gas and errors\<close>

datatype vp_sentinel = SentinelNone | SentinelOutOfGas | SentinelInvalidSignature

text \<open>The payloads that are errors of libraries are given by their text. \<open>HostPanic\<close> is a panic.\<close>

datatype runtime_error =
    OutOfGas gas_error
  | RtStorageError db_error
  | StorageDataError string
  | EncodingError string
  | NumConversionError string
  | MemoryError string
  | ReadTemporaryValueError
  | ReadPermanentValueError
  | InvalidCodeHash
  | HostPanic

text \<open>The gas meter and the sentinel are the mutable arguments of every host function.\<close>

type_synonym vp_state = "vp_gas_meter \<times> vp_sentinel"
type_synonym 'a env_result = "(vp_state, runtime_error, 'a) comp"

definition add_gas :: "u64 \<Rightarrow> unit env_result" where
  "add_gas used_gas = (\<lambda>(meter, sentinel).
     case vp_consume meter used_gas of
       (meter', Inr _) \<Rightarrow> ((meter', sentinel), Inr ())
     | (meter', Inl err) \<Rightarrow> ((meter', SentinelOutOfGas), Inl (OutOfGas err)))"

text \<open>The costs that the write log and the storage return are products of \<open>u64\<close>, which panic when they
  overflow.\<close>

definition charge_cost :: "nat \<Rightarrow> unit env_result" where
  "charge_cost gas = (if gas < 2 ^ 64 then add_gas (of_nat gas) else env_of (Inl HostPanic))"

section \<open>Reading\<close>

text \<open>The part that \<open>read_pre\<close> and \<open>read_post\<close> share: the value of the log, or else of the storage.\<close>

definition log_or_storage :: "'t storage_env \<Rightarrow> 't storage \<Rightarrow> key \<Rightarrow> storage_modification option \<Rightarrow> bytes option env_result" where
  "log_or_storage env st k log_val =
     (case log_val of
        Some (Write v) \<Rightarrow> env_return (Some v)
      | Some Delete \<Rightarrow> env_return None
      | Some (InitAccount h) \<Rightarrow> env_return (Some h)
      | Some (Temp _) \<Rightarrow> env_of (Inl ReadTemporaryValueError)
      | None \<Rightarrow>
          env_bind (env_of (map_sum RtStorageError id (st_read env st k))) (\<lambda>(v, gas).
          env_bind (charge_cost gas) (\<lambda>_.
          env_return v)))"

definition read_pre :: "'t storage_env \<Rightarrow> 't storage \<Rightarrow> write_log \<Rightarrow> key \<Rightarrow> bytes option env_result" where
  "read_pre env st w k =
     (let (log_val, gas) = wl_read_pre (env_codec env) w k in
      env_bind (charge_cost gas) (\<lambda>_. log_or_storage env st k log_val))"

definition read_post :: "'t storage_env \<Rightarrow> 't storage \<Rightarrow> write_log \<Rightarrow> key \<Rightarrow> bytes option env_result" where
  "read_post env st w k =
     (let (log_val, gas) = wl_read (env_codec env) w k in
      env_bind (charge_cost gas) (\<lambda>_. log_or_storage env st k log_val))"

definition read_temp :: "'t storage_env \<Rightarrow> write_log \<Rightarrow> key \<Rightarrow> bytes option env_result" where
  "read_temp env w k =
     (let (log_val, gas) = wl_read (env_codec env) w k in
      env_bind (charge_cost gas) (\<lambda>_.
        case log_val of
          Some (Temp v) \<Rightarrow> env_return (Some v)
        | None \<Rightarrow> env_return None
        | _ \<Rightarrow> env_of (Inl ReadPermanentValueError)))"

definition present_in :: "'t storage_env \<Rightarrow> 't storage \<Rightarrow> key \<Rightarrow> storage_modification option \<Rightarrow> bool env_result" where
  "present_in env st k log_val =
     (case log_val of
        Some (Write _) \<Rightarrow> env_return True
      | Some Delete \<Rightarrow> env_return False
      | Some (InitAccount _) \<Rightarrow> env_return True
      | Some (Temp _) \<Rightarrow> env_return True
      | None \<Rightarrow>
          env_bind (env_of (map_sum RtStorageError id (st_has_key env st k))) (\<lambda>(present, gas).
          env_bind (charge_cost gas) (\<lambda>_.
          env_return present)))"

definition has_key_pre :: "'t storage_env \<Rightarrow> 't storage \<Rightarrow> write_log \<Rightarrow> key \<Rightarrow> bool env_result" where
  "has_key_pre env st w k =
     (let (log_val, gas) = wl_read_pre (env_codec env) w k in
      env_bind (charge_cost gas) (\<lambda>_. present_in env st k log_val))"

definition has_key_post :: "'t storage_env \<Rightarrow> 't storage \<Rightarrow> write_log \<Rightarrow> key \<Rightarrow> bool env_result" where
  "has_key_post env st w k =
     (let (log_val, gas) = wl_read (env_codec env) w k in
      env_bind (charge_cost gas) (\<lambda>_. present_in env st k log_val))"

section \<open>Other host functions\<close>

definition BLOCK_HEIGHT_LENGTH :: u64 where "BLOCK_HEIGHT_LENGTH = 8"
definition EPOCH_TYPE_LENGTH :: u64 where "EPOCH_TYPE_LENGTH = 8"
definition TX_INDEX_LENGTH :: u64 where "TX_INDEX_LENGTH = 4"

definition get_block_height :: "'t storage \<Rightarrow> block_height env_result" where
  "get_block_height st =
     env_bind (add_gas (BLOCK_HEIGHT_LENGTH * MEMORY_ACCESS_GAS_PER_BYTE)) (\<lambda>_. env_return (st_height st))"

definition get_block_epoch :: "'t storage \<Rightarrow> epoch env_result" where
  "get_block_epoch st =
     env_bind (add_gas (EPOCH_TYPE_LENGTH * MEMORY_ACCESS_GAS_PER_BYTE)) (\<lambda>_. env_return (st_epoch st))"

definition get_tx_index :: "u32 \<Rightarrow> u32 env_result" where
  "get_tx_index tx_index =
     env_bind (add_gas (TX_INDEX_LENGTH * MEMORY_ACCESS_GAS_PER_BYTE)) (\<lambda>_. env_return tx_index)"

definition get_ibc_events :: "write_log \<Rightarrow> string \<Rightarrow> ibc_event list env_result" where
  "get_ibc_events w ty = env_return (filter (\<lambda>e. event_type e = ty) (ibc_events w))"

section \<open>What a successful read returns\<close>

definition stored :: "'t storage_env \<Rightarrow> 't storage \<Rightarrow> key \<Rightarrow> bytes option" where
  "stored env st k = (case st_read env st k of Inr (v, _) \<Rightarrow> v | Inl _ \<Rightarrow> None)"

definition value_pre :: "'t storage_env \<Rightarrow> 't storage \<Rightarrow> write_log \<Rightarrow> key \<Rightarrow> bytes option" where
  "value_pre env st w k = (case fst (wl_read_pre (env_codec env) w k) of Some m \<Rightarrow> mod_bytes m | None \<Rightarrow> stored env st k)"

definition value_post :: "'t storage_env \<Rightarrow> 't storage \<Rightarrow> write_log \<Rightarrow> key \<Rightarrow> bytes option" where
  "value_post env st w k = (case fst (wl_read (env_codec env) w k) of Some m \<Rightarrow> mod_bytes m | None \<Rightarrow> stored env st k)"

lemma log_or_storage_value:
  assumes "log_or_storage env st k log_val s = (s', Inr v)"
  shows "v = (case log_val of Some m \<Rightarrow> mod_bytes m | None \<Rightarrow> stored env st k)"
proof (cases log_val)
  case None
  then obtain b where "map_sum RtStorageError id (st_read env st k) = Inr (v, b)"
    using assms by (simp add: log_or_storage_def env_bind_Inr env_of_Inr env_return_iff) blast
  then show ?thesis using None by (cases "st_read env st k") (simp_all add: stored_def)
next
  case (Some m)
  then show ?thesis using assms by (cases m) (simp_all add: log_or_storage_def env_simps)
qed

lemma read_pre_value:
  assumes "read_pre env st w k s = (s', Inr v)"
  shows "v = value_pre env st w k"
proof -
  obtain t where "log_or_storage env st k (fst (wl_read_pre (env_codec env) w k)) t = (s', Inr v)"
    using assms by (cases "wl_read_pre (env_codec env) w k") (simp add: read_pre_def env_bind_Inr, blast)
  then show ?thesis unfolding value_pre_def by (rule log_or_storage_value)
qed

lemma read_post_value:
  assumes "read_post env st w k s = (s', Inr v)"
  shows "v = value_post env st w k"
proof -
  obtain t where "log_or_storage env st k (fst (wl_read (env_codec env) w k)) t = (s', Inr v)"
    using assms by (cases "wl_read (env_codec env) w k") (simp add: read_post_def env_bind_Inr, blast)
  then show ?thesis unfolding value_post_def by (rule log_or_storage_value)
qed

text \<open>A host function fails with \<open>OutOfGas\<close> exactly when it sets the sentinel.\<close>

lemma add_gas_eq:
  "vp_consume m g = (m', Inr ()) \<Longrightarrow> add_gas g (m, sentinel) = ((m', sentinel), Inr ())"
  "vp_consume m g = (m', Inl e) \<Longrightarrow> add_gas g (m, sentinel) = ((m', SentinelOutOfGas), Inl (OutOfGas e))"
  by (simp_all add: add_gas_def)

end
