(* ===== verification/Token_Storage.thy ===== *)
theory Token_Storage
  imports Wl_Storage Token_Amount Effects
begin

text \<open>
  The token functions of the protocol (core/src/ledger/storage_api/token.rs): balances, supplies and
  denominations in storage, transfers, minting and burning. They are generic in the storage, as the
  code is in \<open>StorageRead\<close> and \<open>StorageWrite\<close>; the locale \<open>storage_api\<close> states what they need of it and
  is interpreted on the storage with a write log.
\<close>

section \<open>The interface of the storage\<close>

text \<open>Borsh, the binary encoding of stored values, is library code.\<close>

record borsh_codec =
  enc_amount :: "amount \<Rightarrow> bytes"
  dec_amount :: "bytes \<Rightarrow> amount option"
  enc_denom :: "denomination \<Rightarrow> bytes"
  dec_denom :: "bytes \<Rightarrow> denomination option"
  dec_address :: "bytes \<Rightarrow> address option"

definition borsh_ok :: "borsh_codec \<Rightarrow> bool" where
  "borsh_ok X \<longleftrightarrow> (\<forall>a. dec_amount X (enc_amount X a) = Some a) \<and> (\<forall>d. dec_denom X (enc_denom X d) = Some d)"

text \<open>Of the errors of the storage API these functions return \<open>SimpleMessage\<close> and, for a value that does not
  decode, the \<open>Custom\<close> error of Borsh, here \<open>DecodeFailed\<close>. \<open>KeyPanic\<close> is the panic of a key that
  cannot be built.\<close>

datatype storage_api_error = SimpleMessage string | DecodeFailed | KeyPanic

text \<open>The functions are generic in a storage with \<open>read_bytes\<close> and \<open>write_bytes\<close>.\<close>

type_synonym 's storage_read = "'s \<Rightarrow> key \<Rightarrow> bytes option"
type_synonym 's storage_write = "'s \<Rightarrow> key \<Rightarrow> bytes \<Rightarrow> 's"
type_synonym ('s, 'a) api_result = "('s, storage_api_error, 'a) comp"

definition api_read :: "'s storage_read \<Rightarrow> (bytes \<Rightarrow> 'a option) \<Rightarrow> key \<Rightarrow> ('s, 'a option) api_result" where
  "api_read rd dec k = (\<lambda>s.
     case rd s k of
       Some b \<Rightarrow> (case dec b of Some v \<Rightarrow> (s, Inr (Some v)) | None \<Rightarrow> (s, Inl DecodeFailed))
     | None \<Rightarrow> (s, Inr None))"

definition api_write :: "'s storage_write \<Rightarrow> key \<Rightarrow> bytes \<Rightarrow> ('s, unit) api_result" where
  "api_write wr k b = (\<lambda>s. (wr s k b, Inr ()))"

definition api_key :: "key option \<Rightarrow> ('s, key) api_result" where
  "api_key k = env_of (ok_or k KeyPanic)"

section \<open>Token operations\<close>

definition read_balance :: "'s storage_read \<Rightarrow> addr_codec \<Rightarrow> borsh_codec \<Rightarrow> address \<Rightarrow> address
    \<Rightarrow> ('s, amount) api_result" where
  "read_balance rd c X token owner =
     env_bind (api_key (balance_key c token owner)) (\<lambda>k.
     env_bind (api_read rd (dec_amount X) k) (\<lambda>balance.
     env_return (unwrap_or balance (Amount 0))))"

definition read_total_supply :: "'s storage_read \<Rightarrow> addr_codec \<Rightarrow> borsh_codec \<Rightarrow> address
    \<Rightarrow> ('s, amount) api_result" where
  "read_total_supply rd c X token =
     env_bind (api_key (minted_balance_key c token)) (\<lambda>k.
     env_bind (api_read rd (dec_amount X) k) (\<lambda>balance.
     env_return (unwrap_or balance (Amount 0))))"

definition read_denom :: "'s storage_read \<Rightarrow> addr_codec \<Rightarrow> borsh_codec \<Rightarrow> address
    \<Rightarrow> ('s, denomination option) api_result" where
  "read_denom rd c X token =
     (case token of
        Internal (IbcToken _) \<Rightarrow> env_return (Some (Denomination 0))
      | _ \<Rightarrow>
        (let (key, is_default_zero) = (case token of
               Internal (Nut erc20) \<Rightarrow> (denom_key c (Internal (Erc20 erc20)), True)
             | _ \<Rightarrow> (denom_key c token, False))
         in env_bind (api_key key) (\<lambda>k.
            env_bind (api_read rd (dec_denom X) k) (\<lambda>opt_denom.
            env_return (Some (unwrap_or opt_denom
              (if is_default_zero then Denomination 0 else Denomination NATIVE_MAX_DECIMAL_PLACES)))))))"

definition write_denom :: "'s storage_write \<Rightarrow> addr_codec \<Rightarrow> borsh_codec \<Rightarrow> address \<Rightarrow> denomination
    \<Rightarrow> ('s, unit) api_result" where
  "write_denom wr c X token denom = env_bind (api_key (denom_key c token)) (\<lambda>k. api_write wr k (enc_denom X denom))"

definition transfer :: "'s storage_read \<Rightarrow> 's storage_write \<Rightarrow> addr_codec \<Rightarrow> borsh_codec
    \<Rightarrow> address \<Rightarrow> address \<Rightarrow> address \<Rightarrow> amount \<Rightarrow> ('s, unit) api_result" where
  "transfer rd wr c X token src dest amt =
     (if raw_amount amt = 0 then env_return ()
      else
        env_bind (api_key (balance_key c token src)) (\<lambda>src_key.
        env_bind (read_balance rd c X token src) (\<lambda>src_balance.
        case amount_checked_sub src_balance amt of
          Some new_src_balance \<Rightarrow>
            env_bind (api_key (balance_key c token dest)) (\<lambda>dest_key.
            env_bind (read_balance rd c X token dest) (\<lambda>dest_balance.
            case amount_checked_add dest_balance amt of
              Some new_dest_balance \<Rightarrow>
                env_bind (api_write wr src_key (enc_amount X new_src_balance)) (\<lambda>_.
                api_write wr dest_key (enc_amount X new_dest_balance))
            | None \<Rightarrow> env_of (Inl (SimpleMessage ''The transfer would overflow destination balance''))))
        | None \<Rightarrow> env_of (Inl (SimpleMessage ''Insufficient source balance'')))))"

definition credit_tokens :: "'s storage_read \<Rightarrow> 's storage_write \<Rightarrow> addr_codec \<Rightarrow> borsh_codec
    \<Rightarrow> address \<Rightarrow> address \<Rightarrow> amount \<Rightarrow> ('s, unit) api_result" where
  "credit_tokens rd wr c X token dest amt =
     env_bind (api_key (balance_key c token dest)) (\<lambda>balance_key.
     env_bind (read_balance rd c X token dest) (\<lambda>cur_balance.
     env_bind (env_of (ok_or (amount_checked_add cur_balance amt) (SimpleMessage ''Token balance overflow''))) (\<lambda>new_balance.
     env_bind (api_key (minted_balance_key c token)) (\<lambda>total_supply_key.
     env_bind (api_read rd (dec_amount X) total_supply_key) (\<lambda>cur_supply.
     env_bind (env_of (ok_or (amount_checked_add (unwrap_or cur_supply (Amount 0)) amt)
         (SimpleMessage ''Token total supply overflow''))) (\<lambda>new_supply.
     env_bind (api_write wr balance_key (enc_amount X new_balance)) (\<lambda>_.
     api_write wr total_supply_key (enc_amount X new_supply))))))))"

definition burn :: "'s storage_read \<Rightarrow> 's storage_write \<Rightarrow> addr_codec \<Rightarrow> borsh_codec
    \<Rightarrow> address \<Rightarrow> address \<Rightarrow> amount \<Rightarrow> ('s, unit) api_result" where
  "burn rd wr c X token source amt =
     env_bind (api_key (balance_key c token source)) (\<lambda>k.
     env_bind (read_balance rd c X token source) (\<lambda>balance.
     env_bind
       (case amount_checked_sub balance amt of
          Some new_balance \<Rightarrow> env_bind (api_write wr k (enc_amount X new_balance)) (\<lambda>_. env_return amt)
        | None \<Rightarrow> env_bind (api_write wr k (enc_amount X (Amount 0))) (\<lambda>_. env_return balance))
       (\<lambda>amount_to_burn.
     env_bind (read_total_supply rd c X source) (\<lambda>total_supply.
     env_bind (api_key (minted_balance_key c token)) (\<lambda>total_supply_key.
     api_write wr total_supply_key
       (enc_amount X (unwrap_or (amount_checked_sub total_supply amount_to_burn) (Amount 0))))))))"

section \<open>Amounts in storage\<close>

definition held :: "'s storage_read \<Rightarrow> borsh_codec \<Rightarrow> 's \<Rightarrow> key \<Rightarrow> nat" where
  "held rd X s k = (case Option.bind (rd s k) (dec_amount X) of Some a \<Rightarrow> unat (raw_amount a) | None \<Rightarrow> 0)"

definition well_typed :: "'s storage_read \<Rightarrow> borsh_codec \<Rightarrow> 's \<Rightarrow> key \<Rightarrow> bool" where
  "well_typed rd X s k \<longleftrightarrow> (\<forall>b. rd s k = Some b \<longrightarrow> dec_amount X b \<noteq> None)"

definition amount_of :: "nat \<Rightarrow> amount" where "amount_of n = Amount (of_nat n)"

lemma amount_of_unat: "amount_of (unat (raw_amount a)) = a"
  by (cases a) (simp add: amount_of_def)

lemma held_bound: "held rd X s k < 2 ^ 256"
  using unat_bound [where 'a = 256] by (simp add: held_def split: option.split)

lemma unat_amount_of: "n < 2 ^ 256 \<Longrightarrow> unat (raw_amount (amount_of n)) = n"
  by (simp add: amount_of_def unat_of_nat_lt)

lemma api_read_bind:
  assumes "well_typed rd X s k"
  shows "env_bind (api_read rd (dec_amount X) k) f s = f (map_option (\<lambda>_. amount_of (held rd X s k)) (rd s k)) s"
  using assms by (cases "rd s k") (auto simp: env_bind_def api_read_def held_def well_typed_def amount_of_unat)

lemma unwrap_held:
  "unwrap_or (map_option (\<lambda>_. amount_of (held rd X s k)) (rd s k)) (Amount 0) = amount_of (held rd X s k)"
  by (cases "rd s k") (simp_all add: unwrap_or_def held_def amount_of_def)

lemma amount_sub_eq:
  "amount_checked_sub (amount_of (held rd X s k)) a =
    (if unat (raw_amount a) \<le> held rd X s k then Some (amount_of (held rd X s k - unat (raw_amount a))) else None)"
  using held_bound [of rd X s k]
  by (cases a) (auto simp: amount_checked_sub_def checked_sub_def amount_of_def word_le_nat_alt unat_of_nat_lt of_nat_diff)

lemma amount_add_eq:
  "amount_checked_add (amount_of (held rd X s k)) a =
    (if held rd X s k + unat (raw_amount a) < 2 ^ 256 then Some (amount_of (held rd X s k + unat (raw_amount a))) else None)"
  using held_bound [of rd X s k]
  by (cases a) (auto simp: amount_checked_add_def checked_add_def amount_of_def MAX_VALUE_top unat_of_nat_lt)

text \<open>The keys of the balances and of the supplies.\<close>

abbreviation bal_key :: "address \<Rightarrow> address \<Rightarrow> key" where
  "bal_key token owner \<equiv> Key [AddressSeg MULTITOKEN, AddressSeg token, StringSeg BALANCE_STORAGE_KEY, AddressSeg owner]"

abbreviation supply_key :: "address \<Rightarrow> key" where
  "supply_key token \<equiv> Key [AddressSeg MULTITOKEN, AddressSeg token, StringSeg BALANCE_STORAGE_KEY, StringSeg MINTED_STORAGE_KEY]"

lemma api_key_bind: "env_bind (api_key (Some k)) f s = f k s"
  by (simp add: env_bind_def api_key_def env_of_def ok_or_def)

lemma read_balance_bind:
  assumes "codec_ok c" "well_typed rd X s (bal_key token owner)"
  shows "env_bind (read_balance rd c X token owner) f s = f (amount_of (held rd X s (bal_key token owner))) s"
proof -
  have "read_balance rd c X token owner s = (s, Inr (amount_of (held rd X s (bal_key token owner))))"
    using assms by (simp add: read_balance_def balance_key_eq api_key_bind api_read_bind unwrap_held env_return_def)
  then show ?thesis by (simp add: env_bind_def)
qed

lemma read_supply_bind:
  assumes "codec_ok c" "well_typed rd X s (supply_key token)"
  shows "env_bind (read_total_supply rd c X token) f s = f (amount_of (held rd X s (supply_key token))) s"
proof -
  have "read_total_supply rd c X token s = (s, Inr (amount_of (held rd X s (supply_key token))))"
    using assms by (simp add: read_total_supply_def minted_balance_key_eq api_key_bind api_read_bind unwrap_held env_return_def)
  then show ?thesis by (simp add: env_bind_def)
qed

lemma api_write_bind: "env_bind (api_write wr k b) f s = f () (wr s k b)"
  by (simp add: env_bind_def api_write_def)

lemma api_applied: "env_return x s = (s, Inr x)" "env_of r s = (s, r)" "api_write wr k b s = (wr s k b, Inr ())"
  by (simp_all add: env_return_def env_of_def api_write_def)

lemmas api_simps = api_applied api_read_bind unwrap_held read_balance_bind read_supply_bind api_key_bind env_bind_values api_write_bind amount_sub_eq amount_add_eq
  balance_key_eq minted_balance_key_eq

lemma transfer_eq:
  fixes token src dest X rd s
  defines "ks \<equiv> bal_key token src" and "kd \<equiv> bal_key token dest"
  assumes "codec_ok c" "well_typed rd X s ks" "well_typed rd X s kd"
  shows "transfer rd wr c X token src dest amt s =
    (let n = unat (raw_amount amt) in
     if n = 0 then (s, Inr ())
     else if held rd X s ks < n then (s, Inl (SimpleMessage ''Insufficient source balance''))
     else if 2 ^ 256 \<le> held rd X s kd + n then (s, Inl (SimpleMessage ''The transfer would overflow destination balance''))
     else (wr (wr s ks (enc_amount X (amount_of (held rd X s ks - n)))) kd (enc_amount X (amount_of (held rd X s kd + n))),
           Inr ()))"
  using assms
  by (auto simp: transfer_def api_simps Let_def unat_eq_0)

lemma credit_tokens_eq:
  fixes token dest X rd s
  defines "kd \<equiv> bal_key token dest" and "kt \<equiv> supply_key token"
  assumes "codec_ok c" "well_typed rd X s kd" "well_typed rd X s kt"
  shows "credit_tokens rd wr c X token dest amt s =
    (let n = unat (raw_amount amt) in
     if 2 ^ 256 \<le> held rd X s kd + n then (s, Inl (SimpleMessage ''Token balance overflow''))
     else if 2 ^ 256 \<le> held rd X s kt + n then (s, Inl (SimpleMessage ''Token total supply overflow''))
     else (wr (wr s kd (enc_amount X (amount_of (held rd X s kd + n)))) kt (enc_amount X (amount_of (held rd X s kt + n))),
           Inr ()))"
  using assms
  by (auto simp: credit_tokens_def api_simps ok_or_def Let_def)

text \<open>Protocol code runs sequences of these operations.\<close>

datatype token_op =
    Transfer address address address amount
  | Credit address address amount
  | Burn address address amount
  | SetDenom address denomination

fun run_op :: "'s storage_read \<Rightarrow> 's storage_write \<Rightarrow> addr_codec \<Rightarrow> borsh_codec \<Rightarrow> token_op \<Rightarrow> ('s, unit) api_result" where
  "run_op rd wr c X (Transfer token src dest amt) = transfer rd wr c X token src dest amt"
| "run_op rd wr c X (Credit token dest amt) = credit_tokens rd wr c X token dest amt"
| "run_op rd wr c X (Burn token source amt) = burn rd wr c X token source amt"
| "run_op rd wr c X (SetDenom token denom) = write_denom wr c X token denom"

definition run_ops :: "'s storage_read \<Rightarrow> 's storage_write \<Rightarrow> addr_codec \<Rightarrow> borsh_codec \<Rightarrow> token_op list \<Rightarrow> 's \<Rightarrow> 's" where
  "run_ops rd wr c X ops s = fold (\<lambda>op t. fst (run_op rd wr c X op t)) ops s"

definition tokens_typed :: "'s storage_read \<Rightarrow> borsh_codec \<Rightarrow> 's \<Rightarrow> bool" where
  "tokens_typed rd X s \<longleftrightarrow>
     (\<forall>token owner. well_typed rd X s (bal_key token owner)) \<and> (\<forall>token. well_typed rd X s (supply_key token))
   \<and> (\<forall>token b. rd s (Key [AddressSeg token, StringSeg DENOM_STORAGE_KEY]) = Some b \<longrightarrow> dec_denom X b \<noteq> None)"

lemma denom_key_Some: "codec_ok c \<Longrightarrow> denom_key c token = Some (Key [AddressSeg token, StringSeg DENOM_STORAGE_KEY])"
  by (simp add: denom_key_def address_to_db_key_def push_expect_string token_seg_wf del: seg_wf.simps)

section \<open>A storage in which a write is read back\<close>

locale storage_api =
  fixes rd :: "'s storage_read" and wr :: "'s storage_write" and ok :: "'s \<Rightarrow> bool"
  assumes read_write: "ok s \<Longrightarrow> rd (wr s k v) k' = (if k' = k then Some v else rd s k')"
    and write_ok: "ok s \<Longrightarrow> ok (wr s k v)"

context storage_api
begin

lemma held_write:
  assumes "ok s" "borsh_ok X" "n < 2 ^ 256"
  shows "held rd X (wr s k (enc_amount X (amount_of n))) i = (if i = k then n else held rd X s i)"
  using assms unat_amount_of [OF assms(3)] by (simp add: held_def read_write borsh_ok_def)

lemma well_typed_write:
  "ok s \<Longrightarrow> borsh_ok X \<Longrightarrow> well_typed rd X s i \<Longrightarrow> well_typed rd X (wr s k (enc_amount X a)) i"
  by (simp add: well_typed_def read_write borsh_ok_def)

lemma transfer_held:
  fixes token src dest X s amt
  defines "ks \<equiv> bal_key token src" and "kd \<equiv> bal_key token dest" and "n \<equiv> unat (raw_amount amt)"
  assumes "codec_ok c" "borsh_ok X" "ok s" "well_typed rd X s ks" "well_typed rd X s kd"
    and "transfer rd wr c X token src dest amt s = (s', r)"
  shows "(r = Inr () \<longleftrightarrow> n = 0 \<or> n \<le> held rd X s ks \<and> held rd X s kd + n < 2 ^ 256)
    \<and> (r \<noteq> Inr () \<longrightarrow> s' = s)
    \<and> (r = Inr () \<longrightarrow> (\<forall>k. held rd X s' k =
          (if k = kd then held rd X s kd + n else if k = ks then held rd X s ks - n else held rd X s k)))"
proof -
  have lt: "held rd X s ks - n < 2 ^ 256" using held_bound [of rd X s ks] by linarith
  show ?thesis
    using assms(9) lt held_write [OF write_ok [OF assms(6)] assms(5)] held_write [OF assms(6,5) lt]
    unfolding transfer_eq [OF assms(4) assms(7,8) [unfolded ks_def kd_def]] ks_def kd_def n_def
    by (auto simp: Let_def split: if_splits)
qed


lemma credit_held:
  fixes token dest X s amt
  defines "kd \<equiv> bal_key token dest" and "kt \<equiv> supply_key token" and "n \<equiv> unat (raw_amount amt)"
  assumes "codec_ok c" "borsh_ok X" "ok s" "well_typed rd X s kd" "well_typed rd X s kt"
    and "credit_tokens rd wr c X token dest amt s = (s', r)"
  shows "(r = Inr () \<longleftrightarrow> held rd X s kd + n < 2 ^ 256 \<and> held rd X s kt + n < 2 ^ 256)
    \<and> (r \<noteq> Inr () \<longrightarrow> s' = s)
    \<and> (r = Inr () \<longrightarrow> (\<forall>k. held rd X s' k = (if k = kd \<or> k = kt then held rd X s k + n else held rd X s k)))"
  using assms(9) held_write [OF write_ok [OF assms(6)] assms(5)] held_write [OF assms(6,5)]
  unfolding credit_tokens_eq [OF assms(4) assms(7,8) [unfolded kd_def kt_def]] kd_def kt_def n_def
  by (auto simp: Let_def split: if_splits)

lemma burn_eq:
  fixes token source X s amt
  defines "kb \<equiv> bal_key token source" and "b \<equiv> min (unat (raw_amount amt)) (held rd X s (bal_key token source))"
  assumes "codec_ok c" "borsh_ok X" "ok s" "well_typed rd X s kb" "well_typed rd X s (supply_key source)"
  shows "burn rd wr c X token source amt s =
    (wr (wr s kb (enc_amount X (amount_of (held rd X s kb - b)))) (supply_key token)
       (enc_amount X (amount_of (held rd X s (supply_key source) - b))), Inr ())"
proof -
  let ?s = "wr s kb (enc_amount X (amount_of (held rd X s kb - b)))"
  have "held rd X s kb - b < 2 ^ 256" using held_bound [of rd X s kb] by linarith
  then have h: "held rd X ?s (supply_key source) = held rd X s (supply_key source)"
    using held_write [OF assms(5,4), of _ kb "supply_key source"] by (simp add: kb_def)
  have z: "amount_of 0 = Amount 0" by (simp add: amount_of_def)
  have t: "well_typed rd X ?s (supply_key source)" using assms(5,4,7) by (rule well_typed_write)
  have a: "unat (raw_amount (amount_of (held rd X s kb))) = held rd X s kb" by (rule unat_amount_of [OF held_bound])
  have burnt: "burn rd wr c X token source amt s =
      env_bind (read_total_supply rd c X source) (\<lambda>total_supply.
      env_bind (api_key (minted_balance_key c token)) (\<lambda>k.
      api_write wr k (enc_amount X (unwrap_or (amount_checked_sub total_supply (amount_of b)) (Amount 0))))) ?s"
  proof (cases "unat (raw_amount amt) \<le> held rd X s kb")
    case True
    then show ?thesis
      using assms(3,6) by (simp add: burn_def api_simps env_bind_assoc kb_def b_def amount_of_unat min_absorb1)
  next
    case False
    then show ?thesis
      using assms(3,6) by (simp add: burn_def api_simps env_bind_assoc kb_def b_def z min_absorb2)
  qed
  have b: "unat (raw_amount (amount_of b)) = b" by (rule unat_amount_of) (use held_bound [of rd X s kb] in \<open>simp add: b_def kb_def\<close>)
  show ?thesis
    unfolding burnt using assms(3) t h b by (auto simp: api_simps unwrap_or_def z)
qed

lemma tokens_typed_amount:
  assumes "ok s" "borsh_ok X" "tokens_typed rd X s" "k = bal_key token owner \<or> k = supply_key token"
  shows "ok (wr s k (enc_amount X a)) \<and> tokens_typed rd X (wr s k (enc_amount X a))"
  using assms well_typed_write [OF assms(1,2)] by (auto simp: tokens_typed_def read_write write_ok)

lemma tokens_typed_denom:
  assumes "ok s" "borsh_ok X" "tokens_typed rd X s"
  shows "tokens_typed rd X (wr s (Key [AddressSeg token, StringSeg DENOM_STORAGE_KEY]) (enc_denom X d))"
  using assms by (auto simp: tokens_typed_def read_write well_typed_def borsh_ok_def)

lemma run_op_typed:
  assumes ok: "codec_ok c" "borsh_ok X" "ok s" and ty: "tokens_typed rd X s"
    and run: "run_op rd wr c X op s = (s', r)"
  shows "ok s' \<and> tokens_typed rd X s' \<and> r \<noteq> Inl DecodeFailed \<and> r \<noteq> Inl KeyPanic"
proof -
  note typed = tokens_typed_amount [OF _ ok(2)]
  have wt: "well_typed rd X s (bal_key t a)" "well_typed rd X s (supply_key t)" for t a
    using ty by (simp_all add: tokens_typed_def)
  show ?thesis
  proof (cases op)
    case (Transfer t src dest amt)
    then show ?thesis
      using run typed ok ty by (auto simp: transfer_eq wt Let_def split: if_splits)
  next
    case (Credit t dest amt)
    then show ?thesis
      using run typed ok ty by (auto simp: credit_tokens_eq wt Let_def split: if_splits)
  next
    case (Burn t src amt)
    then show ?thesis
      using run typed ok ty by (auto simp: burn_eq wt)
  next
    case (SetDenom t d)
    then show ?thesis
      using run tokens_typed_denom ok ty by (auto simp: write_denom_def denom_key_Some api_simps write_ok)
  qed
qed

lemma run_ops_typed:
  assumes "codec_ok c" "borsh_ok X" "ok s" "tokens_typed rd X s"
  shows "ok (run_ops rd wr c X ops s) \<and> tokens_typed rd X (run_ops rd wr c X ops s)"
  using assms(3,4)
proof (induction ops arbitrary: s)
  case (Cons op ops)
  have "ok (fst (run_op rd wr c X op s)) \<and> tokens_typed rd X (fst (run_op rd wr c X op s))"
    using run_op_typed [OF assms(1,2) Cons.prems] by (cases "run_op rd wr c X op s") simp
  then show ?case using Cons.IH by (simp add: run_ops_def)
qed (simp add: run_ops_def)

lemma reads_of_typed:
  assumes "codec_ok c" "tokens_typed rd X s"
  shows "\<exists>a. read_balance rd c X token owner s = (s, Inr a)"
    and "\<exists>a. read_total_supply rd c X token s = (s, Inr a)"
    and "\<exists>d. read_denom rd c X token s = (s, Inr (Some d))"
proof -
  have wt: "well_typed rd X s (bal_key token owner)" "well_typed rd X s (supply_key token)"
    using assms(2) by (simp_all add: tokens_typed_def)
  show "\<exists>a. read_balance rd c X token owner s = (s, Inr a)" "\<exists>a. read_total_supply rd c X token s = (s, Inr a)"
    using wt assms(1) by (simp_all add: read_balance_def read_total_supply_def api_simps)
  have dn: "\<exists>d. env_bind (api_read rd (dec_denom X) (Key [AddressSeg t, StringSeg DENOM_STORAGE_KEY]))
      (\<lambda>v. env_return (Some (unwrap_or v x))) s = (s, Inr (Some d))" for t x
    using assms(2)
    by (cases "rd s (Key [AddressSeg t, StringSeg DENOM_STORAGE_KEY])")
      (auto simp: tokens_typed_def env_bind_def api_read_def env_return_def split: option.split)
  show "\<exists>d. read_denom rd c X token s = (s, Inr (Some d))"
    using assms(1) dn
    by (auto simp: read_denom_def denom_key_Some api_simps split: address.split internal_address.split)
qed

end

section \<open>The storage of the protocol\<close>

text \<open>Outside of a transaction nothing is pending in the logs that hide the block log.\<close>

definition no_pending :: "'t wl_storage \<Rightarrow> bool" where
  "no_pending s \<longleftrightarrow> tx_write_log (wls_log s) = [] \<and> tx_precommit_write_log (wls_log s) = []"

interpretation wls_api: storage_api "read_bytes env" write_bytes no_pending
proof
  fix s :: "'a wl_storage" and k k' v
  assume "no_pending s"
  moreover have "fst (protocol_write (wls_log s) k v) =
      wls_log s\<lparr>block_write_log := hm_insert k (Write v) (block_write_log (wls_log s))\<rparr>"
    by (simp add: protocol_write_def Let_def split: option.split storage_modification.split)
  ultimately show "read_bytes env (write_bytes s k v) k' = (if k' = k then Some v else read_bytes env s k')"
      and "no_pending (write_bytes s k v)"
    by (auto simp: read_bytes_def write_bytes_def wl_read_fst no_pending_def update_conv' or_else_def split: option.split)
qed

abbreviation wls_held :: "'t storage_env \<Rightarrow> borsh_codec \<Rightarrow> 't wl_storage \<Rightarrow> key \<Rightarrow> nat" where
  "wls_held env X \<equiv> held (read_bytes env) X"

section \<open>A concrete codec\<close>

definition le_val :: "bytes \<Rightarrow> nat" where
  "le_val bs = foldr (\<lambda>b acc. unat b + 256 * acc) bs 0"

definition le_digits :: "nat \<Rightarrow> nat \<Rightarrow> bytes" where
  "le_digits k n = map (\<lambda>i. of_nat (n div 256 ^ i)) [0 ..< k]"

definition plain_borsh :: borsh_codec where
  "plain_borsh = \<lparr>enc_amount = (\<lambda>a. le_digits 32 (unat (raw_amount a))),
     dec_amount = (\<lambda>bs. if length bs = 32 then Some (Amount (of_nat (le_val bs))) else None),
     enc_denom = (\<lambda>d. [denom_u8 d]), dec_denom = (\<lambda>bs. case bs of [b] \<Rightarrow> Some (Denomination b) | _ \<Rightarrow> None),
     dec_address = (\<lambda>bs. case address_decode_bytes bs of Inr a \<Rightarrow> Some a | Inl _ \<Rightarrow> None)\<rparr>"

lemma le_val_digits: "le_val (le_digits k n) = n mod 256 ^ k"
proof (induction k arbitrary: n)
  case (Suc k)
  have "le_digits (Suc k) n = of_nat n # le_digits k (n div 256)"
    unfolding le_digits_def by (subst upt_conv_Cons) (simp_all add: map_Suc_upt [symmetric] div_mult2_eq del: upt_Suc)
  then have "le_val (le_digits (Suc k) n) = n mod 256 + 256 * (n div 256 mod 256 ^ k)"
    using Suc.IH [of "n div 256"] by (simp add: le_val_def unat_of_nat)
  then show ?case using mod_mult2_eq [of n 256 "256 ^ k"] by simp
qed (simp add: le_val_def le_digits_def)

lemma plain_borsh_ok: "borsh_ok plain_borsh"
proof -
  have "unat (raw_amount a) mod 256 ^ 32 = unat (raw_amount a)" for a
    using unat_bound [of "raw_amount a"] by simp
  then show ?thesis
    unfolding borsh_ok_def plain_borsh_def
    by (simp add: le_val_digits word_of_unat) (simp add: le_digits_def)
qed

section \<open>Properties\<close>

text \<open>(C4) A transfer succeeds exactly when the amount is zero, or the source has it and the destination
  has room for it; a failed transfer leaves the storage as it was. On success between two accounts the
  amount moves from one to the other and no other amount in storage changes. A transfer of an account to
  itself is not one of these: it adds the amount to the account.\<close>

theorem transfer_exact:
  fixes s :: "'t wl_storage"
  assumes "codec_ok c" "borsh_ok X" "no_pending s" "tokens_typed (read_bytes env) X s"
    and "transfer (read_bytes env) write_bytes c X token src dest amt s = (s', r)"
  shows "(r = Inr () \<longleftrightarrow> raw_amount amt = 0 \<or>
        unat (raw_amount amt) \<le> wls_held env X s (bal_key token src) \<and> wls_held env X s (bal_key token dest) + unat (raw_amount amt) < 2 ^ 256)
    \<and> (r \<noteq> Inr () \<longrightarrow> s' = s)
    \<and> (r = Inr () \<and> src \<noteq> dest \<longrightarrow> (\<forall>k. wls_held env X s' k =
          (if k = bal_key token src then wls_held env X s k - unat (raw_amount amt)
           else if k = bal_key token dest then wls_held env X s k + unat (raw_amount amt) else wls_held env X s k)))
    \<and> (r = Inr () \<and> src = dest \<longrightarrow> wls_held env X s' (bal_key token src) = wls_held env X s (bal_key token src) + unat (raw_amount amt))"
proof -
  have "well_typed (read_bytes env) X s (bal_key token src)" "well_typed (read_bytes env) X s (bal_key token dest)"
    using assms(4) by (simp_all add: tokens_typed_def)
  note wls_api.transfer_held [OF assms(1-3) this assms(5)]
  then show ?thesis by (intro conjI impI) (simp_all add: unat_eq_0)
qed

definition example_storage :: "unit wl_storage" where
  "example_storage = write_bytes \<lparr>wls_log = write_log_default, wls_storage = empty_storage\<rparr>
     (bal_key (Established [0]) (Established [1])) (enc_amount plain_borsh (amount_of 10))"

lemma example_storage_held:
  "wls_held plain_env plain_borsh example_storage k
     = (if k = bal_key (Established [0]) (Established [1]) then 10 else 0)"
  "no_pending example_storage" "tokens_typed (read_bytes plain_env) plain_borsh example_storage"
proof -
  let ?s = "\<lparr>wls_log = write_log_default, wls_storage = empty_storage\<rparr> :: unit wl_storage"
  have np: "no_pending ?s" by (simp add: no_pending_def write_log_default_def)
  have none: "read_bytes plain_env ?s k = None" for k
    by (simp add: read_bytes_def wl_read_fst write_log_default_def or_else_def read_subspace_val_def empty_storage_def)
  then show "wls_held plain_env plain_borsh example_storage k
     = (if k = bal_key (Established [0]) (Established [1]) then 10 else 0)"
    using wls_api.held_write [OF np plain_borsh_ok, of 10 plain_env "bal_key (Established [0]) (Established [1])" k]
    by (simp add: example_storage_def held_def)
  have "tokens_typed (read_bytes plain_env) plain_borsh ?s" by (simp add: tokens_typed_def well_typed_def none)
  then show "no_pending example_storage" "tokens_typed (read_bytes plain_env) plain_borsh example_storage"
    using wls_api.tokens_typed_amount [OF np plain_borsh_ok] unfolding example_storage_def by blast+
qed

theorem transfer_exact_witness:
  "let (s', r) = transfer (read_bytes plain_env) write_bytes hex_codec plain_borsh
         (Established [0]) (Established [1]) (Established [2]) (Amount 3) example_storage
   in r = Inr () \<and> wls_held plain_env plain_borsh s' (bal_key (Established [0]) (Established [1])) = 7
    \<and> wls_held plain_env plain_borsh s' (bal_key (Established [0]) (Established [2])) = 3"
proof -
  obtain s' r where t: "transfer (read_bytes plain_env) write_bytes hex_codec plain_borsh
      (Established [0]) (Established [1]) (Established [2]) (Amount 3) example_storage = (s', r)"
    by (meson surj_pair)
  show ?thesis
    using transfer_exact [OF hex_codec_ok plain_borsh_ok example_storage_held(2,3) t]
    by (simp add: t example_storage_held(1))
qed

text \<open>(C18) Minting adds the amount to the account and to the supply of the token, or fails without a
  change when either would overflow. Burning always succeeds and takes the amount, or all there is, from
  the account. The supply it writes for the token is that recorded for the account it burns from,
  read as a token, less the amount burnt: the supply of the token itself does not enter.\<close>

theorem mint_burn_exact:
  fixes s :: "'t wl_storage"
  assumes "codec_ok c" "borsh_ok X" "no_pending s" "tokens_typed (read_bytes env) X s"
    and "credit_tokens (read_bytes env) write_bytes c X token owner amt s = (s1, r1)"
    and "burn (read_bytes env) write_bytes c X token owner amt s = (s2, r2)"
  shows "(r1 = Inr () \<longleftrightarrow> wls_held env X s (bal_key token owner) + unat (raw_amount amt) < 2 ^ 256
        \<and> wls_held env X s (supply_key token) + unat (raw_amount amt) < 2 ^ 256)
    \<and> (r1 \<noteq> Inr () \<longrightarrow> s1 = s)
    \<and> (r1 = Inr () \<longrightarrow> (\<forall>k. wls_held env X s1 k =
          (if k = bal_key token owner \<or> k = supply_key token then wls_held env X s k + unat (raw_amount amt) else wls_held env X s k)))
    \<and> r2 = Inr ()
    \<and> (\<forall>k. wls_held env X s2 k =
          (if k = bal_key token owner then wls_held env X s k - unat (raw_amount amt)
           else if k = supply_key token
           then wls_held env X s (supply_key owner) - min (unat (raw_amount amt)) (wls_held env X s (bal_key token owner))
           else wls_held env X s k))"
proof -
  have wt: "well_typed (read_bytes env) X s (bal_key token owner)" "well_typed (read_bytes env) X s (supply_key t)" for t
    using assms(4) by (simp_all add: tokens_typed_def)
  have lt: "wls_held env X s k - n < 2 ^ 256" for k n
    using held_bound [of "read_bytes env" X s k] by linarith
  have "r2 = Inr () \<and> (\<forall>k. wls_held env X s2 k =
          (if k = bal_key token owner then wls_held env X s k - unat (raw_amount amt)
           else if k = supply_key token
           then wls_held env X s (supply_key owner) - min (unat (raw_amount amt)) (wls_held env X s (bal_key token owner))
           else wls_held env X s k))"
    using assms(6) lt wls_api.burn_eq [OF assms(1-3) wt(1) wt(2) [of owner]]
      wls_api.held_write [OF wls_api.write_ok [OF assms(3)] assms(2)] wls_api.held_write [OF assms(3,2)]
    by (auto simp: min_def)
  moreover note wls_api.credit_held [OF assms(1-3) wt(1) wt(2) [of token] assms(5)]
  ultimately show ?thesis by blast
qed

text \<open>Burning 3 of the 10 tokens leaves a recorded supply of 0, although it was 10 after the minting.\<close>

theorem mint_burn_exact_witness:
  "let (s1, r1) = credit_tokens (read_bytes plain_env) write_bytes hex_codec plain_borsh
         (Established [0]) (Established [1]) (Amount 3) example_storage;
       (s2, r2) = burn (read_bytes plain_env) write_bytes hex_codec plain_borsh
         (Established [0]) (Established [1]) (Amount 3) example_storage
   in r1 = Inr () \<and> r2 = Inr ()
    \<and> wls_held plain_env plain_borsh s1 (bal_key (Established [0]) (Established [1])) = 13
    \<and> wls_held plain_env plain_borsh s1 (supply_key (Established [0])) = 3
    \<and> wls_held plain_env plain_borsh s2 (bal_key (Established [0]) (Established [1])) = 7"
proof -
  obtain s1 r1 s2 r2 where t:
    "credit_tokens (read_bytes plain_env) write_bytes hex_codec plain_borsh
      (Established [0]) (Established [1]) (Amount 3) example_storage = (s1, r1)"
    "burn (read_bytes plain_env) write_bytes hex_codec plain_borsh
      (Established [0]) (Established [1]) (Amount 3) example_storage = (s2, r2)"
    by (meson surj_pair)
  show ?thesis
    using mint_burn_exact [OF hex_codec_ok plain_borsh_ok example_storage_held(2,3) t]
    by (simp add: t example_storage_held(1))
qed

text \<open>(C17) Token storage stays well typed. If every balance, supply and denomination in storage decodes,
  then after any sequence of transfers, mintings, burnings and changes of denominations, failed ones
  included, every one decodes again, so that reading a balance, a supply or a denomination never fails,
  and no operation of the sequence fails for a value that does not decode.\<close>

theorem tokens_stay_typed:
  fixes s :: "'t wl_storage"
  assumes "codec_ok c" "borsh_ok X" "no_pending s" "tokens_typed (read_bytes env) X s"
  shows "let s' = run_ops (read_bytes env) write_bytes c X ops s in
    tokens_typed (read_bytes env) X s'
    \<and> (\<forall>token owner. \<exists>a. read_balance (read_bytes env) c X token owner s' = (s', Inr a))
    \<and> (\<forall>token. \<exists>a. read_total_supply (read_bytes env) c X token s' = (s', Inr a))
    \<and> (\<forall>token. \<exists>d. read_denom (read_bytes env) c X token s' = (s', Inr (Some d)))
    \<and> (\<forall>op. snd (run_op (read_bytes env) write_bytes c X op s') \<notin> {Inl DecodeFailed, Inl KeyPanic})"
proof -
  let ?s = "run_ops (read_bytes env) write_bytes c X ops s"
  have inv: "no_pending ?s" "tokens_typed (read_bytes env) X ?s"
    using wls_api.run_ops_typed [OF assms] by blast+
  have "snd (run_op (read_bytes env) write_bytes c X op ?s) \<notin> {Inl DecodeFailed, Inl KeyPanic}" for op
    using wls_api.run_op_typed [OF assms(1,2) inv] by (cases "run_op (read_bytes env) write_bytes c X op ?s") auto
  then show ?thesis
    using inv(2) wls_api.reads_of_typed [OF assms(1) inv(2)] by (simp add: Let_def)
qed

theorem tokens_stay_typed_witness:
  "\<exists>a. read_balance (read_bytes plain_env) hex_codec plain_borsh (Established [0]) (Established [2])
      (run_ops (read_bytes plain_env) write_bytes hex_codec plain_borsh
        [Transfer (Established [0]) (Established [1]) (Established [2]) (Amount 3),
         Burn (Established [0]) (Established [2]) (Amount 9), SetDenom (Established [0]) (Denomination 6)] example_storage)
    = (run_ops (read_bytes plain_env) write_bytes hex_codec plain_borsh
        [Transfer (Established [0]) (Established [1]) (Established [2]) (Amount 3),
         Burn (Established [0]) (Established [2]) (Amount 9), SetDenom (Established [0]) (Denomination 6)] example_storage, Inr a)"
  using tokens_stay_typed [OF hex_codec_ok plain_borsh_ok example_storage_held(2,3)] unfolding Let_def by blast

end
