(* ===== verification/Multitoken_Vp.thy ===== *)
theory Multitoken_Vp
  imports Vp_Host_Fns Token_Storage
begin

text \<open>
  The native validity predicate of the multitoken account
  (shared/src/ledger/native_vp/multitoken.rs). A transaction that changes balances is accepted
  only when the changes of each token add up to the change of its minted supply. The changes are
  added as 256-bit signed integers, so the theorem assumes that the balances stay below
  \<open>2 ^ 255\<close>, and a second theorem shows what is accepted without that.
\<close>

section \<open>Reading typed values\<close>

text \<open>The error of the predicate wraps that of a host function or of Borsh; \<open>Panicked\<close> is a panic.\<close>

datatype native_vp_error = HostError runtime_error | DecodeError | Panicked

text \<open>The context of a native validity predicate: what its reads go to.\<close>

record 't vp_ctx =
  ctx_env :: "'t storage_env"
  ctx_storage :: "'t storage"
  ctx_write_log :: write_log
  ctx_codec :: borsh_codec

type_synonym 'a vp_result = "(vp_state, native_vp_error, 'a) comp"

definition vp_unwrap :: "native_vp_error \<Rightarrow> 'a option \<Rightarrow> 'a vp_result" where
  "vp_unwrap e x = env_of (ok_or x e)"

definition read_typed :: "(bytes \<Rightarrow> 'a option) \<Rightarrow> bytes option env_result \<Rightarrow> 'a option vp_result" where
  "read_typed dec m =
     env_bind (env_map_err HostError m) (\<lambda>bytes.
       case bytes of
         Some b \<Rightarrow> env_bind (vp_unwrap DecodeError (dec b)) (\<lambda>val. env_return (Some val))
       | None \<Rightarrow> env_return None)"

definition ctx_read_pre :: "'t vp_ctx \<Rightarrow> (bytes \<Rightarrow> 'a option) \<Rightarrow> key \<Rightarrow> 'a option vp_result" where
  "ctx_read_pre x dec k = read_typed dec (read_pre (ctx_env x) (ctx_storage x) (ctx_write_log x) k)"

definition ctx_read_post :: "'t vp_ctx \<Rightarrow> (bytes \<Rightarrow> 'a option) \<Rightarrow> key \<Rightarrow> 'a option vp_result" where
  "ctx_read_post x dec k = read_typed dec (read_post (ctx_env x) (ctx_storage x) (ctx_write_log x) k)"

section \<open>The predicate\<close>

type_synonym change_map = "(address, i256) hash_map"

text \<open>The change of one balance, and adding it to the entry of its token.\<close>

definition amount_diff :: "'t vp_ctx \<Rightarrow> key \<Rightarrow> i256 vp_result" where
  "amount_diff x k =
     env_bind (ctx_read_pre x (dec_amount (ctx_codec x)) k) (\<lambda>pre.
     env_bind (ctx_read_post x (dec_amount (ctx_codec x)) k) (\<lambda>post.
     vp_unwrap Panicked (do {
       post_change \<leftarrow> amount_change (unwrap_or post (Amount 0));
       pre_change \<leftarrow> amount_change (unwrap_or pre (Amount 0));
       i256_sub post_change pre_change
     })))"

definition bump_change :: "change_map \<Rightarrow> address \<Rightarrow> i256 \<Rightarrow> change_map vp_result" where
  "bump_change changes token diff =
     (case map_of changes token of
        Some change \<Rightarrow> env_bind (vp_unwrap Panicked (i256_add change diff)) (\<lambda>c. env_return (hm_insert token c changes))
      | None \<Rightarrow> env_return (hm_insert token diff changes))"

definition is_valid_minter :: "'t vp_ctx \<Rightarrow> address \<Rightarrow> address set \<Rightarrow> bool vp_result" where
  "is_valid_minter x token verifiers =
     (case token of
        Internal (IbcToken _) \<Rightarrow>
          env_bind (vp_unwrap Panicked (minter_key (env_codec (ctx_env x)) token)) (\<lambda>minter_key.
          env_bind (ctx_read_post x (dec_address (ctx_codec x)) minter_key) (\<lambda>minter.
          env_return (minter = Some (Internal Ibc) \<and> Internal Ibc \<in> verifiers)))
      | _ \<Rightarrow> env_return False)"

text \<open>The loop over the changed keys; \<open>None\<close> is the early return of \<open>false\<close>.\<close>

fun validate_keys :: "'t vp_ctx \<Rightarrow> address set \<Rightarrow> key list \<Rightarrow> change_map \<Rightarrow> change_map
    \<Rightarrow> (change_map \<times> change_map) option vp_result" where
  "validate_keys x verifiers [] changes mints = env_return (Some (changes, mints))"
| "validate_keys x verifiers (k # ks) changes mints =
     (case is_any_token_balance_key k of
        Some (token, _) \<Rightarrow>
          env_bind (amount_diff x k) (\<lambda>diff.
          env_bind (bump_change changes token diff) (\<lambda>changes.
          validate_keys x verifiers ks changes mints))
      | None \<Rightarrow> (case is_any_minted_balance_key k of
        Some token \<Rightarrow>
          env_bind (amount_diff x k) (\<lambda>diff.
          env_bind (bump_change mints token diff) (\<lambda>mints.
          env_bind (is_valid_minter x token verifiers) (\<lambda>valid.
          if \<not> valid then env_return None else validate_keys x verifiers ks changes mints)))
      | None \<Rightarrow> (case is_any_minter_key k of
        Some token \<Rightarrow>
          env_bind (is_valid_minter x token verifiers) (\<lambda>valid.
          if \<not> valid then env_return None else validate_keys x verifiers ks changes mints)
      | None \<Rightarrow>
          if key_get_at k 0 = Some (address_to_db_key MULTITOKEN) then env_return None
          else validate_keys x verifiers ks changes mints)))"

definition multitoken_validate_tx :: "'t vp_ctx \<Rightarrow> key list \<Rightarrow> address set \<Rightarrow> bool vp_result" where
  "multitoken_validate_tx x keys_changed verifiers =
     env_bind (validate_keys x verifiers keys_changed [] []) (\<lambda>r.
       env_return (case r of
         None \<Rightarrow> False
       | Some (changes, mints) \<Rightarrow>
           list_all (\<lambda>(token, change). change = unwrap_or (map_of mints token) (I256 0)) changes))"

section \<open>Amounts before and after\<close>

definition amount_in :: "borsh_codec \<Rightarrow> bytes option \<Rightarrow> int" where
  "amount_in X bytes = (case Option.bind bytes (dec_amount X) of Some a \<Rightarrow> uint (raw_amount a) | None \<Rightarrow> 0)"

definition bal_pre :: "'t vp_ctx \<Rightarrow> key \<Rightarrow> int" where
  "bal_pre x k = amount_in (ctx_codec x) (value_pre (ctx_env x) (ctx_storage x) (ctx_write_log x) k)"

definition bal_post :: "'t vp_ctx \<Rightarrow> key \<Rightarrow> int" where
  "bal_post x k = amount_in (ctx_codec x) (value_post (ctx_env x) (ctx_storage x) (ctx_write_log x) k)"

definition token_of :: "key \<Rightarrow> address option" where
  "token_of k = map_option fst (is_any_token_balance_key k)"

text \<open>The sum over the keys that a recogniser \<open>g\<close> assigns to a token.\<close>

definition key_sum :: "(key \<Rightarrow> address option) \<Rightarrow> (key \<Rightarrow> int) \<Rightarrow> address \<Rightarrow> key list \<Rightarrow> int" where
  "key_sum g f token ks = (\<Sum>k \<leftarrow> filter (\<lambda>k. g k = Some token) ks. f k)"

abbreviation token_sum :: "(key \<Rightarrow> int) \<Rightarrow> address \<Rightarrow> key list \<Rightarrow> int" where
  "token_sum \<equiv> key_sum token_of"

abbreviation mint_sum :: "(key \<Rightarrow> int) \<Rightarrow> address \<Rightarrow> key list \<Rightarrow> int" where
  "mint_sum \<equiv> key_sum is_any_minted_balance_key"

text \<open>The supply of a token may change: it is an IBC token, its minter after the transaction is the IBC
  account, and that account is a verifier.\<close>

definition minter_ok :: "'t vp_ctx \<Rightarrow> address \<Rightarrow> address set \<Rightarrow> bool" where
  "minter_ok x token verifiers \<longleftrightarrow> (\<exists>h. token = Internal (IbcToken h)) \<and> Internal Ibc \<in> verifiers \<and>
     (\<exists>k. minter_key (env_codec (ctx_env x)) token = Some k \<and>
        Option.bind (value_post (ctx_env x) (ctx_storage x) (ctx_write_log x) k) (dec_address (ctx_codec x)) = Some (Internal Ibc))"

lemma vp_unwrap_Inr [env_simps]: "vp_unwrap e v s = (s', Inr y) \<longleftrightarrow> s' = s \<and> v = Some y"
  by (auto simp: vp_unwrap_def env_of_Inr ok_or_def split: option.splits)

lemma amount_change_exact:
  "amount_change a = Some c \<longleftrightarrow> uint (raw_amount a) < half \<and> i256_ok c \<and> i256_val c = uint (raw_amount a)"
proof -
  have "i256_ok (I256 w) \<and> i256_val (I256 w) = uint w" if "uint w < half" for w
  proof -
    have r: "in_range (uint w)" using that by (simp add: in_range_def)
    have "i256_of (uint w) = I256 w" by (simp add: i256_of_def)
    then show ?thesis using val_i256_of [OF r] i256_of_ok [OF r] by simp
  qed
  moreover have "c = I256 w" if "i256_val c = uint w" for w
    using that i256_of_val [of c] by (simp add: i256_of_def)
  ultimately show ?thesis by (auto simp: amount_change_def try_from_eq)
qed

lemma read_typed_amount:
  assumes "read_typed (dec_amount X) m s = (s', Inr v)" "\<And>s s' b. m s = (s', Inr b) \<Longrightarrow> b = bytes"
  shows "uint (raw_amount (unwrap_or v (Amount 0))) = amount_in X bytes"
proof -
  obtain b t where b: "m s = (t, Inr b)" using assms(1) by (auto simp: read_typed_def env_simps)
  then have "b = bytes" by (rule assms(2))
  then show ?thesis
    using assms(1) b
    by (cases bytes) (auto simp: read_typed_def env_simps amount_in_def unwrap_or_def)
qed

lemma read_pre_amount:
  "ctx_read_pre x (dec_amount (ctx_codec x)) k s = (s', Inr v) \<Longrightarrow> uint (raw_amount (unwrap_or v (Amount 0))) = bal_pre x k"
  unfolding ctx_read_pre_def bal_pre_def by (erule read_typed_amount) (rule read_pre_value)

lemma read_post_amount:
  "ctx_read_post x (dec_amount (ctx_codec x)) k s = (s', Inr v) \<Longrightarrow> uint (raw_amount (unwrap_or v (Amount 0))) = bal_post x k"
  unfolding ctx_read_post_def bal_post_def by (erule read_typed_amount) (rule read_post_value)

lemma bal_nonneg: "0 \<le> bal_pre x k" "0 \<le> bal_post x k"
  by (simp_all add: bal_pre_def bal_post_def amount_in_def split: option.splits)

lemma amount_diff_exact:
  assumes "amount_diff x k s = (s', Inr d)"
  shows "i256_ok d" "i256_val d = bal_post x k - bal_pre x k" "in_range (bal_post x k - bal_pre x k)"
proof -
  obtain pre post t t' pc qc where r: "ctx_read_pre x (dec_amount (ctx_codec x)) k s = (t, Inr pre)"
      "ctx_read_post x (dec_amount (ctx_codec x)) k t = (t', Inr post)"
      and c: "amount_change (unwrap_or post (Amount 0)) = Some qc" "amount_change (unwrap_or pre (Amount 0)) = Some pc"
      "i256_sub qc pc = Some d"
    using assms by (auto simp: amount_diff_def env_simps bind_eq_Some_conv)
  have q: "i256_ok qc \<and> i256_val qc = bal_post x k \<and> bal_post x k < half"
    using c(1) read_post_amount [OF r(2)] by (simp add: amount_change_exact)
  have p: "i256_ok pc \<and> i256_val pc = bal_pre x k \<and> bal_pre x k < half"
    using c(2) read_pre_amount [OF r(1)] by (simp add: amount_change_exact)
  show rng: "in_range (bal_post x k - bal_pre x k)"
    using p q bal_nonneg [of x k] unfolding in_range_def by linarith
  then have "d = i256_of (bal_post x k - bal_pre x k)" using sub_exact [of qc pc] p q c(3) by simp
  then show "i256_ok d" "i256_val d = bal_post x k - bal_pre x k" using rng by (simp_all add: i256_of_ok val_i256_of)
qed

lemma read_typed_value:
  assumes "read_typed dec m s = (s', Inr v)" "\<And>s s' b. m s = (s', Inr b) \<Longrightarrow> b = bytes"
  shows "v = Option.bind bytes dec"
proof -
  obtain b t where b: "m s = (t, Inr b)" using assms(1) by (auto simp: read_typed_def env_simps)
  then have "b = bytes" by (rule assms(2))
  then show ?thesis using assms(1) b by (cases bytes) (auto simp: read_typed_def env_simps)
qed

lemma read_post_typed:
  "ctx_read_post x dec k s = (s', Inr v) \<Longrightarrow>
     v = Option.bind (value_post (ctx_env x) (ctx_storage x) (ctx_write_log x) k) dec"
  unfolding ctx_read_post_def by (erule read_typed_value) (rule read_post_value)

lemma is_valid_minter_True:
  assumes "is_valid_minter x token verifiers s = (s', Inr True)"
  shows "minter_ok x token verifiers"
proof (cases "\<exists>h. token = Internal (IbcToken h)")
  case True
  then obtain k t v where "minter_key (env_codec (ctx_env x)) token = Some k"
      and r: "ctx_read_post x (dec_address (ctx_codec x)) k s = (t, Inr v)"
      and v: "v = Some (Internal Ibc)" "Internal Ibc \<in> verifiers"
    using assms by (auto simp: is_valid_minter_def env_simps)
  then show ?thesis using True read_post_typed [OF r] by (auto simp: minter_ok_def)
next
  case False
  then have "is_valid_minter x token verifiers = env_return False"
    by (auto simp: is_valid_minter_def split: address.splits internal_address.splits)
  then show ?thesis using assms by (simp add: env_simps)
qed

section \<open>The loop\<close>

text \<open>What a map of changes holds after the keys \<open>ds\<close>: the changes of the tokens they belong to.\<close>

definition map_inv :: "'t vp_ctx \<Rightarrow> (key \<Rightarrow> address option) \<Rightarrow> key list \<Rightarrow> change_map \<Rightarrow> bool" where
  "map_inv x g ds m \<longleftrightarrow>
     (\<forall>token. map_of m token = None \<longrightarrow> (\<forall>k \<in> set ds. g k \<noteq> Some token))
   \<and> (\<forall>token c. map_of m token = Some c \<longrightarrow>
        i256_ok c \<and> i256_val c = key_sum g (bal_post x) token ds - key_sum g (bal_pre x) token ds)"

definition keys_inv :: "'t vp_ctx \<Rightarrow> address set \<Rightarrow> key list \<Rightarrow> bool" where
  "keys_inv x verifiers ds \<longleftrightarrow> (\<forall>k \<in> set ds.
      (\<forall>token. is_any_minted_balance_key k = Some token \<or> is_any_minter_key k = Some token \<longrightarrow> minter_ok x token verifiers)
    \<and> (key_get_at k 0 = Some (address_to_db_key MULTITOKEN) \<longrightarrow>
        token_of k \<noteq> None \<or> is_any_minted_balance_key k \<noteq> None \<or> is_any_minter_key k \<noteq> None))"

definition bounded :: "'t vp_ctx \<Rightarrow> key list \<Rightarrow> bool" where
  "bounded x ks \<longleftrightarrow> (\<forall>token. token_sum (bal_pre x) token ks < half \<and> token_sum (bal_post x) token ks < half)"

lemma key_sum_append: "key_sum g f token (xs @ ys) = key_sum g f token xs + key_sum g f token ys"
  by (simp add: key_sum_def)

lemma key_sum_single: "key_sum g f token [k] = (if g k = Some token then f k else 0)"
  by (simp add: key_sum_def)

lemma key_sum_nonneg: "(\<And>k. 0 \<le> f k) \<Longrightarrow> 0 \<le> key_sum g f token xs"
  unfolding key_sum_def by (intro sum_list_nonneg) auto

lemma key_sum_none: "\<forall>k \<in> set ds. g k \<noteq> Some token \<Longrightarrow> key_sum g f token ds = 0"
  by (simp add: key_sum_def filter_False)

lemma bounded_in_range:
  assumes "bounded x (ds @ ks)"
  shows "in_range (token_sum (bal_post x) token ds - token_sum (bal_pre x) token ds)"
proof -
  have "0 \<le> token_sum (bal_post x) token ks" "0 \<le> token_sum (bal_pre x) token ks"
    "0 \<le> token_sum (bal_post x) token ds" "0 \<le> token_sum (bal_pre x) token ds"
    by (rule key_sum_nonneg, rule bal_nonneg)+
  moreover have "token_sum (bal_pre x) token (ds @ ks) < half" "token_sum (bal_post x) token (ds @ ks) < half"
    using assms unfolding bounded_def by blast+
  ultimately show ?thesis unfolding in_range_def key_sum_append by linarith
qed

lemma map_inv_other: "map_inv x g ds m \<Longrightarrow> g k = None \<Longrightarrow> map_inv x g (ds @ [k]) m"
  by (simp add: map_inv_def key_sum_append key_sum_single)

lemma bump_change_cases:
  assumes "bump_change changes token d s = (s', Inr changes')"
  shows "\<exists>c. changes' = hm_insert token c changes \<and>
    (case map_of changes token of None \<Rightarrow> c = d | Some c' \<Rightarrow> i256_add c' d = Some c)"
  using assms by (cases "map_of changes token") (auto simp: bump_change_def env_simps)

lemma map_inv_bump:
  assumes inv: "map_inv x g ds m" and k: "g k = Some token"
    and rng: "in_range (key_sum g (bal_post x) token (ds @ [k]) - key_sum g (bal_pre x) token (ds @ [k]))"
    and d: "i256_ok d" "i256_val d = bal_post x k - bal_pre x k"
    and bump: "bump_change m token d s = (s', Inr m')"
  shows "map_inv x g (ds @ [k]) m'"
proof -
  let ?v = "key_sum g (bal_post x) token (ds @ [k]) - key_sum g (bal_pre x) token (ds @ [k])"
  obtain c where c: "m' = hm_insert token c m"
      "case map_of m token of None \<Rightarrow> c = d | Some c' \<Rightarrow> i256_add c' d = Some c"
    using bump_change_cases [OF bump] by blast
  have "i256_ok c \<and> i256_val c = ?v"
  proof (cases "map_of m token")
    case None
    then have "\<forall>k \<in> set ds. g k \<noteq> Some token" using inv unfolding map_inv_def by blast
    then show ?thesis using None c(2) d k key_sum_none [of ds g token] by (simp add: key_sum_append key_sum_single)
  next
    case (Some c')
    then have c': "i256_ok c'" "i256_val c' = key_sum g (bal_post x) token ds - key_sum g (bal_pre x) token ds"
      using inv unfolding map_inv_def by blast+
    then have "i256_val c' + i256_val d = ?v" using d(2) k by (simp add: key_sum_append key_sum_single)
    then have "i256_add c' d = Some (i256_of ?v)" using add_exact [OF c'(1) d(1)] rng by simp
    then have "c = i256_of ?v" using Some c(2) by simp
    then show ?thesis using i256_of_ok [OF rng] val_i256_of [OF rng] by blast
  qed
  moreover have "key_sum g f t (ds @ [k]) = key_sum g f t ds" if "t \<noteq> token" for f t
    using k that by (simp add: key_sum_append key_sum_single)
  ultimately show ?thesis
    using inv k unfolding map_inv_def c(1) by (auto simp: update_conv' fun_upd_apply split: if_splits)
qed

lemma token_key_shape:
  "is_any_token_balance_key k = Some (token, owner) \<Longrightarrow>
     k = Key [AddressSeg MULTITOKEN, AddressSeg token, StringSeg BALANCE_STORAGE_KEY, AddressSeg owner]"
  by (cases k rule: is_any_token_balance_key.cases) (auto split: if_splits)

lemma minted_key_shape:
  "is_any_minted_balance_key k = Some token \<Longrightarrow>
     k = Key [AddressSeg MULTITOKEN, AddressSeg token, StringSeg BALANCE_STORAGE_KEY, StringSeg MINTED_STORAGE_KEY]"
  by (cases k rule: is_any_minted_balance_key.cases) (auto split: if_splits)

lemma token_key_kinds:
  "is_any_token_balance_key k = Some p \<Longrightarrow> is_any_minted_balance_key k = None \<and> is_any_minter_key k = None"
  "is_any_minted_balance_key k = Some token \<Longrightarrow> is_any_minter_key k = None"
  by (cases p; auto dest!: token_key_shape) (auto dest!: minted_key_shape)

lemma minted_key_unique:
  "is_any_minted_balance_key k = Some token \<Longrightarrow> is_any_minted_balance_key k' = Some token \<Longrightarrow> k = k'"
  by (drule minted_key_shape)+ simp

lemma minted_sum_in_range:
  assumes "is_any_minted_balance_key k = Some token" "k \<notin> set ds" "in_range (bal_post x k - bal_pre x k)"
  shows "in_range (mint_sum (bal_post x) token (ds @ [k]) - mint_sum (bal_pre x) token (ds @ [k]))"
proof -
  have "\<forall>k' \<in> set ds. is_any_minted_balance_key k' \<noteq> Some token" using assms(1,2) minted_key_unique by blast
  then have "mint_sum f token ds = 0" for f by (rule key_sum_none)
  then show ?thesis using assms by (simp add: key_sum_append key_sum_single)
qed

definition loop_inv :: "'t vp_ctx \<Rightarrow> address set \<Rightarrow> key list \<Rightarrow> change_map \<Rightarrow> change_map \<Rightarrow> bool" where
  "loop_inv x verifiers ds changes mints \<longleftrightarrow>
     map_inv x token_of ds changes \<and> map_inv x is_any_minted_balance_key ds mints \<and> keys_inv x verifiers ds"

lemma loop_inv_balance:
  assumes inv: "loop_inv x verifiers ds changes mints" and k: "is_any_token_balance_key k = Some (token, owner)"
    and b: "bounded x ((ds @ [k]) @ ks)"
    and d: "amount_diff x k s = (t, Inr d)" and ch: "bump_change changes token d t = (t', Inr changes')"
  shows "loop_inv x verifiers (ds @ [k]) changes' mints"
proof -
  have tk: "token_of k = Some token" using k by (simp add: token_of_def)
  have no: "is_any_minted_balance_key k = None" "is_any_minter_key k = None"
    using token_key_kinds(1) [OF k] by simp_all
  have m: "map_inv x token_of ds changes" using inv by (simp add: loop_inv_def)
  have "map_inv x token_of (ds @ [k]) changes'"
    by (rule map_inv_bump [OF m tk bounded_in_range [OF b] amount_diff_exact(1,2) [OF d] ch])
  then show ?thesis using inv no tk map_inv_other [of x is_any_minted_balance_key ds mints k] by (simp add: loop_inv_def keys_inv_def)
qed

lemma loop_inv_minted:
  assumes inv: "loop_inv x verifiers ds changes mints" and k: "is_any_minted_balance_key k = Some token"
    and tk: "token_of k = None" and new: "k \<notin> set ds" and v: "minter_ok x token verifiers"
    and d: "amount_diff x k s = (t, Inr d)" and mi: "bump_change mints token d t = (t', Inr mints')"
  shows "loop_inv x verifiers (ds @ [k]) changes mints'"
proof -
  have m: "map_inv x is_any_minted_balance_key ds mints" using inv by (simp add: loop_inv_def)
  have "map_inv x is_any_minted_balance_key (ds @ [k]) mints'"
    by (rule map_inv_bump [OF m k minted_sum_in_range [OF k new amount_diff_exact(3) [OF d]]
        amount_diff_exact(1,2) [OF d] mi])
  then show ?thesis
    using inv v k tk token_key_kinds(2) [OF k] map_inv_other [of x token_of ds changes k] by (simp add: loop_inv_def keys_inv_def)
qed

lemma loop_inv_other:
  assumes "loop_inv x verifiers ds changes mints" "token_of k = None" "is_any_minted_balance_key k = None"
    and "case is_any_minter_key k of Some token \<Rightarrow> minter_ok x token verifiers
      | None \<Rightarrow> key_get_at k 0 \<noteq> Some (address_to_db_key MULTITOKEN)"
  shows "loop_inv x verifiers (ds @ [k]) changes mints"
  using assms map_inv_other by (auto simp: loop_inv_def keys_inv_def split: option.splits)

lemma validate_keys_sound:
  assumes "validate_keys x verifiers ks changes mints s = (s', Inr (Some (changes', mints')))"
    and "loop_inv x verifiers ds changes mints" "bounded x (ds @ ks)" "distinct (ds @ ks)"
  shows "loop_inv x verifiers (ds @ ks) changes' mints'"
  using assms
proof (induction ks arbitrary: ds changes mints s)
  case Nil
  then show ?case by (simp add: env_simps)
next
  case (Cons k ks)
  note inv = Cons.prems(2)
  have step: "loop_inv x verifiers (ds @ k # ks) changes' mints'"
    if "validate_keys x verifiers ks ch mi t = (s', Inr (Some (changes', mints')))" "loop_inv x verifiers (ds @ [k]) ch mi"
    for ch mi t
    using Cons.IH [OF that] Cons.prems(3,4) by simp
  show ?case
  proof (cases "is_any_token_balance_key k")
    case (Some p)
    then obtain token owner where p: "is_any_token_balance_key k = Some (token, owner)" by (cases p) simp
    have b: "bounded x ((ds @ [k]) @ ks)" using Cons.prems(3) by simp
    show ?thesis
      using Cons.prems(1) loop_inv_balance [OF inv p b] step
      unfolding validate_keys.simps p option.simps prod.case env_bind_Inr by blast
  next
    case None
    then have tk: "token_of k = None" by (simp add: token_of_def)
    show ?thesis
    proof (cases "is_any_minted_balance_key k")
      case (Some token)
      obtain d mi t t' t'' where d: "amount_diff x k s = (t, Inr d)" and mi: "bump_change mints token d t = (t', Inr mi)"
          and v: "is_valid_minter x token verifiers t' = (t'', Inr True)"
          and rest: "validate_keys x verifiers ks changes mi t'' = (s', Inr (Some (changes', mints')))"
        using Cons.prems(1) unfolding validate_keys.simps None Some option.simps env_bind_Inr
        by (auto simp: env_return_iff split: if_splits)
      have "k \<notin> set ds" using Cons.prems(4) by simp
      then show ?thesis
        by (rule step [OF rest loop_inv_minted [OF inv Some tk _ is_valid_minter_True [OF v] d mi]])
    next
      case nm: None
      show ?thesis
      proof (cases "is_any_minter_key k")
        case (Some token)
        obtain t where v: "is_valid_minter x token verifiers s = (t, Inr True)"
            and rest: "validate_keys x verifiers ks changes mints t = (s', Inr (Some (changes', mints')))"
          using Cons.prems(1) unfolding validate_keys.simps None nm Some option.simps env_bind_Inr
          by (auto simp: env_return_iff split: if_splits)
        show ?thesis using loop_inv_other [OF inv tk nm] Some is_valid_minter_True [OF v] by (intro step [OF rest]) simp
      next
        case nn: None
        then have rest: "validate_keys x verifiers ks changes mints s = (s', Inr (Some (changes', mints')))"
            and "key_get_at k 0 \<noteq> Some (address_to_db_key MULTITOKEN)"
          using Cons.prems(1) None nm by (simp_all add: env_return_iff split: if_splits)
        then show ?thesis using loop_inv_other [OF inv tk nm] nn by (intro step [OF rest]) simp
      qed
    qed
  qed
qed

section \<open>Properties\<close>

text \<open>(C3) A transaction that the multitoken predicate accepts moves tokens without creating or destroying
  them: for every token of which a balance changed, the changed balances grow by exactly the change of
  the minted supply, and supply and minters change only for IBC tokens whose recorded minter is the IBC
  account, with that account among the verifiers. Nothing else under the multitoken account changes. The
  balances of a token are assumed to add up to less than \<open>2 ^ 255\<close>, before and after. A change of the
  supply of a token of which no balance changed is not compared with anything.\<close>

theorem multitoken_conserves:
  assumes "multitoken_validate_tx x keys verifiers s = (s', Inr True)" and "distinct keys" and "bounded x keys"
  shows "(\<forall>token. (\<exists>k \<in> set keys. token_of k = Some token) \<longrightarrow>
        token_sum (bal_post x) token keys - token_sum (bal_pre x) token keys
        = mint_sum (bal_post x) token keys - mint_sum (bal_pre x) token keys)
    \<and> (\<forall>token. \<not> minter_ok x token verifiers \<longrightarrow> token_sum (bal_post x) token keys = token_sum (bal_pre x) token keys)
    \<and> keys_inv x verifiers keys"
proof -
  obtain t r where r: "validate_keys x verifiers keys [] [] s = (t, Inr r)"
      "(case r of None \<Rightarrow> False
        | Some (changes, mints) \<Rightarrow> list_all (\<lambda>(token, change). change = unwrap_or (map_of mints token) (I256 0)) changes)"
    using assms(1) unfolding multitoken_validate_tx_def env_bind_Inr env_return_iff by auto
  then obtain ch mi where p: "r = Some (ch, mi)" by (auto split: option.splits)
  have inv: "map_inv x token_of keys ch" "map_inv x is_any_minted_balance_key keys mi" "keys_inv x verifiers keys"
    using validate_keys_sound [OF r(1) [unfolded p], of "[]"] assms(2,3) by (simp_all add: loop_inv_def map_inv_def keys_inv_def)
  have eq: "token_sum (bal_post x) token keys - token_sum (bal_pre x) token keys
      = mint_sum (bal_post x) token keys - mint_sum (bal_pre x) token keys"
    if ex: "\<exists>k \<in> set keys. token_of k = Some token" for token
  proof -
    obtain c where c: "map_of ch token = Some c" using inv(1) ex unfolding map_inv_def by (cases "map_of ch token") auto
    then have "c = unwrap_or (map_of mi token) (I256 0)"
      using r(2) p map_of_SomeD [OF c] by (auto simp: list_all_iff)
    then have "i256_val c = mint_sum (bal_post x) token keys - mint_sum (bal_pre x) token keys"
      using inv(2) key_sum_none [of keys is_any_minted_balance_key token]
      unfolding map_inv_def by (cases "map_of mi token") (auto simp: unwrap_or_def i256_val_def)
    then show ?thesis using inv(1) c unfolding map_inv_def by simp
  qed
  have "token_sum (bal_post x) token keys = token_sum (bal_pre x) token keys" if "\<not> minter_ok x token verifiers" for token
  proof (cases "\<exists>k \<in> set keys. token_of k = Some token")
    case True
    have "\<forall>k \<in> set keys. is_any_minted_balance_key k \<noteq> Some token" using inv(3) that unfolding keys_inv_def by blast
    then show ?thesis using eq [OF True] key_sum_none [of keys is_any_minted_balance_key token] by simp
  next
    case False
    then show ?thesis using key_sum_none [of keys token_of token] by simp
  qed
  then show ?thesis using eq inv(3) by blast
qed

text \<open>A transfer of 3 out of 10 tokens between two accounts.\<close>

definition example_key :: "u8 \<Rightarrow> key" where
  "example_key n = Key [AddressSeg MULTITOKEN, AddressSeg (Established [0]), StringSeg BALANCE_STORAGE_KEY,
     AddressSeg (Established [n])]"

definition example_ctx :: "(key \<times> amount) list \<Rightarrow> (key \<times> amount) list \<Rightarrow> unit vp_ctx" where
  "example_ctx before after =
     (let writes = map (\<lambda>(k, a). (k, Write (enc_amount plain_borsh a))) in
      \<lparr>ctx_env = plain_env, ctx_storage = empty_storage,
       ctx_write_log = write_log_default\<lparr>block_write_log := writes before, tx_write_log := writes after\<rparr>,
       ctx_codec = plain_borsh\<rparr>)"

definition meter :: "u64 \<Rightarrow> vp_state" where
  "meter g = (\<lparr>vp_tx_gas_limit = gas_of_u64 1000000000, initial_gas = gas_of_u64 0, current_gas = gas_of_u64 g\<rparr>, SentinelNone)"

definition transfer_ctx :: "unit vp_ctx" where
  "transfer_ctx = example_ctx [(example_key 1, Amount 10)] [(example_key 1, Amount 7), (example_key 2, Amount 3)]"

definition forged_ctx :: "unit vp_ctx" where
  "forged_ctx = example_ctx [] [(example_key 1, Amount MAX_SIGNED_VALUE), (example_key 2, Amount 1)]"

lemma add_gas_meter:
  assumes "unat g + n \<le> 1000000000"
  shows "charge_cost n (meter g) = (meter (of_nat (unat g + n)), Inr ())"
proof -
  have "unat (of_nat n :: u64) = n" using assms by (intro unat_of_nat_lt) simp
  moreover have "unat (of_nat (unat g + n) :: u64) = unat g + n" using assms by (intro unat_of_nat_lt) simp
  ultimately have "vp_consume (fst (meter g)) (of_nat n) = (fst (meter (of_nat (unat g + n))), Inr ())"
    using assms
    by (simp add: vp_consume_def meter_def gas_checked_add_def checked_add_def gas_of_u64_def Let_def word_less_nat_alt unat_of_nat_lt)
  then show ?thesis using assms by (simp add: meter_def add_gas_def charge_cost_def)
qed

lemma example_key_len: "key_len hex_codec (example_key n) = 20"
  by (simp add: key_len_def example_key_def hex_codec_def key_to_string_def BALANCE_STORAGE_KEY_def)

lemma read_typed_example:
  assumes "\<exists>g'. m (meter g) = (meter g', Inr (map_option (enc_amount plain_borsh) a)) \<and> unat g' \<le> b"
  shows "\<exists>g'. read_typed (dec_amount plain_borsh) m (meter g) = (meter g', Inr a) \<and> unat g' \<le> b"
proof -
  obtain g' where "m (meter g) = (meter g', Inr (map_option (enc_amount plain_borsh) a))" "unat g' \<le> b"
    using assms by blast
  moreover have "dec_amount plain_borsh (enc_amount plain_borsh v) = Some v" for v
    using plain_borsh_ok by (simp add: borsh_ok_def)
  ultimately show ?thesis
    by (cases a) (auto simp: read_typed_def env_bind_def env_map_err_def env_return_def vp_unwrap_def env_of_def ok_or_def)
qed

lemma log_read_example:
  assumes "unat g + 5000 \<le> 1000000000"
    and "f = (case map_of ws (example_key n) of
           Some a \<Rightarrow> (Some (Write (enc_amount plain_borsh a)), 104) | None \<Rightarrow> (None, 40))"
  shows "\<exists>g'. (case f of (v, gas) \<Rightarrow> env_bind (charge_cost gas) (\<lambda>_. log_or_storage plain_env empty_storage (example_key n) v)) (meter g)
    = (meter g', Inr (map_option (enc_amount plain_borsh) (map_of ws (example_key n)))) \<and> unat g' \<le> unat g + 5000"
proof (cases "map_of ws (example_key n)")
  case None
  have r: "st_read plain_env empty_storage (example_key n) = Inr (None, 20 * unat STORAGE_ACCESS_GAS_PER_BYTE)"
    by (simp add: st_read_def st_has_key_def plain_env_def empty_storage_def read_subspace_val_def example_key_len
        res_bind_def)
  have c: "20 * unat STORAGE_ACCESS_GAS_PER_BYTE \<le> 4000"
    by (simp add: STORAGE_ACCESS_GAS_PER_BYTE_def PHYSICAL_STORAGE_LATENCY_PER_BYTE_def)
  have u: "unat (of_nat (unat g + 40) :: u64) = unat g + 40" using assms(1) by (intro unat_of_nat_lt) simp
  let ?n = "20 * unat STORAGE_ACCESS_GAS_PER_BYTE"
  have "unat (of_nat (unat g + 40 + ?n) :: u64) = unat g + 40 + ?n" using assms(1) c by (intro unat_of_nat_lt) simp
  then show ?thesis
    using None assms c u add_gas_meter [of g 40] add_gas_meter [of "of_nat (unat g + 40)" ?n]
    by (intro exI [of _ "of_nat (unat g + 40 + ?n)"]) (simp add: env_bind_def log_or_storage_def env_of_def env_return_def r)
next
  case (Some a)
  have "unat (of_nat (unat g + 104) :: u64) = unat g + 104" using assms(1) by (intro unat_of_nat_lt) simp
  then show ?thesis
    using Some assms add_gas_meter [of g 104]
    by (intro exI [of _ "of_nat (unat g + 104)"]) (simp add: env_bind_def log_or_storage_def env_return_def)
qed

lemma log_example:
  fixes before after :: "(key \<times> amount) list"
  defines "w \<equiv> ctx_write_log (example_ctx before after)"
  shows "wl_read_pre hex_codec w (example_key n) = (case map_of before (example_key n) of
           Some a \<Rightarrow> (Some (Write (enc_amount plain_borsh a)), 104) | None \<Rightarrow> (None, 40))"
    "wl_read hex_codec w (example_key n) = (case map_of (after @ before) (example_key n) of
           Some a \<Rightarrow> (Some (Write (enc_amount plain_borsh a)), 104) | None \<Rightarrow> (None, 40))"
proof -
  have m: "map_of (map (\<lambda>(k, a). (k, Write (enc_amount plain_borsh a))) ws) k = map_option (\<lambda>a. Write (enc_amount plain_borsh a)) (map_of ws k)"
    for ws :: "(key \<times> amount) list" and k by (simp add: map_of_map)
  have l: "length (enc_amount plain_borsh a) = 32" for a by (simp add: plain_borsh_def le_digits_def)
  note defs = w_def example_ctx_def Let_def write_log_default_def m l example_key_len MEMORY_ACCESS_GAS_PER_BYTE_def
  show "wl_read_pre hex_codec w (example_key n) = (case map_of before (example_key n) of
           Some a \<Rightarrow> (Some (Write (enc_amount plain_borsh a)), 104) | None \<Rightarrow> (None, 40))"
    by (simp add: wl_read_pre_def defs split: option.split)
  show "wl_read hex_codec w (example_key n) = (case map_of (after @ before) (example_key n) of
           Some a \<Rightarrow> (Some (Write (enc_amount plain_borsh a)), 104) | None \<Rightarrow> (None, 40))"
    by (cases "map_of after (example_key n)"; cases "map_of before (example_key n)")
       (simp_all add: wl_read_def defs or_else_def map_add_def)
qed

lemma amount_diff_example:
  assumes "unat g + 10000 \<le> 1000000000"
    and "unwrap_or (map_of before (example_key n)) (Amount 0) = p" "uint (raw_amount p) < half"
    and "unwrap_or (map_of (after @ before) (example_key n)) (Amount 0) = q" "uint (raw_amount q) < half"
  shows "\<exists>g'. amount_diff (example_ctx before after) (example_key n) (meter g)
    = (meter g', Inr (i256_of (uint (raw_amount q) - uint (raw_amount p)))) \<and> unat g' \<le> unat g + 10000"
proof -
  let ?x = "example_ctx before after"
  have x: "ctx_env ?x = plain_env" "ctx_storage ?x = empty_storage" "ctx_codec ?x = plain_borsh" "env_codec plain_env = hex_codec"
    by (simp_all add: example_ctx_def Let_def plain_env_def)
  have "unat g + 5000 \<le> 1000000000" using assms(1) by simp
  then have "\<exists>g'. read_pre plain_env empty_storage (ctx_write_log ?x) (example_key n) (meter g)
      = (meter g', Inr (map_option (enc_amount plain_borsh) (map_of before (example_key n)))) \<and> unat g' \<le> unat g + 5000"
    unfolding read_pre_def Let_def x by (rule log_read_example [OF _ log_example(1)])
  from read_typed_example [of "read_pre plain_env empty_storage (ctx_write_log ?x) (example_key n)" g, OF this] obtain g1 where
      g1: "ctx_read_pre ?x (dec_amount plain_borsh) (example_key n) (meter g) = (meter g1, Inr (map_of before (example_key n)))"
      "unat g1 \<le> unat g + 5000"
    unfolding ctx_read_pre_def x by blast
  have "unat g1 + 5000 \<le> 1000000000" using g1(2) assms(1) by simp
  then have "\<exists>g'. read_post plain_env empty_storage (ctx_write_log ?x) (example_key n) (meter g1)
      = (meter g', Inr (map_option (enc_amount plain_borsh) (map_of (after @ before) (example_key n)))) \<and> unat g' \<le> unat g1 + 5000"
    unfolding read_post_def Let_def x by (rule log_read_example [OF _ log_example(2)])
  from read_typed_example [of "read_post plain_env empty_storage (ctx_write_log ?x) (example_key n)" g1, OF this] obtain g2 where
      g2: "ctx_read_post ?x (dec_amount plain_borsh) (example_key n) (meter g1) = (meter g2, Inr (map_of (after @ before) (example_key n)))"
      "unat g2 \<le> unat g1 + 5000"
    unfolding ctx_read_post_def x by blast
  obtain pc qc where c: "amount_change p = Some pc" "amount_change q = Some qc"
    using assms(3,5) by (auto simp: amount_change_def try_from_eq)
  then have "i256_sub qc pc = Some (i256_of (uint (raw_amount q) - uint (raw_amount p)))"
    using sub_exact [of qc pc] assms(3,5) u256_bounds [of "raw_amount p"] u256_bounds [of "raw_amount q"]
    by (simp add: amount_change_exact in_range_def abs_diff_less_iff)
  then show ?thesis
    using g1 g2 c assms(2,4)
    by (intro exI [of _ g2]) (simp add: amount_diff_def x env_bind_def vp_unwrap_def env_of_def ok_or_def)
qed

lemma max_plus_one: "i256_add (I256 MAX_SIGNED_VALUE) (I256 1) = Some (I256 0)"
proof -
  have "i256_ok (I256 MAX_SIGNED_VALUE)" "i256_ok (I256 1)"
    by (simp_all add: i256_ok_def MAX_SIGNED_VALUE_def MINUS_ZERO_def)
  moreover have "MAX_SIGNED_VALUE + 1 = MINUS_ZERO" by (simp add: MAX_SIGNED_VALUE_def MINUS_ZERO_def)
  ultimately show ?thesis
    using add_raw [of "I256 MAX_SIGNED_VALUE" "I256 1"] by (simp add: i256_canonical_def uint_canonical_def)
qed

lemma validate_two:
  assumes "is_any_token_balance_key k1 = Some (token, o1)" "is_any_token_balance_key k2 = Some (token, o2)"
    and "amount_diff x k1 s = (s1, Inr d1)" "amount_diff x k2 s1 = (s2, Inr d2)" "i256_add d1 d2 = Some c"
  shows "multitoken_validate_tx x [k1, k2] verifiers s = (s2, Inr (c = I256 0))"
  using assms
  by (simp add: multitoken_validate_tx_def bump_change_def env_bind_def env_return_def vp_unwrap_def env_of_def
      ok_or_def unwrap_or_def)

lemma example_key_token: "is_any_token_balance_key (example_key n) = Some (Established [0], Established [n])"
  by (simp add: example_key_def)

lemma transfer_accepted:
  "\<exists>g. multitoken_validate_tx transfer_ctx [example_key 1, example_key 2] {} (meter 0) = (meter g, Inr True)"
proof -
  have ne: "example_key 1 \<noteq> example_key 2" "example_key 2 \<noteq> example_key 1" by (simp_all add: example_key_def)
  have h: "(10::int) < half" by (simp add: half_def)
  obtain g1 where g1: "amount_diff transfer_ctx (example_key 1) (meter 0) = (meter g1, Inr (i256_of (- 3)))" "unat g1 \<le> 10000"
    using amount_diff_example [of 0 "[(example_key 1, Amount 10)]" 1 "Amount 10"
        "[(example_key 1, Amount 7), (example_key 2, Amount 3)]" "Amount 7"] h
    by (auto simp: transfer_ctx_def unwrap_or_def)
  obtain g2 where g2: "amount_diff transfer_ctx (example_key 2) (meter g1) = (meter g2, Inr (i256_of 3))"
    using amount_diff_example [of g1 "[(example_key 1, Amount 10)]" 2 "Amount 0"
        "[(example_key 1, Amount 7), (example_key 2, Amount 3)]" "Amount 3"] h g1(2) ne
    by (auto simp: transfer_ctx_def unwrap_or_def)
  have r: "in_range (- 3)" "in_range 3" "in_range 0" by (simp_all add: small_in_range)
  have "i256_add (i256_of (- 3)) (i256_of 3) = Some (i256_of 0)"
    using add_exact [OF i256_of_ok [OF r(1)] i256_of_ok [OF r(2)]] r by (simp add: val_i256_of)
  then have "i256_add (i256_of (- 3)) (i256_of 3) = Some (I256 0)" by (simp add: i256_of_def)
  then show ?thesis using validate_two [OF example_key_token example_key_token g1(1) g2] by auto
qed

lemma balance_example:
  "bal_pre (example_ctx before after) (example_key n) = uint (raw_amount (unwrap_or (map_of before (example_key n)) (Amount 0)))"
  "bal_post (example_ctx before after) (example_key n) = uint (raw_amount (unwrap_or (map_of (after @ before) (example_key n)) (Amount 0)))"
proof -
  let ?x = "example_ctx before after"
  have x: "ctx_env ?x = plain_env" "ctx_storage ?x = empty_storage" "ctx_codec ?x = plain_borsh" "env_codec plain_env = hex_codec"
    by (simp_all add: example_ctx_def Let_def plain_env_def)
  have none: "stored plain_env empty_storage k = None" for k
    by (simp add: stored_def st_read_def st_has_key_def plain_env_def empty_storage_def read_subspace_val_def res_bind_def)
  have dec: "dec_amount plain_borsh (enc_amount plain_borsh v) = Some v" for v
    using plain_borsh_ok by (simp add: borsh_ok_def)
  show "bal_pre ?x (example_key n) = uint (raw_amount (unwrap_or (map_of before (example_key n)) (Amount 0)))"
    by (cases "map_of before (example_key n)")
       (simp_all add: bal_pre_def value_pre_def x log_example(1) none amount_in_def unwrap_or_def dec)
  show "bal_post ?x (example_key n) = uint (raw_amount (unwrap_or (map_of (after @ before) (example_key n)) (Amount 0)))"
    by (cases "map_of (after @ before) (example_key n)")
       (simp_all add: bal_post_def value_post_def x log_example(2) none amount_in_def unwrap_or_def dec del: map_of_append)
qed

theorem multitoken_conserves_witness:
  "(\<exists>g. multitoken_validate_tx transfer_ctx [example_key 1, example_key 2] {} (meter 0) = (meter g, Inr True))
   \<and> token_sum (bal_post transfer_ctx) (Established [0]) [example_key 1, example_key 2]
     = token_sum (bal_pre transfer_ctx) (Established [0]) [example_key 1, example_key 2]"
proof -
  have ne: "example_key 1 \<noteq> example_key 2" "example_key 2 \<noteq> example_key 1" by (simp_all add: example_key_def)
  have b: "bal_pre transfer_ctx (example_key 1) = 10" "bal_pre transfer_ctx (example_key 2) = 0"
    "bal_post transfer_ctx (example_key 1) = 7" "bal_post transfer_ctx (example_key 2) = 3"
    using ne by (simp_all add: transfer_ctx_def balance_example unwrap_or_def)
  have "bounded transfer_ctx [example_key 1, example_key 2]"
    by (simp add: bounded_def key_sum_def token_of_def example_key_token b half_def)
  moreover obtain g where "multitoken_validate_tx transfer_ctx [example_key 1, example_key 2] {} (meter 0) = (meter g, Inr True)"
    using transfer_accepted by blast
  ultimately show ?thesis
    using multitoken_conserves [of transfer_ctx "[example_key 1, example_key 2]" "{}" "meter 0" "meter g"] ne
    by (auto simp: minter_ok_def)
qed

text \<open>(C34) The predicate adds the changes of a token with the operator that wraps around, so it can be
  deceived: a transaction that writes \<open>2 ^ 255 - 1\<close> tokens to one account and one token to another, both
  empty before, is never rejected, although \<open>2 ^ 255\<close> tokens were created.\<close>

theorem multitoken_forgery:
  assumes "is_any_token_balance_key k1 = Some (token, o1)" and "is_any_token_balance_key k2 = Some (token, o2)"
    and "bal_pre x k1 = 0" "bal_pre x k2 = 0" "bal_post x k1 = 2 ^ 255 - 1" "bal_post x k2 = 1"
    and "multitoken_validate_tx x [k1, k2] verifiers s = (s', Inr verdict)"
  shows "verdict \<and> token_sum (bal_post x) token [k1, k2] - token_sum (bal_pre x) token [k1, k2] = 2 ^ 255"
proof -
  obtain t r where "validate_keys x verifiers [k1, k2] [] [] s = (t, Inr r)"
    using assms(7) unfolding multitoken_validate_tx_def env_bind_Inr by blast
  then obtain d1 d2 s1 s2 where d: "amount_diff x k1 s = (s1, Inr d1)" "amount_diff x k2 s1 = (s2, Inr d2)"
    using assms(1,2)
    by (auto simp: bump_change_def env_bind_Inr env_return_iff vp_unwrap_Inr split: prod.splits)
  have "d1 = i256_of (2 ^ 255 - 1)" "d2 = i256_of 1"
    using amount_diff_exact [OF d(1)] amount_diff_exact [OF d(2)] assms(3-6) i256_of_val [of d1] i256_of_val [of d2] by simp_all
  then have "d1 = I256 MAX_SIGNED_VALUE" "d2 = I256 1"
    by (simp_all add: i256_of_def MAX_SIGNED_VALUE_def)
  then have "i256_add d1 d2 = Some (I256 0)" using max_plus_one by simp
  then show ?thesis
    using validate_two [OF assms(1,2) d] assms by (simp add: key_sum_def token_of_def)
qed

theorem multitoken_forgery_witness:
  "\<exists>g. multitoken_validate_tx forged_ctx [example_key 1, example_key 2] {} (meter 0) = (meter g, Inr True)"
proof -
  have ne: "example_key 1 \<noteq> example_key 2" "example_key 2 \<noteq> example_key 1" by (simp_all add: example_key_def)
  have m: "uint MAX_SIGNED_VALUE = 2 ^ 255 - 1" by (simp add: MAX_SIGNED_VALUE_def)
  have b: "bal_pre forged_ctx (example_key 1) = 0" "bal_pre forged_ctx (example_key 2) = 0"
    "bal_post forged_ctx (example_key 1) = 2 ^ 255 - 1" "bal_post forged_ctx (example_key 2) = 1"
    using ne m by (simp_all add: forged_ctx_def balance_example unwrap_or_def)
  obtain g1 d1 where g1: "amount_diff forged_ctx (example_key 1) (meter 0) = (meter g1, Inr d1)" "unat g1 \<le> 10000"
    using amount_diff_example [of 0 "[]" 1 "Amount 0"
        "[(example_key 1, Amount MAX_SIGNED_VALUE), (example_key 2, Amount 1)]" "Amount MAX_SIGNED_VALUE"]
    by (auto simp: forged_ctx_def unwrap_or_def half_def m)
  obtain g2 d2 where g2: "amount_diff forged_ctx (example_key 2) (meter g1) = (meter g2, Inr d2)"
    using amount_diff_example [of g1 "[]" 2 "Amount 0"
        "[(example_key 1, Amount MAX_SIGNED_VALUE), (example_key 2, Amount 1)]" "Amount 1"] g1(2) ne
    by (auto simp: forged_ctx_def unwrap_or_def half_def)
  obtain c where "i256_add d1 d2 = Some c"
    using add_raw [OF amount_diff_exact(1) [OF g1(1)] amount_diff_exact(1) [OF g2]] by blast
  then have v: "multitoken_validate_tx forged_ctx [example_key 1, example_key 2] {} (meter 0) = (meter g2, Inr (c = I256 0))"
    using validate_two [OF example_key_token example_key_token g1(1) g2] by blast
  then show ?thesis
    using multitoken_forgery [OF example_key_token example_key_token b v] by auto
qed

end
