(* ===== verification/Pos_Params.thy ===== *)
theory Pos_Params
  imports Epochs Token_Amount
begin

text \<open>
  The parameters of proof of stake (proof_of_stake/src/parameters.rs) and the epoch offsets that are
  computed from them (\<open>EpochOffset\<close> of proof_of_stake/src/epoched.rs). Sums of epochs and lengths
  panic on overflow. The conversion of a \<open>Uint\<close> to \<open>i64\<close> is generated by the crate of that type and
  is a parameter.
\<close>

section \<open>Parameters\<close>

record owned_pos_params =
  max_validator_slots :: u64
  pipeline_len :: u64
  unbonding_len :: u64
  tm_votes_per_token :: dec
  block_proposer_reward :: dec
  block_vote_reward :: dec
  max_inflation_rate :: dec
  target_staked_ratio :: dec
  duplicate_vote_min_slash_rate :: dec
  light_client_attack_min_slash_rate :: dec
  cubic_slashing_window_length :: u64
  validator_stake_threshold :: amount
  liveness_window_check :: u64
  liveness_threshold :: dec
  rewards_gain_p :: dec
  rewards_gain_d :: dec

record pos_params =
  owned :: owned_pos_params
  max_proposal_period :: u64

text \<open>\<open>Dec::new(m, s).expect(..)\<close> and \<open>Dec::from_str(s).expect(..)\<close>.\<close>

definition expect_dec :: "u128 \<Rightarrow> u8 \<Rightarrow> dec option" where
  "expect_dec mantissa scale = Option.bind (dec_new mantissa scale) id"

definition expect_dec_str :: "uint_text \<Rightarrow> string \<Rightarrow> dec option" where
  "expect_dec_str X s = (case dec_from_str X s of Some (Inr d) \<Rightarrow> Some d | _ \<Rightarrow> None)"

definition owned_pos_params_default :: "uint_text \<Rightarrow> owned_pos_params option" where
  "owned_pos_params_default X = do {
     votes \<leftarrow> dec_one;
     proposer \<leftarrow> expect_dec 125 3;
     vote \<leftarrow> expect_dec 1 1;
     inflation \<leftarrow> expect_dec 1 1;
     target \<leftarrow> expect_dec 6667 4;
     dup \<leftarrow> expect_dec 1 3;
     lca \<leftarrow> expect_dec 1 3;
     threshold \<leftarrow> native_whole 1;
     liveness \<leftarrow> expect_dec 9 1;
     p \<leftarrow> expect_dec_str X ''0.25'';
     d \<leftarrow> expect_dec_str X ''0.25'';
     Some \<lparr>max_validator_slots = 100, pipeline_len = 2, unbonding_len = 21, tm_votes_per_token = votes,
       block_proposer_reward = proposer, block_vote_reward = vote, max_inflation_rate = inflation,
       target_staked_ratio = target, duplicate_vote_min_slash_rate = dup,
       light_client_attack_min_slash_rate = lca, cubic_slashing_window_length = 1,
       validator_stake_threshold = threshold, liveness_window_check = 10000, liveness_threshold = liveness,
       rewards_gain_p = p, rewards_gain_d = d\<rparr>
   }"

datatype validation_error =
    TotalVotingPowerTooLarge u256
  | VotesPerTokenGreaterThanOne dec
  | PipelineLenTooShort u64
  | UnbondingLenTooShort u64 u64

definition TOKENS_PER_NAM :: u64 where "TOKENS_PER_NAM = 1000000"

definition MAX_TOTAL_VOTING_POWER :: int where "MAX_TOTAL_VOTING_POWER = (2 ^ 63 - 1) div 8"

definition TOKEN_MAX_AMOUNT :: u64 where "TOKEN_MAX_AMOUNT = (2 ^ 64 - 1) div TOKENS_PER_NAM"

definition dec_mul_u64 :: "dec \<Rightarrow> u64 \<Rightarrow> dec option" where
  "dec_mul_u64 x rhs = map_option Dec (i256_mul_uint (dec_raw x) (ucast rhs))"

definition pos_params_validate :: "(u256 \<Rightarrow> int option) \<Rightarrow> owned_pos_params \<Rightarrow> validation_error list option" where
  "pos_params_validate i64_try_from p = do {
     one \<leftarrow> dec_one;
     a \<leftarrow> dec_mul_u64 (tm_votes_per_token p) TOKEN_MAX_AMOUNT;
     b \<leftarrow> dec_mul_u64 a (max_validator_slots p);
     u \<leftarrow> to_uint b;
     max_total_voting_power \<leftarrow> u;
     Some (
       (if pipeline_len p < 2 then [PipelineLenTooShort (pipeline_len p)] else [])
     @ (if unbonding_len p \<le> pipeline_len p then [UnbondingLenTooShort (unbonding_len p) (pipeline_len p)] else [])
     @ (case i64_try_from max_total_voting_power of
          Some i \<Rightarrow> (if MAX_TOTAL_VOTING_POWER < i then [TotalVotingPowerTooLarge max_total_voting_power] else [])
        | None \<Rightarrow> [TotalVotingPowerTooLarge max_total_voting_power])
     @ (if dec_gt (tm_votes_per_token p) one then [VotesPerTokenGreaterThanOne (tm_votes_per_token p)] else []))
   }"

section \<open>Epochs of unbonding, slashing and redelegation\<close>

definition withdrawable_epoch_offset :: "owned_pos_params \<Rightarrow> u64 option" where
  "withdrawable_epoch_offset p = do {
     a \<leftarrow> checked_add (pipeline_len p) (unbonding_len p);
     checked_add a (cubic_slashing_window_length p)
   }"

definition slash_processing_epoch_offset :: "owned_pos_params \<Rightarrow> u64 option" where
  "slash_processing_epoch_offset p = do {
     a \<leftarrow> checked_add (unbonding_len p) (cubic_slashing_window_length p);
     checked_add a 1
   }"

definition cubic_slash_epoch_window :: "owned_pos_params \<Rightarrow> epoch \<Rightarrow> (epoch \<times> epoch) option" where
  "cubic_slash_epoch_window p infraction_epoch = do {
     let start = epoch_sub_or_default infraction_epoch (cubic_slashing_window_length p);
     end_epoch \<leftarrow> checked_add infraction_epoch (cubic_slashing_window_length p);
     Some (start, end_epoch)
   }"

definition redelegation_end_epoch_from_start :: "owned_pos_params \<Rightarrow> epoch \<Rightarrow> epoch option" where
  "redelegation_end_epoch_from_start p e = checked_add e (pipeline_len p)"

definition redelegation_start_epoch_from_end :: "owned_pos_params \<Rightarrow> epoch \<Rightarrow> epoch option" where
  "redelegation_start_epoch_from_end p e = checked_sub e (pipeline_len p)"

definition in_redelegation_slashing_window :: "owned_pos_params \<Rightarrow> epoch \<Rightarrow> epoch \<Rightarrow> epoch \<Rightarrow> bool option" where
  "in_redelegation_slashing_window p infraction_epoch redel_start redel_end = do {
     offset \<leftarrow> slash_processing_epoch_offset p;
     processing_epoch \<leftarrow> checked_add infraction_epoch offset;
     Some (redel_start < processing_epoch \<and> infraction_epoch < redel_end)
   }"

section \<open>Epoch offsets\<close>

datatype dyn_epoch_offset =
    OffsetZero
  | DefaultNumPastEpoch
  | PipelineLenMinusOne
  | PipelineLen
  | UnbondingLen
  | PipelinePlusUnbondingLen
  | SlashProcessingLen
  | SlashProcessingLenPlus
  | MaxProposalPeriod
  | MaxProposalPeriodPlus
  | MaxProposalPeriodOrSlashProcessingLen
  | MaxProposalPeriodOrSlashProcessingLenPlus
  | MaxU64

definition DEFAULT_NUM_PAST_EPOCHS :: u64 where "DEFAULT_NUM_PAST_EPOCHS = 2"

text \<open>Every offset type but \<open>PipelineLenMinusOne\<close>, which has none, computes its value from the parameters.\<close>

fun offset_value :: "pos_params \<Rightarrow> dyn_epoch_offset \<Rightarrow> u64 option" where
  "offset_value params OffsetZero = Some 0"
| "offset_value params DefaultNumPastEpoch = Some DEFAULT_NUM_PAST_EPOCHS"
| "offset_value params PipelineLen = Some (pipeline_len (owned params))"
| "offset_value params UnbondingLen = Some (unbonding_len (owned params))"
| "offset_value params PipelinePlusUnbondingLen = checked_add (pipeline_len (owned params)) (unbonding_len (owned params))"
| "offset_value params SlashProcessingLen = slash_processing_epoch_offset (owned params)"
| "offset_value params SlashProcessingLenPlus =
     Option.bind (slash_processing_epoch_offset (owned params)) (\<lambda>v. checked_add v DEFAULT_NUM_PAST_EPOCHS)"
| "offset_value params MaxProposalPeriod = Some (max_proposal_period params)"
| "offset_value params MaxProposalPeriodPlus = checked_add (max_proposal_period params) DEFAULT_NUM_PAST_EPOCHS"
| "offset_value params MaxProposalPeriodOrSlashProcessingLen =
     map_option (\<lambda>v. max v (max_proposal_period params)) (slash_processing_epoch_offset (owned params))"
| "offset_value params MaxProposalPeriodOrSlashProcessingLenPlus =
     Option.bind (slash_processing_epoch_offset (owned params))
       (\<lambda>v. checked_add (max v (max_proposal_period params)) DEFAULT_NUM_PAST_EPOCHS)"
| "offset_value params MaxU64 = Some (2 ^ 64 - 1)"
| "offset_value params PipelineLenMinusOne = None"

section \<open>The default parameters are valid\<close>

definition i64_ok :: "(u256 \<Rightarrow> int option) \<Rightarrow> bool" where
  "i64_ok f \<longleftrightarrow> (\<forall>x. f x = (if uint x < 2 ^ 63 then Some (uint x) else None))"

lemma expect_dec_values:
  "expect_dec 125 3 = Some (Dec (I256 125000000000))" "expect_dec 1 1 = Some (Dec (I256 100000000000))"
  "expect_dec 6667 4 = Some (Dec (I256 666700000000))" "expect_dec 1 3 = Some (Dec (I256 1000000000))"
  "expect_dec 9 1 = Some (Dec (I256 900000000000))"
  by (simp_all add: expect_dec_def dec_new_def POS_DECIMAL_PRECISION_def checked_pow_def checked_mul_def)

lemma quarter:
  assumes "text_ok X"
  shows "expect_dec_str X ''0.25'' = Some (Dec (I256 250000000000))"
proof -
  have "from_str_radix_10 X ''0'' = Some 0" "from_str_radix_10 X ''25'' = Some 25"
    using text_okD(2) [OF assms, of "''0''"] text_okD(2) [OF assms, of "''25''"]
    by (simp_all add: is_digit_def digit_val_def)
  then show ?thesis
    by (simp add: expect_dec_str_def dec_from_str_def split_once_def trim_end_def unwrap_or_def Let_def
        checked_pow_def checked_mul_def checked_add_def i256_try_from_def MAX_SIGNED_VALUE_def)
qed

lemma small_raw:
  assumes "uint w < half"
  shows "non_negative (I256 w) \<and> i256_abs (I256 w) = w"
proof -
  have "i256_val (I256 w) = uint w" using val_i256_of [of "uint w"] assms by (simp add: i256_of_def in_range_def)
  then show ?thesis by (simp add: non_negative_iff i256_abs_def)
qed

text \<open>The default parameters are valid.\<close>

lemma default_params_valid:
  assumes "text_ok X" "i64_ok f"
  shows "\<exists>p. owned_pos_params_default X = Some p \<and> pos_params_validate f p = Some []"
proof -
  have one: "dec_one = Some (Dec (I256 1000000000000))" by (simp add: dec_one_def checked_mul_def)
  have whole: "native_whole 1 = Some (Amount 1000000)" by (simp add: native_whole_def checked_mul_def NATIVE_SCALE_def)
  have mul: "dec_mul_u64 (Dec (I256 w)) n = map_option (\<lambda>p. Dec (I256 p)) (checked_mul w (ucast n))" if "uint w < half" for w n
    using small_raw [OF that] by (cases "checked_mul w (ucast n)") (simp_all add: dec_mul_u64_def i256_mul_uint_def is_negative_def)
  have "dec_mul_u64 (Dec (I256 1000000000000)) TOKEN_MAX_AMOUNT = Some (Dec (I256 18446744073709000000000000))"
    "dec_mul_u64 (Dec (I256 18446744073709000000000000)) 100 = Some (Dec (I256 1844674407370900000000000000))"
    by (simp_all add: mul half_def checked_mul_def TOKEN_MAX_AMOUNT_def TOKENS_PER_NAM_def)
  moreover have "to_uint (Dec (I256 1844674407370900000000000000)) = Some (Some 1844674407370900)"
    by (simp add: to_uint_def dec_is_negative_def is_negative_def small_raw half_def checked_div_def)
  moreover have "\<not> dec_gt (Dec (I256 1000000000000)) (Dec (I256 1000000000000))"
    by (simp add: dec_gt_def i256_cmp_def compare_by_def split: bool.split)
  ultimately show ?thesis
    using assms(2)
    by (simp add: owned_pos_params_default_def expect_dec_values quarter [OF assms(1)] one whole
        pos_params_validate_def i64_ok_def MAX_TOTAL_VOTING_POWER_def)
qed

end
