(* ===== verification/Epoched.thy ===== *)
theory Epoched
  imports Pos_Params Signed_Int
begin

text \<open>
  Data that is set for future epochs and kept for a number of past ones
  (proof_of_stake/src/epoched.rs): \<open>Epoched\<close> holds values that replace each other, \<open>EpochedDelta\<close>
  changes that add up, \<open>NestedEpoched\<close> whole collections. The record of a handle is what the storage
  holds under its prefix. Trimming moves what is dropped into the oldest epoch that is kept; the
  theorems say that no read of an epoch that is kept notices it.
\<close>

record 'd epoched =
  last_update :: "epoch option"
  oldest_epoch :: "epoch option"
  ep_data :: "epoch \<rightharpoonup> 'd"

text \<open>\<open>sub_past_epochs\<close>; the same expression is the oldest epoch to keep in \<open>update_data\<close>.\<close>

definition sub_past_epochs :: "pos_params \<Rightarrow> dyn_epoch_offset \<Rightarrow> epoch \<Rightarrow> epoch option" where
  "sub_past_epochs params past e = map_option (\<lambda>n. unwrap_or (epoch_checked_sub e n) 0) (offset_value params past)"

section \<open>Epoched\<close>

definition set_at_epoch :: "'d epoched \<Rightarrow> 'd \<Rightarrow> epoch \<Rightarrow> u64 \<Rightarrow> 'd epoched option" where
  "set_at_epoch h v current_epoch offset =
     map_option (\<lambda>e. h\<lparr>ep_data := (ep_data h)(e \<mapsto> v)\<rparr>) (checked_add current_epoch offset)"

definition init_at_genesis :: "'d epoched \<Rightarrow> 'd \<Rightarrow> epoch \<Rightarrow> 'd epoched option" where
  "init_at_genesis h v current_epoch =
     set_at_epoch (h\<lparr>last_update := Some current_epoch, oldest_epoch := Some current_epoch\<rparr>) v current_epoch 0"

lemma unat_pred: "0 < e \<Longrightarrow> unat (e - 1) = unat e - 1 \<and> unat (e - 1) < unat (e :: 'a::len word)"
  by (cases "e = 0") (simp_all add: unat_minus_one unat_gt_0)

text \<open>The loop of \<open>get\<close>, which goes back to \<open>floor\<close> at most; \<open>floor\<close> is computed only when a value is missing.\<close>

function get_loop :: "(epoch \<rightharpoonup> 'd) \<Rightarrow> epoch option \<Rightarrow> epoch \<Rightarrow> 'd option option" where
  "get_loop data floor e =
     (case data e of
        Some v \<Rightarrow> Some (Some v)
      | None \<Rightarrow>
          if 0 < e
          then Option.bind floor (\<lambda>f. if f < e then get_loop data floor (e - 1) else Some None)
          else Some None)"
  by auto
termination
proof (relation "measure (\<lambda>(_, _, e). unat e)")
  fix data :: "epoch \<rightharpoonup> 'd" and floor e f
  assume "0 < (e :: epoch)"
  then have "unat (e - 1) < unat e" using unat_pred by blast
  then show "((data, floor, e - 1), data, floor, e) \<in> measure (\<lambda>(_, _, e). unat e)" by simp
qed simp

declare get_loop.simps [simp del]

definition epoched_get :: "pos_params \<Rightarrow> dyn_epoch_offset \<Rightarrow> dyn_epoch_offset \<Rightarrow> 'd epoched \<Rightarrow> epoch \<Rightarrow> 'd option option" where
  "epoched_get params future past h e =
     (case last_update h of
        None \<Rightarrow> Some None
      | Some updated \<Rightarrow> do {
          f \<leftarrow> offset_value params future;
          future_most_epoch \<leftarrow> checked_add updated f;
          get_loop (ep_data h) (sub_past_epochs params past updated) (min e future_most_epoch)
        })"

text \<open>Removing the data of some epochs; the second component is the last value that was removed.\<close>

fun remove_keep_latest :: "(epoch \<rightharpoonup> 'd) \<Rightarrow> 'd option \<Rightarrow> epoch list \<Rightarrow> (epoch \<rightharpoonup> 'd) \<times> 'd option" where
  "remove_keep_latest data latest [] = (data, latest)"
| "remove_keep_latest data latest (e # es) =
     remove_keep_latest (data(e := None)) (case data e of Some v \<Rightarrow> Some v | None \<Rightarrow> latest) es"

definition epoched_update_data :: "pos_params \<Rightarrow> dyn_epoch_offset \<Rightarrow> 'd epoched \<Rightarrow> epoch \<Rightarrow> 'd epoched option" where
  "epoched_update_data params past h current_epoch = do {
     oldest_to_keep \<leftarrow> (case (last_update h, oldest_epoch h) of
         (Some _, Some oldest) \<Rightarrow> map_option (\<lambda>k. if oldest < k then Some (oldest, k) else None)
           (sub_past_epochs params past current_epoch)
       | _ \<Rightarrow> Some None);
     (case oldest_to_keep of
        Some (oldest, keep) \<Rightarrow> do {
          range \<leftarrow> epoch_iter_range oldest (keep - oldest);
          let (data, latest_value) = remove_keep_latest (ep_data h) None range;
          (case latest_value of
             Some v \<Rightarrow> do {
               new_oldest_epoch \<leftarrow> sub_past_epochs params past current_epoch;
               Some (h\<lparr>last_update := Some current_epoch, oldest_epoch := Some new_oldest_epoch,
                 ep_data := (if data new_oldest_epoch = None then data(new_oldest_epoch \<mapsto> v) else data)\<rparr>)
             }
           | None \<Rightarrow> Some (h\<lparr>last_update := Some current_epoch, ep_data := data\<rparr>))
        }
      | None \<Rightarrow> Some (h\<lparr>last_update := Some current_epoch,
          oldest_epoch := (if oldest_epoch h = None then Some current_epoch else oldest_epoch h)\<rparr>))
   }"

definition epoched_set :: "pos_params \<Rightarrow> dyn_epoch_offset \<Rightarrow> 'd epoched \<Rightarrow> 'd \<Rightarrow> epoch \<Rightarrow> u64 \<Rightarrow> 'd epoched option" where
  "epoched_set params past h v current_epoch offset =
     Option.bind (epoched_update_data params past h current_epoch) (\<lambda>h. set_at_epoch h v current_epoch offset)"

section \<open>NestedEpoched\<close>

text \<open>A collection is \<open>None\<close> where it has no data.\<close>

definition nested_init :: "'d epoched \<Rightarrow> epoch \<Rightarrow> 'd epoched" where
  "nested_init h e = h\<lparr>last_update := Some e, oldest_epoch := Some e\<rparr>"

definition nested_set_last_update :: "'d epoched \<Rightarrow> epoch \<Rightarrow> 'd epoched" where
  "nested_set_last_update h current_epoch = h\<lparr>last_update := Some current_epoch\<rparr>"

definition nested_update_data :: "pos_params \<Rightarrow> dyn_epoch_offset \<Rightarrow> 'd epoched \<Rightarrow> epoch \<Rightarrow> 'd epoched option" where
  "nested_update_data params past h current_epoch =
     (case (last_update h, oldest_epoch h) of
        (Some _, Some oldest) \<Rightarrow> do {
          oldest_to_keep \<leftarrow> sub_past_epochs params past current_epoch;
          (if oldest < oldest_to_keep
           then do {
             range \<leftarrow> epoch_iter_range oldest (oldest_to_keep - oldest);
             let data = fold (\<lambda>e d. d(e := None)) range (ep_data h);
             new_oldest_epoch \<leftarrow> sub_past_epochs params past current_epoch;
             Some (h\<lparr>oldest_epoch := Some new_oldest_epoch, last_update := Some current_epoch, ep_data := data\<rparr>)
           }
           else Some h)
        }
      | _ \<Rightarrow> Some h)"

section \<open>EpochedDelta\<close>

text \<open>The addition of the data, which may panic, is the argument \<open>add\<close>.\<close>

definition add_to :: "('d \<Rightarrow> 'd \<Rightarrow> 'd option) \<Rightarrow> 'd option \<Rightarrow> 'd \<Rightarrow> 'd option" where
  "add_to add acc v = (case acc of Some s \<Rightarrow> add s v | None \<Rightarrow> Some v)"

text \<open>The loop of \<open>get_sum\<close>.\<close>

fun sum_epochs :: "('d \<Rightarrow> 'd \<Rightarrow> 'd option) \<Rightarrow> (epoch \<rightharpoonup> 'd) \<Rightarrow> 'd option \<Rightarrow> epoch list \<Rightarrow> 'd option option" where
  "sum_epochs add data acc [] = Some acc"
| "sum_epochs add data acc (e # es) =
     (case data e of
        None \<Rightarrow> sum_epochs add data acc es
      | Some delta \<Rightarrow> Option.bind (add_to add acc delta) (\<lambda>s. sum_epochs add data (Some s) es))"

definition get_sum :: "('d \<Rightarrow> 'd \<Rightarrow> 'd option) \<Rightarrow> pos_params \<Rightarrow> dyn_epoch_offset \<Rightarrow> dyn_epoch_offset
    \<Rightarrow> 'd epoched \<Rightarrow> epoch \<Rightarrow> 'd option option" where
  "get_sum add params future past h e =
     (case last_update h of
        None \<Rightarrow> Some None
      | Some updated \<Rightarrow> do {
          start_epoch \<leftarrow> sub_past_epochs params past updated;
          f \<leftarrow> offset_value params future;
          future_most_epoch \<leftarrow> checked_add updated f;
          sum_epochs add (ep_data h) None (iter_bounds_inclusive start_epoch (min e future_most_epoch))
        })"

text \<open>Removing the data of some epochs; the second component is their sum.\<close>

fun remove_sum :: "('d \<Rightarrow> 'd \<Rightarrow> 'd option) \<Rightarrow> (epoch \<rightharpoonup> 'd) \<Rightarrow> 'd option \<Rightarrow> epoch list
    \<Rightarrow> ((epoch \<rightharpoonup> 'd) \<times> 'd option) option" where
  "remove_sum add data acc [] = Some (data, acc)"
| "remove_sum add data acc (e # es) =
     (case data e of
        None \<Rightarrow> remove_sum add (data(e := None)) acc es
      | Some removed \<Rightarrow> Option.bind (add_to add acc removed) (\<lambda>s. remove_sum add (data(e := None)) (Some s) es))"

definition delta_update_data :: "('d \<Rightarrow> 'd \<Rightarrow> 'd option) \<Rightarrow> pos_params \<Rightarrow> dyn_epoch_offset \<Rightarrow> 'd epoched \<Rightarrow> epoch
    \<Rightarrow> 'd epoched option" where
  "delta_update_data add params past h current_epoch = do {
     oldest_to_keep \<leftarrow> (case (last_update h, oldest_epoch h) of
         (Some _, Some oldest) \<Rightarrow> map_option (\<lambda>k. if oldest < k then Some (oldest, k) else None)
           (sub_past_epochs params past current_epoch)
       | _ \<Rightarrow> Some None);
     (case oldest_to_keep of
        Some (oldest, keep) \<Rightarrow> do {
          range \<leftarrow> epoch_iter_range oldest (keep - oldest);
          (data, acc) \<leftarrow> remove_sum add (ep_data h) None range;
          (case acc of
             Some s \<Rightarrow> do {
               new_oldest_epoch \<leftarrow> sub_past_epochs params past current_epoch;
               v \<leftarrow> (case data new_oldest_epoch of Some d \<Rightarrow> add d s | None \<Rightarrow> Some s);
               Some (h\<lparr>last_update := Some current_epoch, oldest_epoch := Some new_oldest_epoch,
                 ep_data := data(new_oldest_epoch \<mapsto> v)\<rparr>)
             }
           | None \<Rightarrow> Some (h\<lparr>last_update := Some current_epoch, ep_data := data\<rparr>))
        }
      | None \<Rightarrow> Some (h\<lparr>last_update := Some current_epoch,
          oldest_epoch := (if oldest_epoch h = None then Some current_epoch else oldest_epoch h)\<rparr>))
   }"

definition delta_add :: "('d \<Rightarrow> 'd \<Rightarrow> 'd option) \<Rightarrow> 'd \<Rightarrow> pos_params \<Rightarrow> dyn_epoch_offset \<Rightarrow> 'd epoched \<Rightarrow> 'd
    \<Rightarrow> epoch \<Rightarrow> u64 \<Rightarrow> 'd epoched option" where
  "delta_add add zero params past h v current_epoch offset = do {
     h \<leftarrow> delta_update_data add params past h current_epoch;
     e \<leftarrow> checked_add current_epoch offset;
     let cur_value = unwrap_or (ep_data h e) zero;
     new_value \<leftarrow> add cur_value v;
     set_at_epoch h new_value current_epoch offset
   }"

definition delta_set :: "('d \<Rightarrow> 'd \<Rightarrow> 'd option) \<Rightarrow> pos_params \<Rightarrow> dyn_epoch_offset \<Rightarrow> 'd epoched \<Rightarrow> 'd
    \<Rightarrow> epoch \<Rightarrow> u64 \<Rightarrow> 'd epoched option" where
  "delta_set add params past h v current_epoch offset =
     Option.bind (delta_update_data add params past h current_epoch) (\<lambda>h. set_at_epoch h v current_epoch offset)"

section \<open>Reading epoched data\<close>

text \<open>The value of the latest epoch up to \<open>e\<close> that has one.\<close>

definition latest :: "(epoch \<rightharpoonup> 'd) \<Rightarrow> epoch \<Rightarrow> 'd option \<Rightarrow> bool" where
  "latest m e r \<longleftrightarrow>
     (case r of
        Some v \<Rightarrow> (\<exists>k \<le> e. m k = Some v \<and> (\<forall>j. k < j \<and> j \<le> e \<longrightarrow> m j = None))
      | None \<Rightarrow> (\<forall>k \<le> e. m k = None))"

lemma pred_le: "0 < e \<Longrightarrow> j \<le> e \<longleftrightarrow> j = e \<or> j \<le> e - (1 :: epoch)"
  by (auto simp: word_le_nat_alt word_less_nat_alt unat_minus_one word_unat_eq_iff)

lemma latest_unique: "latest m e r \<Longrightarrow> latest m e r' \<Longrightarrow> r = r'"
  unfolding latest_def by (auto split: option.splits) (metis linorder_neqE option.distinct(1) option.inject)

lemma latest_extend:
  assumes "latest m e' r" "e' \<le> e" "\<And>k. e' < k \<Longrightarrow> k \<le> e \<Longrightarrow> m k = None"
  shows "latest m e r"
proof (cases r)
  case None
  then show ?thesis using assms(1,3) by (auto simp: latest_def not_less [symmetric])
next
  case (Some v)
  then obtain k where "k \<le> e'" "m k = Some v" "\<forall>j. k < j \<and> j \<le> e' \<longrightarrow> m j = None"
    using assms(1) by (auto simp: latest_def)
  then show ?thesis using Some assms(2,3) unfolding latest_def by (auto intro!: exI [of _ k]) (metis not_le)
qed

text \<open>The loop finds the latest value when nothing lies below its floor.\<close>

lemma get_loop_latest:
  assumes "\<forall>k < f. m k = None"
  shows "\<exists>r. get_loop m (Some f) e = Some r \<and> latest m e r"
proof (induction "unat e" arbitrary: e rule: less_induct)
  case less
  show ?case
  proof (cases "m e")
    case (Some v)
    then show ?thesis by (subst get_loop.simps) (auto simp: latest_def)
  next
    case None
    show ?thesis
    proof (cases "0 < e \<and> f < e")
      case True
      then have "unat (e - 1) < unat e" using unat_pred by blast
      then obtain r where "get_loop m (Some f) (e - 1) = Some r" "latest m (e - 1) r" using less by blast
      moreover from this(2) have "latest m e r"
        using None True pred_le [of e] unfolding latest_def by (auto split: option.splits)
      ultimately show ?thesis using None True by (subst get_loop.simps) auto
    next
      case False
      then have "\<forall>k \<le> e. m k = None" using assms None by (auto simp: not_less dest: order_le_imp_less_or_eq)
      then show ?thesis using False by (subst get_loop.simps) (auto simp: latest_def)
    qed
  qed
qed

text \<open>Removing an interval of epochs.\<close>

lemma remove_keep_latest_snoc:
  "remove_keep_latest data l (es @ [e]) =
     (let (d, l') = remove_keep_latest data l es in (d(e := None), case d e of Some v \<Rightarrow> Some v | None \<Rightarrow> l'))"
  by (induction es arbitrary: data l) simp_all

definition latest_between :: "(epoch \<rightharpoonup> 'd) \<Rightarrow> nat \<Rightarrow> nat \<Rightarrow> 'd option \<Rightarrow> bool" where
  "latest_between m a b r \<longleftrightarrow>
     (case r of
        Some v \<Rightarrow> (\<exists>k. a \<le> unat k \<and> unat k < b \<and> m k = Some v \<and> (\<forall>j. unat k < unat j \<and> unat j < b \<longrightarrow> m j = None))
      | None \<Rightarrow> (\<forall>k. a \<le> unat k \<and> unat k < b \<longrightarrow> m k = None))"

lemma remove_keep_latest_range:
  assumes "b < 2 ^ 64" "remove_keep_latest data None (map of_nat [a ..< b]) = (d, r)"
  shows "d = (\<lambda>k. if a \<le> unat k \<and> unat k < b then None else data k) \<and> latest_between data a b r"
  using assms
proof (induction b arbitrary: d r)
  case 0
  then show ?case by (auto simp: latest_between_def)
next
  case (Suc b)
  show ?case
  proof (cases "a \<le> b")
    case False
    then show ?thesis using Suc.prems by (auto simp: latest_between_def fun_eq_iff)
  next
    case True
    obtain d' r' where dr: "remove_keep_latest data None (map of_nat [a ..< b]) = (d', r')" by (meson surj_pair)
    let ?b = "of_nat b :: epoch"
    have b: "unat ?b = b" using Suc.prems(1) by (simp add: unat_of_nat_lt)
    have eq: "unat k = b \<longleftrightarrow> k = ?b" for k using b by (auto simp: word_unat_eq_iff)
    have IH: "d' = (\<lambda>k. if a \<le> unat k \<and> unat k < b then None else data k)" "latest_between data a b r'"
      using Suc.IH [OF _ dr] Suc.prems(1) by simp_all
    have res: "d = d'(?b := None)" "r = (case data ?b of Some v \<Rightarrow> Some v | None \<Rightarrow> r')"
      using Suc.prems(2) True dr b by (simp_all add: remove_keep_latest_snoc IH(1))
    have "latest_between data a (Suc b) r"
    proof (cases "data ?b")
      case (Some v)
      then show ?thesis using res(2) True b by (auto simp: latest_between_def intro!: exI [of _ ?b])
    next
      case None
      then show ?thesis using res(2) IH(2) eq unfolding latest_between_def less_Suc_eq by (auto split: option.splits)
    qed
    moreover have "d k = (if a \<le> unat k \<and> unat k < Suc b then None else data k)" for k
      using True by (cases "k = ?b") (simp_all add: res(1) IH(1) b less_Suc_eq eq)
    ultimately show ?thesis by blast
  qed
qed

text \<open>Trimmed data agrees with the untrimmed history from the oldest kept epoch on.\<close>

definition agrees :: "epoch \<Rightarrow> (epoch \<rightharpoonup> 'd) \<Rightarrow> (epoch \<rightharpoonup> 'd) \<Rightarrow> bool" where
  "agrees p d m \<longleftrightarrow> (\<forall>k < p. d k = None) \<and> (\<forall>k > p. d k = m k) \<and> latest m p (d p)"

lemma latest_at: "\<forall>k < p. d k = None \<Longrightarrow> latest d p (d p)"
  by (auto simp: latest_def le_less split: option.split)

lemma agrees_latest:
  assumes "agrees p d m" "p \<le> e" "latest d e r"
  shows "latest m e r"
proof (cases r)
  case None
  then have none: "\<forall>k \<le> e. d k = None" using assms(3) by (simp add: latest_def)
  then have "latest m p None" using assms(1,2) by (auto simp: agrees_def)
  then show ?thesis using None none assms(1) unfolding agrees_def latest_def by (auto simp: not_le) (metis leI)
next
  case (Some v)
  then obtain k where k: "k \<le> e" "d k = Some v" "\<forall>j. k < j \<and> j \<le> e \<longrightarrow> d j = None"
    using assms(3) by (auto simp: latest_def)
  have "p \<le> k" using k(2) assms(1) unfolding agrees_def by (metis leI option.distinct(1))
  show ?thesis
  proof (cases "k = p")
    case True
    then obtain k' where "k' \<le> p" "m k' = Some v" "\<forall>j. k' < j \<and> j \<le> p \<longrightarrow> m j = None"
      using k(2) assms(1) by (auto simp: agrees_def latest_def)
    moreover have "m j = None" if "p < j" "j \<le> e" for j using that k(3) True assms(1) by (auto simp: agrees_def)
    ultimately show ?thesis using Some assms(2) unfolding latest_def by (auto intro!: exI [of _ k']) (metis leI)
  next
    case False
    then have "p < k" using \<open>p \<le> k\<close> by simp
    then show ?thesis using Some k assms(1) by (auto simp: latest_def agrees_def intro!: exI [of _ k])
  qed
qed

lemma agrees_trim:
  assumes "agrees p d m" "p \<le> p'" "\<forall>k < p'. d' k = None" "\<forall>k > p'. d' k = d k" "latest d p' (d' p')"
  shows "agrees p' d' m"
  using assms agrees_latest [OF assms(1,2,5)] by (auto simp: agrees_def)

lemma agrees_set:
  assumes "agrees p d m" "p \<le> k"
  shows "agrees p (d(k \<mapsto> v)) (m(k \<mapsto> v))"
proof (cases "k = p")
  case True
  then show ?thesis using assms(1) by (auto simp: agrees_def latest_def)
next
  case False
  then have "p < k" using assms(2) by simp
  then have "latest (m(k \<mapsto> v)) p r \<longleftrightarrow> latest m p r" for r by (auto simp: latest_def split: option.split)
  then show ?thesis using assms False \<open>p < k\<close> by (auto simp: agrees_def)
qed

text \<open>The invariant of a handle: \<open>m\<close> is the history of all values that were set, \<open>np\<close> and \<open>nf\<close> are
  the numbers of past and future epochs.\<close>

definition epoched_inv :: "u64 \<Rightarrow> u64 \<Rightarrow> 'd epoched \<Rightarrow> (epoch \<rightharpoonup> 'd) \<Rightarrow> bool" where
  "epoched_inv np nf h m \<longleftrightarrow>
     (case (last_update h, oldest_epoch h) of
        (Some l, Some o1) \<Rightarrow>
          o1 \<le> l \<and> (\<forall>k < o1. ep_data h k = None) \<and> agrees (epoch_sub_or_default l np) (ep_data h) m
        \<and> (\<forall>k. unat l + unat nf < unat k \<longrightarrow> m k = None)
      | (None, None) \<Rightarrow> ep_data h = Map.empty \<and> m = Map.empty
      | _ \<Rightarrow> False)"

lemma sub_past_epochs_eq:
  "offset_value params past = Some np \<Longrightarrow> sub_past_epochs params past e = Some (epoch_sub_or_default e np)"
  by (simp add: sub_past_epochs_def epoch_sub_or_default_def)

lemma epoch_sub_bounds:
  "epoch_sub_or_default e n \<le> e" "e \<le> e' \<Longrightarrow> epoch_sub_or_default e n \<le> epoch_sub_or_default e' n"
  "unat (epoch_sub_or_default e n) = unat e - unat n"
proof -
  have u: "unat (epoch_sub_or_default e n) = unat e - unat n" for e
    by (auto simp: epoch_sub_or_default_def epoch_checked_sub_def unwrap_or_def word_less_nat_alt unat_sub word_le_nat_alt)
  then show "unat (epoch_sub_or_default e n) = unat e - unat n" "epoch_sub_or_default e n \<le> e"
    "e \<le> e' \<Longrightarrow> epoch_sub_or_default e n \<le> epoch_sub_or_default e' n"
    by (simp_all add: word_le_nat_alt diff_le_mono)
qed

lemma iter_range_eq:
  assumes "o1 < k"
  shows "epoch_iter_range o1 (k - o1) = Some (map of_nat [unat o1 ..< unat k])"
proof -
  have "unat (k - o1) = unat k - unat o1" using assms by (simp add: unat_sub word_le_nat_alt word_less_nat_alt)
  then have "checked_add o1 (k - o1) = Some k"
    using assms unat_bound [of k] by (simp add: checked_add_def word_less_nat_alt)
  then show ?thesis by (simp add: epoch_iter_range_def)
qed

lemma range_mem: "e \<in> set (map of_nat [unat a ..< unat b] :: epoch list) \<longleftrightarrow> a \<le> e \<and> e < b"
proof
  assume "a \<le> e \<and> e < b"
  then show "e \<in> set (map of_nat [unat a ..< unat b] :: epoch list)"
    by (auto simp: word_le_nat_alt word_less_nat_alt intro!: image_eqI [of _ _ "unat e"])
next
  assume "e \<in> set (map of_nat [unat a ..< unat b] :: epoch list)"
  then obtain i where "e = of_nat i" "unat a \<le> i" "i < unat b" by auto
  then show "a \<le> e \<and> e < b" using unat_bound [of b] by (simp add: word_le_nat_alt word_less_nat_alt unat_of_nat_lt)
qed

lemma range_distinct: "distinct (map of_nat [a ..< unat (b :: epoch)] :: epoch list)"
  unfolding distinct_map using unat_bound [of b] by (auto simp: inj_on_def word_of_nat_eq_iff take_bit_nat_eq_self)

lemma between_latest:
  assumes r: "latest_between d (unat o1) (unat k) r" and low: "\<forall>j < o1. d j = None" and k: "d k = None"
  shows "latest d k r"
proof (cases r)
  case None
  have "d j = None" if le: "j \<le> k" for j
  proof -
    consider "j = k" | "j < o1" | "o1 \<le> j" "j < k" using le by fastforce
    then show ?thesis using r None low k by cases (auto simp: latest_between_def word_le_nat_alt word_less_nat_alt)
  qed
  then show ?thesis using None by (simp add: latest_def)
next
  case (Some v)
  then obtain i where i: "unat i < unat k" "d i = Some v" "\<forall>j. unat i < unat j \<and> unat j < unat k \<longrightarrow> d j = None"
    using r by (auto simp: latest_between_def)
  have "d j = None" if "i < j" "j \<le> k" for j
  proof -
    consider "j = k" | "j < k" using \<open>j \<le> k\<close> by fastforce
    then show ?thesis using that(1) i(3) k by cases (auto simp: word_less_nat_alt)
  qed
  then show ?thesis using Some i by (auto simp: latest_def word_le_nat_alt intro!: exI [of _ i])
qed

lemma epoched_update_inv:
  assumes inv: "epoched_inv np nf h m" and past: "offset_value params past = Some np"
    and mono: "\<forall>l. last_update h = Some l \<longrightarrow> l \<le> c"
  shows "\<exists>h'. epoched_update_data params past h c = Some h' \<and> last_update h' = Some c \<and> epoched_inv np nf h' m"
proof (cases "last_update h")
  case None
  then show ?thesis
    using inv by (auto simp: epoched_inv_def epoched_update_data_def agrees_def latest_def split: option.splits)
next
  case (Some l)
  then obtain o1 where o1: "oldest_epoch h = Some o1" "o1 \<le> l" "\<forall>k < o1. ep_data h k = None"
      and ag: "agrees (epoch_sub_or_default l np) (ep_data h) m" and far: "\<forall>k. unat l + unat nf < unat k \<longrightarrow> m k = None"
    using inv by (auto simp: epoched_inv_def split: option.splits)
  have lc: "l \<le> c" using mono Some by simp
  have far': "\<forall>k. unat c + unat nf < unat k \<longrightarrow> m k = None" using far lc by (auto simp: word_le_nat_alt)
  let ?k = "epoch_sub_or_default c np"
  note trim = agrees_trim [OF ag epoch_sub_bounds(2) [OF lc]]
  show ?thesis
  proof (cases "o1 < ?k")
    case False
    then have "\<forall>k < ?k. ep_data h k = None" using o1(3) by (auto simp: not_less)
    then have "agrees ?k (ep_data h) m" using trim latest_at by blast
    then show ?thesis
      using Some o1 lc far' False past by (auto simp: epoched_update_data_def sub_past_epochs_eq epoched_inv_def)
  next
    case True
    obtain d r where dr: "remove_keep_latest (ep_data h) None (map of_nat [unat o1 ..< unat ?k]) = (d, r)" by (meson surj_pair)
    have d: "d = (\<lambda>k. if unat o1 \<le> unat k \<and> unat k < unat ?k then None else ep_data h k)"
        and r: "latest_between (ep_data h) (unat o1) (unat ?k) r"
      using remove_keep_latest_range [OF _ dr] unat_bound [of ?k] by simp_all
    define d' where "d' = (if d ?k = None then d(?k := r) else d)"
    have "d j = None" if "j < ?k" for j using that o1(3) by (simp add: d word_less_nat_alt)
    then have "\<forall>j < ?k. d' j = None" "\<forall>j > ?k. d' j = ep_data h j"
      by (auto simp: d'_def d word_less_nat_alt)
    moreover have "latest (ep_data h) ?k (d' ?k)"
      using between_latest [OF r o1(3)] by (auto simp: d'_def d latest_def split: option.split)
    ultimately have "agrees ?k d' m" by (rule trim)
    moreover have "\<forall>j < o1. d' j = None" using o1(3) True by (auto simp: d'_def d)
    moreover have "r = None \<Longrightarrow> d' = d" by (auto simp: d'_def fun_upd_idem)
    then have "epoched_update_data params past h c =
        Some (h\<lparr>last_update := Some c, oldest_epoch := Some (if r = None then o1 else ?k), ep_data := d'\<rparr>)"
      using Some o1(1) True past dr
      by (cases h; cases r) (simp_all add: epoched_update_data_def sub_past_epochs_eq iter_range_eq d'_def)
    ultimately show ?thesis
      using order_trans [OF o1(2) lc] far' epoch_sub_bounds(1) [of c np] \<open>\<forall>j < ?k. d' j = None\<close>
      by (simp add: epoched_inv_def)
  qed
qed

section \<open>Runs\<close>

text \<open>A run sets values in a sequence of epochs; its history is the data without any trimming.\<close>

fun run_sets :: "pos_params \<Rightarrow> dyn_epoch_offset \<Rightarrow> 'd epoched \<Rightarrow> (epoch \<times> u64 \<times> 'd) list \<Rightarrow> 'd epoched option" where
  "run_sets params past h [] = Some h"
| "run_sets params past h ((c, offset, v) # ops) =
     Option.bind (epoched_set params past h v c offset) (\<lambda>h. run_sets params past h ops)"

definition history :: "(epoch \<times> u64 \<times> 'd) list \<Rightarrow> (epoch \<rightharpoonup> 'd)" where
  "history ops = fold (\<lambda>(c, offset, v) m. m(c + offset \<mapsto> v)) ops Map.empty"

definition in_order :: "u64 \<Rightarrow> (epoch \<times> u64 \<times> 'd) list \<Rightarrow> bool" where
  "in_order nf ops \<longleftrightarrow> sorted (map fst ops) \<and> (\<forall>(c, offset, _) \<in> set ops. offset \<le> nf \<and> unat c + unat nf < 2 ^ 64)"

definition fresh :: "'d epoched" where
  "fresh = \<lparr>last_update = None, oldest_epoch = None, ep_data = Map.empty\<rparr>"

lemma in_order_snoc:
  "in_order nf (ops @ [(c, offset, v)]) \<longleftrightarrow>
     in_order nf ops \<and> (\<forall>x \<in> fst ` set ops. x \<le> c) \<and> offset \<le> nf \<and> unat c + unat nf < 2 ^ 64"
  by (auto simp: in_order_def sorted_append)

lemma history_snoc: "history (ops @ [(c, offset, v)]) = (history ops)(c + offset \<mapsto> v)"
  by (simp add: history_def)

lemma run_sets_append:
  "run_sets params past h (xs @ ys) = Option.bind (run_sets params past h xs) (\<lambda>h. run_sets params past h ys)"
proof (induction xs arbitrary: h)
  case (Cons x xs)
  then show ?case by (cases x; cases "epoched_set params past h (snd (snd x)) (fst x) (fst (snd x))") simp_all
qed simp

lemma offset_in_range:
  assumes "offset \<le> nf" "unat c + unat nf < 2 ^ 64"
  shows "checked_add c offset = Some (c + offset)" "unat (c + offset) = unat c + unat (offset :: u64)"
proof -
  have "unat c + unat offset < 2 ^ LENGTH(64)" using assms by (simp add: word_le_nat_alt)
  then show "checked_add c offset = Some (c + offset)" "unat (c + offset) = unat c + unat offset"
    by (simp_all add: checked_add_def unat_plus_if')
qed

lemma epoched_set_inv:
  assumes inv: "epoched_inv np nf h m" and past: "offset_value params past = Some np"
    and mono: "\<forall>l. last_update h = Some l \<longrightarrow> l \<le> c" and off: "offset \<le> nf" "unat c + unat nf < 2 ^ 64"
  shows "\<exists>h'. epoched_set params past h v c offset = Some h' \<and> last_update h' = Some c
    \<and> epoched_inv np nf h' (m(c + offset \<mapsto> v))"
proof -
  obtain h1 where h1: "epoched_update_data params past h c = Some h1" "last_update h1 = Some c" "epoched_inv np nf h1 m"
    using epoched_update_inv [OF inv past mono] by blast
  then obtain o1 where o1: "oldest_epoch h1 = Some o1" "o1 \<le> c" "\<forall>k < o1. ep_data h1 k = None"
      and ag: "agrees (epoch_sub_or_default c np) (ep_data h1) m" and far: "\<forall>k. unat c + unat nf < unat k \<longrightarrow> m k = None"
    by (auto simp: epoched_inv_def split: option.splits)
  note k = offset_in_range [OF off]
  have ge: "c \<le> c + offset" using k(2) by (simp add: word_le_nat_alt)
  have "agrees (epoch_sub_or_default c np) ((ep_data h1)(c + offset \<mapsto> v)) (m(c + offset \<mapsto> v))"
    using ag order_trans [OF epoch_sub_bounds(1) ge] by (rule agrees_set)
  moreover have "\<forall>k < o1. ((ep_data h1)(c + offset \<mapsto> v)) k = None" using o1(2,3) ge by auto
  moreover have "\<forall>k. unat c + unat nf < unat k \<longrightarrow> (m(c + offset \<mapsto> v)) k = None"
    using far k(2) off(1) by (auto simp: word_le_nat_alt)
  ultimately show ?thesis
    using h1 o1(1,2) k(1) by (simp add: epoched_set_def set_at_epoch_def epoched_inv_def)
qed

lemma run_sets_inv:
  assumes "offset_value params past = Some np" "in_order nf ops"
  shows "\<exists>h. run_sets params past fresh ops = Some h \<and> epoched_inv np nf h (history ops)
    \<and> last_update h = (if ops = [] then None else Some (fst (last ops)))"
  using assms(2)
proof (induction ops rule: rev_induct)
  case Nil
  show ?case by (simp add: fresh_def epoched_inv_def history_def)
next
  case (snoc op ops)
  obtain c offset v where op: "op = (c, offset, v)" by (cases op)
  have o: "in_order nf ops" "\<forall>x \<in> fst ` set ops. x \<le> c" "offset \<le> nf" "unat c + unat nf < 2 ^ 64"
    using snoc.prems unfolding op in_order_snoc by blast+
  obtain h where h: "run_sets params past fresh ops = Some h" "epoched_inv np nf h (history ops)"
      "last_update h = (if ops = [] then None else Some (fst (last ops)))"
    using snoc.IH [OF o(1)] by blast
  have "\<forall>l. last_update h = Some l \<longrightarrow> l \<le> c" using h(3) o(2) by auto
  then obtain h' where h': "epoched_set params past h v c offset = Some h'" "last_update h' = Some c"
      "epoched_inv np nf h' ((history ops)(c + offset \<mapsto> v))"
    using epoched_set_inv [OF h(2) assms(1) _ o(3,4)] by blast
  then have "run_sets params past fresh (ops @ [op]) = Some h'" using h(1) by (simp add: op run_sets_append)
  moreover have "epoched_inv np nf h' (history (ops @ [op]))" unfolding op history_snoc by (rule h'(3))
  ultimately show ?case using h'(2) op by simp
qed

lemma epoched_get_latest:
  assumes inv: "epoched_inv np nf h m" and l: "last_update h = Some l" "unat l + unat nf < 2 ^ 64"
    and past: "offset_value params past = Some np" and future: "offset_value params future = Some nf"
  shows "\<exists>r. epoched_get params future past h e = Some r
    \<and> (if e < epoch_sub_or_default l np then r = None else latest m e r)"
proof -
  let ?p = "epoch_sub_or_default l np" and ?f = "l + nf"
  have ag: "agrees ?p (ep_data h) m" and far: "\<forall>k. unat l + unat nf < unat k \<longrightarrow> m k = None"
    using inv l(1) by (auto simp: epoched_inv_def split: option.splits)
  note f = offset_in_range [OF order_refl l(2)]
  have low: "\<forall>k < ?p. ep_data h k = None" using ag by (simp add: agrees_def)
  then obtain r where r: "get_loop (ep_data h) (Some ?p) (min e ?f) = Some r" "latest (ep_data h) (min e ?f) r"
    using get_loop_latest by blast
  have "latest m e r" if "\<not> e < ?p"
  proof -
    have "?p \<le> ?f" using epoch_sub_bounds(1) [of l np] f(2) by (simp add: word_le_nat_alt)
    then have m: "latest m (min e ?f) r" using that by (intro agrees_latest [OF ag _ r(2)]) simp
    have "m k = None" if "min e ?f < k" "k \<le> e" for k
      using that far f(2) by (cases "e \<le> ?f") (auto simp: min_def word_less_nat_alt word_le_nat_alt)
    then show ?thesis using latest_extend [OF m] by simp
  qed
  moreover have "r = None" if "e < ?p"
  proof -
    have "\<forall>k \<le> min e ?f. ep_data h k = None" using low that by auto
    then show ?thesis using r(2) by (auto simp: latest_def split: option.splits)
  qed
  ultimately show ?thesis
    using r(1) l(1) past future f(1) by (auto simp: epoched_get_def sub_past_epochs_eq)
qed

text \<open>Initialising at genesis is setting a value for the first time.\<close>

lemma genesis_is_set: "init_at_genesis fresh v c = epoched_set params past fresh v c 0"
  by (simp add: init_at_genesis_def epoched_set_def epoched_update_data_def fresh_def)

text \<open>Trimming nested data drops the collections of the epochs before the kept ones and no others.\<close>

lemma nested_update_exact:
  assumes "last_update h = Some l" "oldest_epoch h = Some o1" "offset_value params past = Some np"
  shows "nested_update_data params past h c = Some
    (let keep = epoch_sub_or_default c np in
     if o1 < keep
     then h\<lparr>oldest_epoch := Some keep, last_update := Some c, ep_data := (\<lambda>k. if o1 \<le> k \<and> k < keep then None else ep_data h k)\<rparr>
     else h)"
proof -
  have "fold (\<lambda>e d. d(e := None)) es d = (\<lambda>k. if k \<in> set es then None else d k)" for es and d :: "epoch \<rightharpoonup> 'a"
    by (induction es arbitrary: d) (auto simp: fun_eq_iff)
  then show ?thesis
    using assms by (simp add: nested_update_data_def sub_past_epochs_eq iter_range_eq range_mem Let_def del: set_map)
qed

section \<open>Sums of changes\<close>

text \<open>A history of changes and the sum of those whose epoch has a property.\<close>

type_synonym change_list = "(epoch \<times> int) list"

definition psum :: "change_list \<Rightarrow> (epoch \<Rightarrow> bool) \<Rightarrow> int" where
  "psum H P = (\<Sum>(k, z) \<leftarrow> H. if P k then z else 0)"

definition has_change :: "change_list \<Rightarrow> (epoch \<Rightarrow> bool) \<Rightarrow> bool" where
  "has_change H P \<longleftrightarrow> (\<exists>k \<in> fst ` set H. P k)"

lemma psum_disjoint: "\<forall>k. \<not> (P k \<and> Q k) \<Longrightarrow> psum H (\<lambda>k. P k \<or> Q k) = psum H P + psum H Q"
  by (induction H) (auto simp: psum_def)

lemma has_change_or: "has_change H (\<lambda>k. P k \<or> Q k) \<longleftrightarrow> has_change H P \<or> has_change H Q"
  by (auto simp: has_change_def)

lemma psum_none: "\<not> has_change H P \<Longrightarrow> psum H P = 0"
  by (induction H) (auto simp: psum_def has_change_def)

lemma psum_abs: "\<bar>psum H P\<bar> \<le> (\<Sum>(k, z) \<leftarrow> H. \<bar>z\<bar>)"
  by (induction H) (auto simp: psum_def)

lemma psum_take_abs: "\<bar>psum (take n H) P\<bar> \<le> (\<Sum>(k, z) \<leftarrow> H. \<bar>z\<bar>)"
proof -
  have "(\<Sum>(k, z) \<leftarrow> H. \<bar>z\<bar>) = (\<Sum>(k, z) \<leftarrow> take n H. \<bar>z\<bar>) + (\<Sum>(k, z) \<leftarrow> drop n H. \<bar>z\<bar>)"
    by (subst append_take_drop_id [of n H, symmetric]) (simp only: map_append sum_list_append)
  moreover have "0 \<le> (\<Sum>(k, z) \<leftarrow> drop n H. \<bar>z\<bar>)" by (intro sum_list_nonneg) auto
  ultimately show ?thesis using psum_abs [of "take n H" P] by linarith
qed

text \<open>\<open>x\<close> is the sum of the changes with a property, or absent if there are none.\<close>

definition rep :: "('d \<Rightarrow> bool) \<Rightarrow> ('d \<Rightarrow> int) \<Rightarrow> change_list \<Rightarrow> 'd option \<Rightarrow> (epoch \<Rightarrow> bool) \<Rightarrow> bool" where
  "rep good num H x P \<longleftrightarrow>
     (case x of None \<Rightarrow> \<not> has_change H P | Some v \<Rightarrow> has_change H P \<and> good v \<and> num v = psum H P)"

text \<open>Data trimmed at \<open>p\<close>: the epoch \<open>p\<close> holds the sum of all changes up to it.\<close>

definition sums :: "('d \<Rightarrow> bool) \<Rightarrow> ('d \<Rightarrow> int) \<Rightarrow> change_list \<Rightarrow> epoch \<Rightarrow> (epoch \<rightharpoonup> 'd) \<Rightarrow> bool" where
  "sums good num H p d \<longleftrightarrow>
     (\<forall>k < p. d k = None) \<and> rep good num H (d p) (\<lambda>k. k \<le> p) \<and> (\<forall>j > p. rep good num H (d j) (\<lambda>k. k = j))"

definition fits :: "(int \<Rightarrow> bool) \<Rightarrow> change_list \<Rightarrow> bool" where
  "fits rng H \<longleftrightarrow> (\<forall>P. rng (psum H P))"

lemma rep_cong: "(\<And>k. P k = Q k) \<Longrightarrow> rep good num H x P = rep good num H x Q"
  by presburger

lemma rep_cong_on:
  assumes "\<And>k. k \<in> fst ` set H \<Longrightarrow> P k = Q k"
  shows "rep good num H x P = rep good num H x Q"
proof -
  have "psum H P = psum H Q" using assms by (induction H) (auto simp: psum_def)
  moreover have "has_change H P = has_change H Q" using assms by (simp add: has_change_def)
  ultimately show ?thesis by (simp add: rep_def split: option.split)
qed

lemma rep_extra: "rep good num H x P \<Longrightarrow> \<not> has_change H Q \<Longrightarrow> rep good num H x (\<lambda>k. P k \<or> Q k)"
proof -
  assume r: "rep good num H x P" and q: "\<not> has_change H Q"
  have "psum H (\<lambda>k. P k \<or> Q k) = psum H P" using q by (induction H) (auto simp: psum_def has_change_def)
  then show ?thesis using r q by (auto simp: rep_def has_change_or split: option.splits)
qed

text \<open>The changes that the data of the epoch \<open>e\<close> stands for when it is trimmed at \<open>p\<close>.\<close>

definition up_to_or_at :: "epoch \<Rightarrow> epoch \<Rightarrow> epoch \<Rightarrow> bool" where
  "up_to_or_at p e = (if e < p then (\<lambda>k. False) else if p = e then (\<lambda>k. k \<le> p) else (\<lambda>k. k = e))"

lemma sums_cell:
  assumes "sums good num H p d"
  shows "rep good num H (d e) (up_to_or_at p e)"
proof -
  have "rep good num H None (\<lambda>k. False)" by (simp add: rep_def has_change_def)
  then show ?thesis using assms by (auto simp: sums_def up_to_or_at_def not_less)
qed

lemma rep_le: "rep good num H x (\<lambda>k. k = p \<or> k < p) \<longleftrightarrow> rep good num H x (\<lambda>k. k \<le> p)"
  by (rule rep_cong) auto

lemma sums_at:
  assumes "sums good num H p d" "p \<le> p'" "\<forall>k < p'. d' k = None" "\<forall>k > p'. d' k = d k" "rep good num H (d' p') (\<lambda>k. k \<le> p')"
  shows "sums good num H p' d'"
  using assms by (auto simp: sums_def)

lemma rep_snoc_other: "rep good num H x P \<Longrightarrow> \<not> P k \<Longrightarrow> rep good num (H @ [(k, z)]) x P"
  by (auto simp: rep_def has_change_def psum_def split: option.splits)

text \<open>The loops over epochs.\<close>

lemma sum_epochs_snoc:
  "sum_epochs add d acc (es @ [e]) =
     Option.bind (sum_epochs add d acc es) (\<lambda>s. case d e of None \<Rightarrow> Some s | Some v \<Rightarrow> map_option Some (add_to add s v))"
proof (induction es arbitrary: acc)
  case Nil
  then show ?case by (cases "d e"; cases "add_to add acc (the (d e))") simp_all
next
  case (Cons x es)
  then show ?case by (cases "d x"; cases "add_to add acc (the (d x))") simp_all
qed

lemma sum_epochs_skip: "\<forall>e \<in> set es. d e = None \<Longrightarrow> sum_epochs add d acc (es @ fs) = sum_epochs add d acc fs"
  by (induction es) simp_all

lemma sum_epochs_cong: "\<forall>e \<in> set es. d e = d' e \<Longrightarrow> sum_epochs add d acc es = sum_epochs add d' acc es"
proof (induction es arbitrary: acc)
  case (Cons x es)
  then show ?case by (cases "d' x"; cases "add_to add acc (the (d' x))") simp_all
qed simp

lemma remove_sum_eq:
  "distinct es \<Longrightarrow> remove_sum add d acc es =
     map_option (\<lambda>s. (\<lambda>k. if k \<in> set es then None else d k, s)) (sum_epochs add d acc es)"
proof (induction es arbitrary: d acc)
  case (Cons e es)
  have d: "(\<lambda>k. if k \<in> set es then None else (d(e := None)) k) = (\<lambda>k. if k \<in> set (e # es) then None else d k)" by auto
  have "sum_epochs add (d(e := None)) a es = sum_epochs add d a es" for a
    using Cons.prems by (intro sum_epochs_cong) auto
  then show ?case
    using Cons d by (cases "d e"; cases "add_to add acc (the (d e))") simp_all
qed simp

definition delta_inv :: "('d \<Rightarrow> bool) \<Rightarrow> ('d \<Rightarrow> int) \<Rightarrow> u64 \<Rightarrow> u64 \<Rightarrow> 'd epoched \<Rightarrow> change_list \<Rightarrow> bool" where
  "delta_inv good num np nf h H \<longleftrightarrow>
     (case (last_update h, oldest_epoch h) of
        (Some l, Some o1) \<Rightarrow>
          o1 \<le> l \<and> (\<forall>k < o1. ep_data h k = None) \<and> sums good num H (epoch_sub_or_default l np) (ep_data h)
        \<and> (\<forall>k \<in> fst ` set H. unat k \<le> unat l + unat nf)
      | (None, None) \<Rightarrow> ep_data h = Map.empty \<and> H = []
      | _ \<Rightarrow> False)"

fun run_adds :: "('d \<Rightarrow> 'd \<Rightarrow> 'd option) \<Rightarrow> 'd \<Rightarrow> pos_params \<Rightarrow> dyn_epoch_offset \<Rightarrow> 'd epoched
    \<Rightarrow> (epoch \<times> u64 \<times> 'd) list \<Rightarrow> 'd epoched option" where
  "run_adds add zero params past h [] = Some h"
| "run_adds add zero params past h ((c, offset, v) # ops) =
     Option.bind (delta_add add zero params past h v c offset) (\<lambda>h. run_adds add zero params past h ops)"

definition changes_of :: "('d \<Rightarrow> int) \<Rightarrow> (epoch \<times> u64 \<times> 'd) list \<Rightarrow> change_list" where
  "changes_of num ops = map (\<lambda>(c, offset, v). (c + offset, num v)) ops"

lemma run_adds_append:
  "run_adds add zero params past h (xs @ ys) =
     Option.bind (run_adds add zero params past h xs) (\<lambda>h. run_adds add zero params past h ys)"
proof (induction xs arbitrary: h)
  case (Cons x xs)
  then show ?case by (cases x; cases "delta_add add zero params past h (snd (snd x)) (fst x) (fst (snd x))") simp_all
qed simp

text \<open>Numbers that can be added exactly within a range.\<close>

locale delta_data =
  fixes add :: "'d \<Rightarrow> 'd \<Rightarrow> 'd option" and zero :: 'd and num :: "'d \<Rightarrow> int" and good :: "'d \<Rightarrow> bool" and rng :: "int \<Rightarrow> bool"
  assumes add_good: "good a \<Longrightarrow> good b \<Longrightarrow> rng (num a + num b) \<Longrightarrow> \<exists>c. add a b = Some c \<and> good c \<and> num c = num a + num b"
    and zero_good: "good zero" "num zero = 0"
begin

lemma rep_add:
  assumes "fits rng H" "rep good num H x P" "rep good num H (Some v) Q" "\<forall>k. \<not> (P k \<and> Q k)"
  shows "\<exists>s. add_to add x v = Some s \<and> rep good num H (Some s) (\<lambda>k. P k \<or> Q k)"
proof (cases x)
  case None
  then have "\<not> has_change H P" using assms(2) by (simp add: rep_def)
  then show ?thesis
    using None assms(3) psum_disjoint [OF assms(4)] psum_none [of H P] by (auto simp: add_to_def rep_def has_change_or)
next
  case (Some u)
  have "rng (psum H (\<lambda>k. P k \<or> Q k))" using assms(1) by (simp add: fits_def)
  then have "rng (num u + num v)" using Some assms(2,3) psum_disjoint [OF assms(4), of H] by (simp add: rep_def)
  then show ?thesis
    using add_good [of u v] Some assms(2,3) psum_disjoint [OF assms(4), of H]
    by (auto simp: add_to_def rep_def has_change_or)
qed

lemma rep_snoc_add:
  assumes "fits rng (H @ [(k, num v)])" "rep good num H x P" "P k" "good v"
  shows "\<exists>s. add (unwrap_or x zero) v = Some s \<and> rep good num (H @ [(k, num v)]) (Some s) P"
proof -
  have "good (unwrap_or x zero)" "num (unwrap_or x zero) = psum H P"
    using assms(2) zero_good psum_none [of H P] by (auto simp: rep_def unwrap_or_def split: option.splits)
  moreover have "psum (H @ [(k, num v)]) P = psum H P + num v" using assms(3) by (simp add: psum_def)
  moreover have "has_change (H @ [(k, num v)]) P" using assms(3) by (auto simp: has_change_def)
  moreover have "rng (psum (H @ [(k, num v)]) P)" using assms(1) by (simp add: fits_def)
  ultimately show ?thesis using add_good [of "unwrap_or x zero" v] assms(4) by (auto simp: rep_def)
qed

lemma sum_epochs_rep:
  assumes "fits rng H" "sums good num H p d" "b \<le> 2 ^ 64"
  shows "\<exists>r. sum_epochs add d None (map of_nat [0 ..< b]) = Some r \<and> rep good num H r (\<lambda>k. unat p < b \<and> unat k < b)"
  using assms(3)
proof (induction b)
  case 0
  then show ?case by (simp add: rep_def has_change_def)
next
  case (Suc b)
  let ?b = "of_nat b :: epoch"
  have b: "unat ?b = b" using Suc.prems by (simp add: unat_of_nat_lt)
  have eq: "k = ?b \<longleftrightarrow> unat k = b" for k using b by (auto simp: word_unat_eq_iff)
  obtain r where r: "sum_epochs add d None (map of_nat [0 ..< b]) = Some r" "rep good num H r (\<lambda>k. unat p < b \<and> unat k < b)"
    using Suc by auto
  let ?C = "up_to_or_at p ?b"
  have step: "rep good num H x (\<lambda>k. (unat p < b \<and> unat k < b) \<or> ?C k)
      \<longleftrightarrow> rep good num H x (\<lambda>k. unat p < Suc b \<and> unat k < Suc b)" for x
    by (rule rep_cong) (auto simp: up_to_or_at_def word_less_nat_alt word_le_nat_alt b eq)
  have cell: "rep good num H (d ?b) ?C" using sums_cell [OF assms(2)] .
  show ?case
  proof (cases "d ?b")
    case None
    then have "\<not> has_change H ?C" using cell by (simp add: rep_def)
    then show ?thesis using rep_extra [OF r(2), of ?C] r(1) None step by (simp add: sum_epochs_snoc)
  next
    case (Some v)
    have "\<forall>k. \<not> ((unat p < b \<and> unat k < b) \<and> ?C k)"
      by (auto simp: up_to_or_at_def word_less_nat_alt word_le_nat_alt b eq)
    then obtain s where "add_to add r v = Some s" "rep good num H (Some s) (\<lambda>k. (unat p < b \<and> unat k < b) \<or> ?C k)"
      using rep_add [OF assms(1) r(2), of v ?C] cell Some by auto
    then show ?thesis using r(1) Some step by (simp add: sum_epochs_snoc)
  qed
qed

lemma sum_epochs_from:
  assumes "fits rng H" "sums good num H p d" "b \<le> 2 ^ 64" "\<forall>k. unat k < a \<longrightarrow> d k = None" "a \<le> b"
  shows "\<exists>r. sum_epochs add d None (map of_nat [a ..< b]) = Some r \<and> rep good num H r (\<lambda>k. unat p < b \<and> unat k < b)"
proof -
  have "d (of_nat i) = None" if "i < a" for i
    using that assms(3-5) by (simp add: unat_of_nat_lt)
  then have "sum_epochs add d None (map of_nat ([0 ..< a] @ [a ..< b])) = sum_epochs add d None (map of_nat [a ..< b])"
    unfolding map_append by (intro sum_epochs_skip) auto
  then show ?thesis using sum_epochs_rep [OF assms(1-3)] assms(5) by (simp add: upt_append_le)
qed

lemma sums_later:
  assumes "sums good num H p d" "fits rng H" "p \<le> p'" "\<forall>k < p'. d k = None"
  shows "sums good num H p' d"
proof (cases "p = p'")
  case False
  then have lt: "p < p'" using assms(3) by simp
  have "\<forall>k. unat k < unat p' \<longrightarrow> d k = None" using assms(4) by (simp add: word_less_nat_alt)
  then have "rep good num H None (\<lambda>k. unat p < unat p' \<and> unat k < unat p')"
    using sum_epochs_from [OF assms(2,1), of "unat p'" "unat p'"] unat_bound [of p'] by simp
  then have "\<not> has_change H (\<lambda>k. k < p')" using lt by (simp add: rep_def word_less_nat_alt)
  moreover have "rep good num H (d p') (\<lambda>k. k = p')" using assms(1) lt by (simp add: sums_def)
  ultimately have "rep good num H (d p') (\<lambda>k. k \<le> p')" using rep_extra rep_le by blast
  then show ?thesis by (rule sums_at [OF assms(1,3,4), rotated]) simp
qed (use assms in simp)

text \<open>Trimming: the sum of what is removed is added to the oldest epoch that is kept.\<close>

lemma sums_trim:
  assumes sm: "sums good num H p d" and fit: "fits rng H" and le: "p \<le> p'" and low: "\<forall>k < o1. d k = None" and lt: "o1 < p'"
  shows "\<exists>d' r. remove_sum add d None (map of_nat [unat o1 ..< unat p']) = Some (d', r)
    \<and> (\<forall>k < p'. d' k = None)
    \<and> (case r of
         None \<Rightarrow> sums good num H p' d'
       | Some s \<Rightarrow> \<exists>v. (case d' p' of Some x \<Rightarrow> add x s | None \<Rightarrow> Some s) = Some v \<and> sums good num H p' (d'(p' \<mapsto> v)))"
proof -
  let ?es = "map of_nat [unat o1 ..< unat p'] :: epoch list"
  have low': "\<forall>k. unat k < unat o1 \<longrightarrow> d k = None" using low by (simp add: word_less_nat_alt)
  obtain r where r: "sum_epochs add d None ?es = Some r" "rep good num H r (\<lambda>k. unat p < unat p' \<and> unat k < unat p')"
    using sum_epochs_from [OF fit sm _ low', of "unat p'"] lt unat_bound [of p'] by (auto simp: word_less_nat_alt)
  define d' where "d' = (\<lambda>k. if k \<in> set ?es then None else d k)"
  have rm: "remove_sum add d None ?es = Some (d', r)" using remove_sum_eq [OF range_distinct, of add d None] r(1) by (simp add: d'_def)
  have none: "\<forall>k < p'. d' k = None" using low range_mem by (auto simp: d'_def not_less)
  have same: "d' k = d k" if "p' \<le> k" for k using that range_mem by (auto simp: d'_def)
  show ?thesis
  proof (cases r)
    case None
    have "rep good num H (d' p') (\<lambda>k. k \<le> p')"
    proof (cases "p = p'")
      case True
      then show ?thesis using sm same by (simp add: sums_def)
    next
      case False
      then have "\<not> has_change H (\<lambda>k. k < p')" "rep good num H (d' p') (\<lambda>k. k = p')"
        using r(2) None sm le same by (simp_all add: rep_def [of _ _ _ None] sums_def word_less_nat_alt word_le_nat_alt word_unat_eq_iff)
      then show ?thesis using rep_extra rep_le by blast
    qed
    then have "sums good num H p' d'" using same by (intro sums_at [OF sm le none]) auto
    then show ?thesis using rm none None by simp
  next
    case (Some s)
    then have lt': "p < p'" and s: "rep good num H (Some s) (\<lambda>k. k < p')"
      using r(2) by (auto simp: rep_def has_change_def word_less_nat_alt)
    then have "rep good num H (d' p') (\<lambda>k. k = p')" using sm same by (simp add: sums_def)
    then obtain v where v: "add_to add (d' p') s = Some v" "rep good num H (Some v) (\<lambda>k. k = p' \<or> k < p')"
      using rep_add [OF fit _ s] by fastforce
    have "sums good num H p' (d'(p' \<mapsto> v))"
      using v(2) none same by (intro sums_at [OF sm le]) (auto simp: rep_le)
    then show ?thesis using rm none Some v(1) by (simp add: add_to_def)
  qed
qed

lemma delta_update_inv:
  assumes inv: "delta_inv good num np nf h H" and past: "offset_value params past = Some np" and fit: "fits rng H"
    and mono: "\<forall>l. last_update h = Some l \<longrightarrow> l \<le> c"
  shows "\<exists>h'. delta_update_data add params past h c = Some h' \<and> last_update h' = Some c \<and> delta_inv good num np nf h' H"
proof (cases "last_update h")
  case None
  then show ?thesis
    using inv by (auto simp: delta_inv_def delta_update_data_def sums_def rep_def has_change_def split: option.splits)
next
  case (Some l)
  then obtain o1 where o1: "oldest_epoch h = Some o1" "o1 \<le> l" "\<forall>k < o1. ep_data h k = None"
      and sm: "sums good num H (epoch_sub_or_default l np) (ep_data h)"
      and far: "\<forall>k \<in> fst ` set H. unat k \<le> unat l + unat nf"
    using inv by (auto simp: delta_inv_def split: option.splits)
  have lc: "l \<le> c" using mono Some by simp
  have far': "\<forall>k \<in> fst ` set H. unat k \<le> unat c + unat nf" using far lc by (auto simp: word_le_nat_alt)
  let ?k = "epoch_sub_or_default c np"
  note k = epoch_sub_bounds(2) [OF lc, of np] order_trans [OF o1(2) lc] epoch_sub_bounds(1) [of c np]
  show ?thesis
  proof (cases "o1 < ?k")
    case False
    then have "\<forall>k < ?k. ep_data h k = None" using o1(3) by (auto simp: not_less)
    then have "sums good num H ?k (ep_data h)" by (rule sums_later [OF sm fit k(1)])
    then show ?thesis
      using Some o1 k(2) far' False past by (auto simp: delta_update_data_def sub_past_epochs_eq delta_inv_def)
  next
    case True
    obtain d r where dr: "remove_sum add (ep_data h) None (map of_nat [unat o1 ..< unat ?k]) = Some (d, r)"
        and none: "\<forall>k < ?k. d k = None"
        and r: "case r of None \<Rightarrow> sums good num H ?k d
          | Some s \<Rightarrow> \<exists>v. (case d ?k of Some x \<Rightarrow> add x s | None \<Rightarrow> Some s) = Some v \<and> sums good num H ?k (d(?k \<mapsto> v))"
      using sums_trim [OF sm fit k(1) o1(3) True] by blast
    show ?thesis
    proof (cases r)
      case None
      then have "delta_update_data add params past h c = Some (h\<lparr>last_update := Some c, ep_data := d\<rparr>)"
        using Some o1(1) True past dr by (simp add: delta_update_data_def sub_past_epochs_eq iter_range_eq)
      then show ?thesis using None r o1(1) k(2) none True far' by (auto simp: delta_inv_def)
    next
      case (Some s)
      then obtain v where v: "(case d ?k of Some x \<Rightarrow> add x s | None \<Rightarrow> Some s) = Some v" "sums good num H ?k (d(?k \<mapsto> v))"
        using r by auto
      then have "delta_update_data add params past h c =
          Some (h\<lparr>last_update := Some c, oldest_epoch := Some ?k, ep_data := d(?k \<mapsto> v)\<rparr>)"
        using \<open>last_update h = Some l\<close> Some o1(1) True past dr by (simp add: delta_update_data_def sub_past_epochs_eq iter_range_eq)
      then show ?thesis using v(2) k(3) none far' by (simp add: delta_inv_def)
    qed
  qed
qed

lemma sums_add:
  assumes "sums good num H p d" "fits rng (H @ [(k, num v)])" "p \<le> k" "good v"
  shows "\<exists>s. add (unwrap_or (d k) zero) v = Some s \<and> sums good num (H @ [(k, num v)]) p (d(k \<mapsto> s))"
proof -
  have cell: "rep good num H (d k) (up_to_or_at p k)" "up_to_or_at p k k"
    using sums_cell [OF assms(1)] assms(3) by (auto simp: up_to_or_at_def)
  obtain s where s: "add (unwrap_or (d k) zero) v = Some s" "rep good num (H @ [(k, num v)]) (Some s) (up_to_or_at p k)"
    using rep_snoc_add [OF assms(2) cell assms(4)] by blast
  have "sums good num (H @ [(k, num v)]) p (d(k \<mapsto> s))"
  proof (cases "k = p")
    case True
    have "rep good num (H @ [(k, num v)]) (d j) (\<lambda>k. k = j)" if "p < j" for j
      using that assms(1) True by (intro rep_snoc_other) (auto simp: sums_def)
    then show ?thesis using assms(1) s(2) True by (auto simp: sums_def up_to_or_at_def)
  next
    case False
    then have lt: "p < k" using assms(3) by simp
    have "rep good num (H @ [(k, num v)]) (d p) (\<lambda>k. k \<le> p)"
      using lt assms(1) by (intro rep_snoc_other) (auto simp: sums_def)
    moreover have "rep good num (H @ [(k, num v)]) (d j) (\<lambda>k. k = j)" if "p < j" "j \<noteq> k" for j
      using that assms(1) by (intro rep_snoc_other) (auto simp: sums_def)
    moreover have "up_to_or_at p k = (\<lambda>j. j = k)" using lt by (auto simp: up_to_or_at_def)
    ultimately show ?thesis using assms(1) s(2) lt by (auto simp: sums_def)
  qed
  then show ?thesis using s(1) by blast
qed

lemma delta_add_inv:
  assumes inv: "delta_inv good num np nf h H" and past: "offset_value params past = Some np"
    and fit: "fits rng H" "fits rng (H @ [(c + offset, num v)])"
    and mono: "\<forall>l. last_update h = Some l \<longrightarrow> l \<le> c" and off: "offset \<le> nf" "unat c + unat nf < 2 ^ 64" and v: "good v"
  shows "\<exists>h'. delta_add add zero params past h v c offset = Some h' \<and> last_update h' = Some c
    \<and> delta_inv good num np nf h' (H @ [(c + offset, num v)])"
proof -
  obtain h1 where h1: "delta_update_data add params past h c = Some h1" "last_update h1 = Some c" "delta_inv good num np nf h1 H"
    using delta_update_inv [OF inv past fit(1) mono] by blast
  then obtain o1 where o1: "oldest_epoch h1 = Some o1" "o1 \<le> c" "\<forall>k < o1. ep_data h1 k = None"
      and sm: "sums good num H (epoch_sub_or_default c np) (ep_data h1)"
      and far: "\<forall>k \<in> fst ` set H. unat k \<le> unat c + unat nf"
    by (auto simp: delta_inv_def split: option.splits)
  note k = offset_in_range [OF off]
  have ge: "c \<le> c + offset" using k(2) by (simp add: word_le_nat_alt)
  obtain s where s: "add (unwrap_or (ep_data h1 (c + offset)) zero) v = Some s"
      "sums good num (H @ [(c + offset, num v)]) (epoch_sub_or_default c np) ((ep_data h1)(c + offset \<mapsto> s))"
    using sums_add [OF sm fit(2) order_trans [OF epoch_sub_bounds(1) ge] v] by blast
  have "delta_add add zero params past h v c offset = Some (h1\<lparr>ep_data := (ep_data h1)(c + offset \<mapsto> s)\<rparr>)"
    using h1(1) k(1) s(1) by (simp add: delta_add_def set_at_epoch_def)
  moreover have "\<forall>k < o1. ((ep_data h1)(c + offset \<mapsto> s)) k = None" using o1(2,3) ge by auto
  moreover have "\<forall>k \<in> fst ` set (H @ [(c + offset, num v)]). unat k \<le> unat c + unat nf"
    using far k(2) off(1) by (auto simp: word_le_nat_alt)
  ultimately show ?thesis using h1(2) o1(1,2) s(2) by (simp add: delta_inv_def)
qed

lemma run_adds_inv:
  assumes "offset_value params past = Some np" "in_order nf ops" "\<forall>(_, _, v) \<in> set ops. good v"
    and "\<forall>n. fits rng (take n (changes_of num ops))"
  shows "\<exists>h. run_adds add zero params past fresh ops = Some h \<and> delta_inv good num np nf h (changes_of num ops)
    \<and> last_update h = (if ops = [] then None else Some (fst (last ops)))"
  using assms(2-4)
proof (induction ops rule: rev_induct)
  case Nil
  show ?case by (simp add: fresh_def delta_inv_def changes_of_def)
next
  case (snoc op ops)
  obtain c offset v where op: "op = (c, offset, v)" by (cases op)
  have o: "in_order nf ops" "\<forall>x \<in> fst ` set ops. x \<le> c" "offset \<le> nf" "unat c + unat nf < 2 ^ 64"
    using snoc.prems(1) unfolding op in_order_snoc by blast+
  have g: "\<forall>(_, _, v) \<in> set ops. good v" "good v" using snoc.prems(2) op by auto
  let ?H = "changes_of num ops"
  have H: "changes_of num (ops @ [op]) = ?H @ [(c + offset, num v)]" by (simp add: changes_of_def op)
  have f: "fits rng (take n (?H @ [(c + offset, num v)]))" for n using snoc.prems(3) unfolding H by blast
  have f1: "fits rng (take n ?H)" for n using f [of "min n (length ?H)"] by (simp add: min_def split: if_splits)
  have f2: "fits rng ?H" "fits rng (?H @ [(c + offset, num v)])" using f [of "length ?H"] f [of "Suc (length ?H)"] by simp_all
  obtain h where h: "run_adds add zero params past fresh ops = Some h" "delta_inv good num np nf h ?H"
      "last_update h = (if ops = [] then None else Some (fst (last ops)))"
    using snoc.IH [OF o(1) g(1)] f1 by blast
  have mono: "\<forall>l. last_update h = Some l \<longrightarrow> l \<le> c" using h(3) o(2) by auto
  obtain h' where h': "delta_add add zero params past h v c offset = Some h'" "last_update h' = Some c"
      "delta_inv good num np nf h' (?H @ [(c + offset, num v)])"
    using delta_add_inv [OF h(2) assms(1) f2 mono o(3,4) g(2)] by blast
  then have "run_adds add zero params past fresh (ops @ [op]) = Some h'" using h(1) by (simp add: op run_adds_append)
  then show ?case using h'(2,3) H op by simp
qed

lemma get_sum_rep:
  assumes inv: "delta_inv good num np nf h H" and fit: "fits rng H"
    and l: "last_update h = Some l" "unat l + unat nf < 2 ^ 64"
    and past: "offset_value params past = Some np" and future: "offset_value params future = Some nf"
  shows "\<exists>r. get_sum add params future past h e = Some r
    \<and> (if e < epoch_sub_or_default l np then r = None else rep good num H r (\<lambda>k. k \<le> e))"
proof -
  let ?p = "epoch_sub_or_default l np" and ?e = "min e (l + nf)"
  have sm: "sums good num H ?p (ep_data h)" and far: "\<forall>k \<in> fst ` set H. unat k \<le> unat l + unat nf"
    using inv l(1) by (auto simp: delta_inv_def split: option.splits)
  note f = offset_in_range [OF order_refl l(2)]
  have low: "\<forall>k. unat k < unat ?p \<longrightarrow> ep_data h k = None" using sm by (simp add: sums_def word_less_nat_alt)
  have eq: "get_sum add params future past h e = sum_epochs add (ep_data h) None (map of_nat [unat ?p ..< Suc (unat ?e)])"
    using l(1) past future f(1) by (simp add: get_sum_def sub_past_epochs_eq iter_bounds_inclusive_def del: upt_Suc)
  show ?thesis
  proof (cases "e < ?p")
    case True
    then have "unat ?e < unat ?p" by (simp add: min_def word_less_nat_alt word_le_nat_alt)
    then show ?thesis using True eq by simp
  next
    case False
    have "?p \<le> l + nf" using epoch_sub_bounds(1) [of l np] f(2) by (simp add: word_le_nat_alt)
    then have pe: "unat ?p \<le> unat ?e" using False by (simp add: word_le_nat_alt [symmetric])
    then obtain r where r: "sum_epochs add (ep_data h) None (map of_nat [unat ?p ..< Suc (unat ?e)]) = Some r"
        "rep good num H r (\<lambda>k. unat ?p < Suc (unat ?e) \<and> unat k < Suc (unat ?e))"
      using sum_epochs_from [OF fit sm _ low, of "Suc (unat ?e)"] unat_bound [of ?e] by (auto simp del: upt_Suc)
    have "rep good num H r (\<lambda>k. unat ?p < Suc (unat ?e) \<and> unat k < Suc (unat ?e)) = rep good num H r (\<lambda>k. k \<le> e)"
      using pe far f(2) by (intro rep_cong_on) (auto simp: min_def word_le_nat_alt)
    then show ?thesis using r False eq by simp
  qed
qed

end

text \<open>The data of the code: changes of tokens and amounts of tokens.\<close>

interpretation token_change: delta_data i256_add "I256 0" i256_val i256_ok in_range
proof
  show "\<exists>c. i256_add a b = Some c \<and> i256_ok c \<and> i256_val c = i256_val a + i256_val b"
    if "i256_ok a" "i256_ok b" "in_range (i256_val a + i256_val b)" for a b
    using that add_exact [OF that(1,2)] i256_of_ok [OF that(3)] val_i256_of [OF that(3)] by auto
  show "i256_ok (I256 0)" "i256_val (I256 0) = 0" by (simp_all add: i256_ok_def i256_val_def MINUS_ZERO_def)
qed

interpretation token_amount: delta_data amount_add "Amount 0" "\<lambda>a. uint (raw_amount a)" "\<lambda>_. True" "\<lambda>z. 0 \<le> z \<and> z < 2 ^ 256"
proof
  show "\<exists>c. amount_add a b = Some c \<and> True \<and> uint (raw_amount c) = uint (raw_amount a) + uint (raw_amount b)"
    if "0 \<le> uint (raw_amount a) + uint (raw_amount b) \<and> uint (raw_amount a) + uint (raw_amount b) < 2 ^ 256" for a b
    using amount_add_ex [of a b] that by blast
qed simp_all

section \<open>Properties\<close>

text \<open>The first epoch that is kept after a run.\<close>

definition first_kept :: "u64 \<Rightarrow> (epoch \<times> u64 \<times> 'd) list \<Rightarrow> epoch" where
  "first_kept np ops = (if ops = [] then 0 else epoch_sub_or_default (fst (last ops)) np)"

text \<open>(C10) Trimming epoched data loses nothing that can still be read. However often values are set,
  in epochs that do not decrease and for at most the number of future epochs ahead, no call panics, and
  reading an epoch that is not before the kept ones finds the value that was set for it, or for the
  latest epoch before it, in the whole history; an epoch before the kept ones has no value.\<close>

theorem epoched_reads_history:
  assumes "offset_value params past = Some np" "offset_value params future = Some nf" "in_order nf ops"
  shows "\<exists>h. run_sets params past fresh ops = Some h \<and>
    (\<forall>e. \<exists>r. epoched_get params future past h e = Some r \<and>
       (if e < first_kept np ops then r = None
        else case r of
          Some v \<Rightarrow> (\<exists>k \<le> e. history ops k = Some v \<and> (\<forall>j. k < j \<and> j \<le> e \<longrightarrow> history ops j = None))
        | None \<Rightarrow> (\<forall>k \<le> e. history ops k = None)))"
proof -
  obtain h where h: "run_sets params past fresh ops = Some h" "epoched_inv np nf h (history ops)"
      "last_update h = (if ops = [] then None else Some (fst (last ops)))"
    using run_sets_inv [OF assms(1,3)] by blast
  have "\<exists>r. epoched_get params future past h e = Some r \<and>
      (if e < first_kept np ops then r = None else latest (history ops) e r)" for e
  proof (cases "ops = []")
    case True
    then show ?thesis using h(3) by (simp add: epoched_get_def first_kept_def history_def latest_def)
  next
    case False
    then have "unat (fst (last ops)) + unat nf < 2 ^ 64"
      using assms(3) last_in_set [OF False] by (cases "last ops") (auto simp: in_order_def)
    then show ?thesis
      using epoched_get_latest [OF h(2) _ _ assms(1,2)] h(3) False by (simp add: first_kept_def)
  qed
  then show ?thesis using h(1) unfolding latest_def by blast
qed

text \<open>Parameters with two past and two future epochs, and a run that sets values in epochs 1, 2 and 9.\<close>

definition example_params :: pos_params where
  "example_params = \<lparr>owned = \<lparr>max_validator_slots = 100, pipeline_len = 2, unbonding_len = 21,
     tm_votes_per_token = dec_zero, block_proposer_reward = dec_zero, block_vote_reward = dec_zero,
     max_inflation_rate = dec_zero, target_staked_ratio = dec_zero, duplicate_vote_min_slash_rate = dec_zero,
     light_client_attack_min_slash_rate = dec_zero, cubic_slashing_window_length = 1,
     validator_stake_threshold = Amount 0, liveness_window_check = 100, liveness_threshold = dec_zero,
     rewards_gain_p = dec_zero, rewards_gain_d = dec_zero\<rparr>, max_proposal_period = 27\<rparr>"

definition example_run :: "(epoch \<times> u64 \<times> i256) list" where
  "example_run = [(1, 0, i256_of 5), (2, 2, i256_of (- 3)), (9, 1, i256_of 4)]"

lemma example_offsets:
  "offset_value example_params DefaultNumPastEpoch = Some 2" "offset_value example_params PipelineLen = Some 2"
  "in_order 2 example_run" "first_kept 2 example_run = 7"
  by (simp_all add: example_params_def DEFAULT_NUM_PAST_EPOCHS_def in_order_def example_run_def first_kept_def
      epoch_sub_or_default_def epoch_checked_sub_def unwrap_or_def)

lemma example_history:
  "history example_run = [10 \<mapsto> i256_of 4, 4 \<mapsto> i256_of (- 3), 1 \<mapsto> i256_of 5]"
  by (auto simp: history_def example_run_def fun_eq_iff)

theorem epoched_reads_history_witness:
  "\<exists>h. run_sets example_params DefaultNumPastEpoch fresh example_run = Some h
    \<and> epoched_get example_params PipelineLen DefaultNumPastEpoch h 9 = Some (Some (i256_of (- 3)))
    \<and> epoched_get example_params PipelineLen DefaultNumPastEpoch h 50 = Some (Some (i256_of 4))
    \<and> epoched_get example_params PipelineLen DefaultNumPastEpoch h 5 = Some None"
proof -
  obtain h where h: "run_sets example_params DefaultNumPastEpoch fresh example_run = Some h"
    and g: "\<And>e. \<exists>r. epoched_get example_params PipelineLen DefaultNumPastEpoch h e = Some r \<and>
       (if e < first_kept 2 example_run then r = None
        else case r of
          Some v \<Rightarrow> (\<exists>k \<le> e. history example_run k = Some v \<and> (\<forall>j. k < j \<and> j \<le> e \<longrightarrow> history example_run j = None))
        | None \<Rightarrow> (\<forall>k \<le> e. history example_run k = None))"
    using epoched_reads_history [OF example_offsets(1-3)] by blast
  have "latest (history example_run) 9 (Some (i256_of (- 3)))" "latest (history example_run) 50 (Some (i256_of 4))"
    unfolding latest_def example_history by (auto intro: exI [of _ 4] exI [of _ 10])
  then show ?thesis
    using h g [of 9] g [of 50] g [of 5] latest_unique unfolding latest_def [symmetric] example_offsets(4) by fastforce
qed

text \<open>(C9) The sums of changes are exact. After any run of additions in epochs that do not decrease, for at
  most the number of future epochs ahead and with absolute values that add up to less than \<open>2 ^ 255\<close>, no
  call panics, and the sum that is read at an epoch that is not before the kept ones is that of all
  changes of the whole history for epochs up to it; it is absent exactly when there were none.\<close>

theorem epoched_sums_exact:
  assumes "offset_value params past = Some np" "offset_value params future = Some nf" "in_order nf ops"
    and "\<forall>(c, offset, v) \<in> set ops. i256_ok v" and "(\<Sum>(c, offset, v) \<leftarrow> ops. \<bar>i256_val v\<bar>) < 2 ^ 255"
  shows "\<exists>h. run_adds i256_add (I256 0) params past fresh ops = Some h \<and>
    (\<forall>e. \<exists>r. get_sum i256_add params future past h e = Some r \<and>
       (if e < first_kept np ops then r = None
        else case r of
          Some s \<Rightarrow> i256_val s = (\<Sum>(c, offset, v) \<leftarrow> ops. if c + offset \<le> e then i256_val v else 0)
        | None \<Rightarrow> (\<forall>(c, offset, v) \<in> set ops. \<not> c + offset \<le> e)))"
proof -
  let ?H = "changes_of i256_val ops"
  have "(\<Sum>(k, z) \<leftarrow> ?H. \<bar>z\<bar>) = (\<Sum>(c, offset, v) \<leftarrow> ops. \<bar>i256_val v\<bar>)"
    by (induction ops) (auto simp: changes_of_def)
  then have abs: "\<bar>psum (take n ?H) P\<bar> < half" for n P
    using assms(5) psum_take_abs [of n ?H P] by (simp add: half_def)
  have fit: "fits in_range (take n ?H)" for n
    unfolding fits_def in_range_def using abs [of n] by (auto simp: abs_less_iff minus_less_iff)
  obtain h where h: "run_adds i256_add (I256 0) params past fresh ops = Some h" "delta_inv i256_ok i256_val np nf h ?H"
      "last_update h = (if ops = [] then None else Some (fst (last ops)))"
    using token_change.run_adds_inv [OF assms(1,3,4)] fit by blast
  have P: "psum ?H (\<lambda>k. k \<le> e) = (\<Sum>(c, offset, v) \<leftarrow> ops. if c + offset \<le> e then i256_val v else 0)"
    "has_change ?H (\<lambda>k. k \<le> e) \<longleftrightarrow> \<not> (\<forall>(c, offset, v) \<in> set ops. \<not> c + offset \<le> e)" for e
    by (induction ops) (auto simp: changes_of_def psum_def has_change_def)
  have "\<exists>r. get_sum i256_add params future past h e = Some r \<and>
      (if e < first_kept np ops then r = None else rep i256_ok i256_val ?H r (\<lambda>k. k \<le> e))" for e
  proof (cases "ops = []")
    case True
    then show ?thesis using h(3) by (simp add: get_sum_def first_kept_def rep_def has_change_def changes_of_def)
  next
    case False
    then have "unat (fst (last ops)) + unat nf < 2 ^ 64"
      using assms(3) last_in_set [OF False] by (cases "last ops") (auto simp: in_order_def)
    then show ?thesis
      using token_change.get_sum_rep [OF h(2) _ _ _ assms(1,2)] fit [of "length ?H"] h(3) False by (simp add: first_kept_def)
  qed
  moreover have "rep i256_ok i256_val ?H r (\<lambda>k. k \<le> e) \<Longrightarrow>
      (case r of
          Some s \<Rightarrow> i256_val s = (\<Sum>(c, offset, v) \<leftarrow> ops. if c + offset \<le> e then i256_val v else 0)
        | None \<Rightarrow> (\<forall>(c, offset, v) \<in> set ops. \<not> c + offset \<le> e))" for r e
    unfolding rep_def P by (cases r) simp_all
  ultimately show ?thesis using h(1) by (intro exI [of _ h] conjI allI) (assumption, meson)
qed

theorem epoched_sums_exact_witness:
  "\<exists>h. run_adds i256_add (I256 0) example_params DefaultNumPastEpoch fresh example_run = Some h
    \<and> (\<exists>s. get_sum i256_add example_params PipelineLen DefaultNumPastEpoch h 9 = Some (Some s) \<and> i256_val s = 2)
    \<and> (\<exists>s. get_sum i256_add example_params PipelineLen DefaultNumPastEpoch h 50 = Some (Some s) \<and> i256_val s = 6)"
proof -
  have r: "in_range 5" "in_range (- 3)" "in_range 4" by (simp_all add: small_in_range)
  have v: "i256_val (i256_of 5) = 5" "i256_val (i256_of (- 3)) = - 3" "i256_val (i256_of 4) = 4" using r val_i256_of by blast+
  have ok: "\<forall>(c, offset, v) \<in> set example_run. i256_ok v" "(\<Sum>(c, offset, v) \<leftarrow> example_run. \<bar>i256_val v\<bar>) < 2 ^ 255"
    using r i256_of_ok by (auto simp: example_run_def v)
  obtain h where h: "run_adds i256_add (I256 0) example_params DefaultNumPastEpoch fresh example_run = Some h"
    and g: "\<And>e. \<exists>r. get_sum i256_add example_params PipelineLen DefaultNumPastEpoch h e = Some r \<and>
       (if e < 7 then r = None
        else case r of
          Some s \<Rightarrow> i256_val s = (\<Sum>(c, offset, v) \<leftarrow> example_run. if c + offset \<le> e then i256_val v else 0)
        | None \<Rightarrow> (\<forall>(c, offset, v) \<in> set example_run. \<not> c + offset \<le> e))"
    using epoched_sums_exact [OF example_offsets(1-3) ok] unfolding example_offsets(4) by blast
  show ?thesis
    using h g [of 9] g [of 50] by (auto simp: example_run_def v split: option.splits)
qed

end
