(* ===== verification/Governance.thy ===== *)
theory Governance
  imports Address Epochs Token_Amount Containers
begin

text \<open>
  Governance proposals, votes and their tally (core/src/ledger/governance/utils.rs and
  storage/vote.rs, storage/proposal.rs). A validator votes with its whole voting power, which
  includes what was delegated to it; a delegator who votes takes their tokens out of the vote of the
  validator. The sums panic when they leave the range of an amount.
\<close>

section \<open>Proposals and votes\<close>

datatype proposal_status = Pending | OnGoing | Ended

datatype 'a add_remove = Add 'a | Remove 'a

record pgf_target =
  target :: address
  target_amount :: amount

datatype pgf_action = Continuous "pgf_target add_remove" | Retro pgf_target

datatype proposal_type =
    DefaultProposal "bytes option"
  | PGFStewardProposal "address add_remove set"
  | PGFPaymentProposal "pgf_action list"

datatype vote_type = DefaultVote | PGFStewardVote | PGFPaymentVote

datatype storage_proposal_vote = Yay vote_type | Nay | Abstain

fun vote_is_yay :: "storage_proposal_vote \<Rightarrow> bool" where
  "vote_is_yay (Yay _) = True"
| "vote_is_yay _ = False"

fun vote_is_nay :: "storage_proposal_vote \<Rightarrow> bool" where
  "vote_is_nay Nay = True"
| "vote_is_nay _ = False"

fun vote_is_abstain :: "storage_proposal_vote \<Rightarrow> bool" where
  "vote_is_abstain Abstain = True"
| "vote_is_abstain _ = False"

text \<open>Equality of the discriminants.\<close>

fun vote_is_same_side :: "storage_proposal_vote \<Rightarrow> storage_proposal_vote \<Rightarrow> bool" where
  "vote_is_same_side (Yay _) (Yay _) = True"
| "vote_is_same_side Nay Nay = True"
| "vote_is_same_side Abstain Abstain = True"
| "vote_is_same_side _ _ = False"

fun is_default_vote :: "storage_proposal_vote \<Rightarrow> bool" where
  "is_default_vote (Yay DefaultVote) = True"
| "is_default_vote Nay = True"
| "is_default_vote _ = False"

fun type_eq :: "proposal_type \<Rightarrow> vote_type \<Rightarrow> bool" where
  "type_eq (DefaultProposal _) other = (other = DefaultVote)"
| "type_eq (PGFStewardProposal _) other = (other = PGFStewardVote)"
| "type_eq (PGFPaymentProposal _) other = (other = PGFPaymentVote)"

fun is_compatible :: "storage_proposal_vote \<Rightarrow> proposal_type \<Rightarrow> bool" where
  "is_compatible (Yay vote_type) proposal_type = type_eq proposal_type vote_type"
| "is_compatible Nay proposal_type = True"
| "is_compatible Abstain proposal_type = True"

text \<open>The vote as given on the command line.\<close>

datatype proposal_vote = CliYay | CliNay | CliAbstain

fun build_vote :: "proposal_vote \<Rightarrow> proposal_type \<Rightarrow> storage_proposal_vote option" where
  "build_vote CliYay (DefaultProposal _) = Some (Yay DefaultVote)"
| "build_vote CliYay (PGFStewardProposal _) = Some (Yay PGFStewardVote)"
| "build_vote CliYay (PGFPaymentProposal _) = Some (Yay PGFPaymentVote)"
| "build_vote CliNay (DefaultProposal _) = Some Nay"
| "build_vote CliNay (PGFStewardProposal _) = Some Nay"
| "build_vote CliNay (PGFPaymentProposal _) = Some Nay"
| "build_vote _ _ = None"

record storage_proposal =
  proposal_id :: u64
  proposal_content :: "(string \<times> string) list"
  author :: address
  proposal_type_of :: proposal_type
  voting_start_epoch :: epoch
  voting_end_epoch :: epoch
  grace_epoch :: epoch

definition can_be_voted :: "storage_proposal \<Rightarrow> epoch \<Rightarrow> bool \<Rightarrow> bool option" where
  "can_be_voted p current_epoch is_validator =
     (if is_validator
      then if voting_start_epoch p \<le> current_epoch
        then do {
          lhs \<leftarrow> checked_mul current_epoch 3;
          twice \<leftarrow> checked_mul (voting_end_epoch p) 2;
          rhs \<leftarrow> checked_add (voting_start_epoch p) twice;
          Some (lhs \<le> rhs)
        }
        else Some False
      else Some (voting_start_epoch p \<le> current_epoch \<and> current_epoch \<le> voting_end_epoch p))"

definition get_status :: "storage_proposal \<Rightarrow> epoch \<Rightarrow> proposal_status" where
  "get_status p current_epoch =
     (if current_epoch < voting_start_epoch p then Pending
      else if voting_start_epoch p \<le> current_epoch \<and> current_epoch \<le> voting_end_epoch p then OnGoing
      else Ended)"

definition is_valid_validator_voting_period :: "epoch \<Rightarrow> epoch \<Rightarrow> epoch \<Rightarrow> bool option" where
  "is_valid_validator_voting_period current_epoch start_epoch end_epoch =
     (if end_epoch \<le> start_epoch then Some False
      else do {
        duration \<leftarrow> checked_sub end_epoch start_epoch;
        third \<leftarrow> checked_div duration 3;
        two_third_duration \<leftarrow> checked_mul third 2;
        last_epoch \<leftarrow> checked_add start_epoch two_third_duration;
        Some (current_epoch \<le> last_epoch)
      })"

section \<open>Tally\<close>

datatype tally_type = TwoThirds | OneHalfOverOneThird | LessOneHalfOverOneThirdNay

fun tally_type_from :: "proposal_type \<Rightarrow> bool \<Rightarrow> tally_type" where
  "tally_type_from (DefaultProposal _) _ = TwoThirds"
| "tally_type_from (PGFStewardProposal _) _ = OneHalfOverOneThird"
| "tally_type_from (PGFPaymentProposal _) True = LessOneHalfOverOneThirdNay"
| "tally_type_from (PGFPaymentProposal _) False = OneHalfOverOneThird"

definition get_tally_type :: "storage_proposal \<Rightarrow> bool \<Rightarrow> tally_type" where
  "get_tally_type p is_steward = tally_type_from (proposal_type_of p) is_steward"

datatype tally_result = Passed | Rejected

definition sum_of_three :: "amount \<Rightarrow> amount \<Rightarrow> amount \<Rightarrow> amount option" where
  "sum_of_three a b c = Option.bind (amount_add a b) (\<lambda>s. amount_add s c)"

definition tally_result_new :: "tally_type \<Rightarrow> amount \<Rightarrow> amount \<Rightarrow> amount \<Rightarrow> amount \<Rightarrow> tally_result option" where
  "tally_result_new tally_type yay nay abstain total_power = do {
     passed \<leftarrow> (case tally_type of
         TwoThirds \<Rightarrow> do {
           t \<leftarrow> amount_mul_u64 total_power 2;
           t \<leftarrow> amount_div_u64 t 3;
           Some (raw_amount t \<le> raw_amount yay)
         }
       | OneHalfOverOneThird \<Rightarrow> do {
           voted \<leftarrow> sum_of_three yay nay abstain;
           third \<leftarrow> amount_div_u64 total_power 3;
           Some (raw_amount third \<le> raw_amount voted \<and> raw_amount nay \<le> raw_amount yay)
         }
       | LessOneHalfOverOneThirdNay \<Rightarrow> do {
           voted \<leftarrow> sum_of_three yay nay abstain;
           third \<leftarrow> amount_div_u64 total_power 3;
           Some (raw_amount voted < raw_amount third \<or> raw_amount nay < raw_amount yay)
         });
     Some (if passed then Passed else Rejected)
   }"

record proposal_result =
  result :: tally_result
  total_voting_power :: amount
  total_yay_power :: amount
  total_nay_power :: amount
  total_abstain_power :: amount

definition two_thirds_nay_over_two_thirds_total :: "proposal_result \<Rightarrow> bool option" where
  "two_thirds_nay_over_two_thirds_total r = do {
     voted \<leftarrow> sum_of_three (total_yay_power r) (total_nay_power r) (total_abstain_power r);
     t \<leftarrow> amount_mul_u64 (total_voting_power r) 2;
     t \<leftarrow> amount_div_u64 t 3;
     cast \<leftarrow> amount_add (total_nay_power r) (total_yay_power r);
     c \<leftarrow> amount_mul_u64 cast 2;
     c \<leftarrow> amount_div_u64 c 3;
     Some (raw_amount t \<le> raw_amount voted \<and> raw_amount c \<le> raw_amount (total_nay_power r))
   }"

text \<open>An offline vote; of its fields only the vote enters the tally.\<close>

record offline_vote =
  proposal_hash :: bytes
  offline_vote_of :: proposal_vote
  voter_address :: address
  vote_delegations :: "address list"

datatype tally_vote = OnChain storage_proposal_vote | Offline offline_vote

fun is_yay :: "tally_vote \<Rightarrow> bool" where
  "is_yay (OnChain vote) = vote_is_yay vote"
| "is_yay (Offline vote) = (offline_vote_of vote = CliYay)"

fun is_nay :: "tally_vote \<Rightarrow> bool" where
  "is_nay (OnChain vote) = vote_is_nay vote"
| "is_nay (Offline vote) = (offline_vote_of vote = CliNay)"

fun is_abstain :: "tally_vote \<Rightarrow> bool" where
  "is_abstain (OnChain vote) = vote_is_abstain vote"
| "is_abstain (Offline vote) = (offline_vote_of vote = CliAbstain)"

text \<open>\<open>None\<close> is the error for different variants.\<close>

fun is_same_side :: "tally_vote \<Rightarrow> tally_vote \<Rightarrow> bool option" where
  "is_same_side (OnChain vote) (OnChain other_vote) = Some (vote_is_same_side vote other_vote)"
| "is_same_side (Offline vote) (Offline other_vote) = Some (offline_vote_of vote = offline_vote_of other_vote)"
| "is_same_side _ _ = None"

record proposal_votes =
  validators_vote :: "(address, tally_vote) hash_map"
  validator_voting_power :: "(address, amount) hash_map"
  delegators_vote :: "(address, tally_vote) hash_map"
  delegator_voting_power :: "(address, (address, amount) hash_map) hash_map"

text \<open>The three sums that \<open>compute_proposal_result\<close> keeps.\<close>

record tally =
  yay_voting_power :: amount
  nay_voting_power :: amount
  abstain_voting_power :: amount

definition add_yay :: "amount \<Rightarrow> tally \<Rightarrow> tally option" where
  "add_yay p t = map_option (\<lambda>v. t\<lparr>yay_voting_power := v\<rparr>) (amount_add (yay_voting_power t) p)"

definition add_nay :: "amount \<Rightarrow> tally \<Rightarrow> tally option" where
  "add_nay p t = map_option (\<lambda>v. t\<lparr>nay_voting_power := v\<rparr>) (amount_add (nay_voting_power t) p)"

definition add_abstain :: "amount \<Rightarrow> tally \<Rightarrow> tally option" where
  "add_abstain p t = map_option (\<lambda>v. t\<lparr>abstain_voting_power := v\<rparr>) (amount_add (abstain_voting_power t) p)"

definition sub_yay :: "amount \<Rightarrow> tally \<Rightarrow> tally option" where
  "sub_yay p t = map_option (\<lambda>v. t\<lparr>yay_voting_power := v\<rparr>) (amount_sub (yay_voting_power t) p)"

definition sub_nay :: "amount \<Rightarrow> tally \<Rightarrow> tally option" where
  "sub_nay p t = map_option (\<lambda>v. t\<lparr>nay_voting_power := v\<rparr>) (amount_sub (nay_voting_power t) p)"

definition sub_abstain :: "amount \<Rightarrow> tally \<Rightarrow> tally option" where
  "sub_abstain p t = map_option (\<lambda>v. t\<lparr>abstain_voting_power := v\<rparr>) (amount_sub (abstain_voting_power t) p)"

definition add_vote :: "tally_vote \<Rightarrow> amount \<Rightarrow> tally \<Rightarrow> tally option" where
  "add_vote vote p t =
     (if is_yay vote then add_yay p t
      else if is_nay vote then add_nay p t
      else if is_abstain vote then add_abstain p t
      else Some t)"

fun count_validators :: "(address, tally_vote) hash_map \<Rightarrow> (address \<times> amount) list \<Rightarrow> tally \<Rightarrow> tally option" where
  "count_validators votes [] t = Some t"
| "count_validators votes ((addr, vote_power) # rest) t =
     (case map_of votes addr of
        Some vote \<Rightarrow> Option.bind (add_vote vote vote_power t) (count_validators votes rest)
      | None \<Rightarrow> count_validators votes rest t)"

text \<open>The delegated power goes to the side of the delegator and leaves that of the validator.\<close>

definition move_vote :: "tally_vote \<Rightarrow> tally_vote \<Rightarrow> amount \<Rightarrow> tally \<Rightarrow> tally option" where
  "move_vote validator_vote delegator_vote p t =
     (if is_yay delegator_vote
      then Option.bind (add_yay p t) (\<lambda>t.
        if is_nay validator_vote then sub_nay p t
        else if is_abstain validator_vote then sub_abstain p t else Some t)
      else if is_nay delegator_vote
      then Option.bind (add_nay p t) (\<lambda>t.
        if is_yay validator_vote then sub_yay p t
        else if is_abstain validator_vote then sub_abstain p t else Some t)
      else if is_abstain delegator_vote
      then Option.bind (add_abstain p t) (\<lambda>t.
        if is_yay validator_vote then sub_yay p t
        else if is_nay validator_vote then sub_nay p t else Some t)
      else Some t)"

text \<open>The two loops over delegations: the outer option is a panic, the inner one the early return that
  forces the proposal to fail.\<close>

fun count_delegations :: "(address, tally_vote) hash_map \<Rightarrow> tally_vote \<Rightarrow> (address \<times> amount) list \<Rightarrow> tally
    \<Rightarrow> tally option option" where
  "count_delegations votes delegator_vote [] t = Some (Some t)"
| "count_delegations votes delegator_vote ((validator, voting_power) # rest) t =
     (case map_of votes validator of
        Some validator_vote \<Rightarrow>
          (case is_same_side validator_vote delegator_vote of
             None \<Rightarrow> Some None
           | Some True \<Rightarrow> count_delegations votes delegator_vote rest t
           | Some False \<Rightarrow>
               Option.bind (move_vote validator_vote delegator_vote voting_power t) (count_delegations votes delegator_vote rest))
      | None \<Rightarrow> Option.bind (add_vote delegator_vote voting_power t) (count_delegations votes delegator_vote rest))"

fun count_delegators :: "proposal_votes \<Rightarrow> (address \<times> (address, amount) hash_map) list \<Rightarrow> tally \<Rightarrow> tally option option" where
  "count_delegators votes [] t = Some (Some t)"
| "count_delegators votes ((delegator, delegations) # rest) t =
     (case map_of (delegators_vote votes) delegator of
        None \<Rightarrow> count_delegators votes rest t
      | Some delegator_vote \<Rightarrow> do {
          r \<leftarrow> count_delegations (validators_vote votes) delegator_vote delegations t;
          (case r of None \<Rightarrow> Some None | Some t \<Rightarrow> count_delegators votes rest t)
        })"

definition compute_proposal_result :: "proposal_votes \<Rightarrow> amount \<Rightarrow> tally_type \<Rightarrow> proposal_result option" where
  "compute_proposal_result votes total_power tally_at = do {
     t \<leftarrow> count_validators (validators_vote votes) (validator_voting_power votes)
       \<lparr>yay_voting_power = Amount 0, nay_voting_power = Amount 0, abstain_voting_power = Amount 0\<rparr>;
     r \<leftarrow> count_delegators votes (delegator_voting_power votes) t;
     (case r of
        None \<Rightarrow> Some \<lparr>result = Rejected, total_voting_power = Amount 0, total_yay_power = Amount 0,
          total_nay_power = Amount 0, total_abstain_power = Amount 0\<rparr>
      | Some t \<Rightarrow> do {
          tally_result \<leftarrow> tally_result_new tally_at (yay_voting_power t) (nay_voting_power t)
            (abstain_voting_power t) total_power;
          Some \<lparr>result = tally_result, total_voting_power = total_power, total_yay_power = yay_voting_power t,
            total_nay_power = nay_voting_power t, total_abstain_power = abstain_voting_power t\<rparr>
        })
   }"

section \<open>Each token is counted once\<close>

datatype side = YaySide | NaySide | AbstainSide

fun side_of :: "tally_vote \<Rightarrow> side" where
  "side_of v = (if is_yay v then YaySide else if is_nay v then NaySide else AbstainSide)"

declare side_of.simps [simp del]

fun power_of :: "tally \<Rightarrow> side \<Rightarrow> int" where
  "power_of t YaySide = uint (raw_amount (yay_voting_power t))"
| "power_of t NaySide = uint (raw_amount (nay_voting_power t))"
| "power_of t AbstainSide = uint (raw_amount (abstain_voting_power t))"

definition on_chain :: "tally_vote \<Rightarrow> bool" where
  "on_chain v \<longleftrightarrow> (\<exists>w. v = OnChain w)"

lemma vote_cases:
  "is_yay v \<and> \<not> is_nay v \<and> \<not> is_abstain v \<and> side_of v = YaySide
   \<or> \<not> is_yay v \<and> is_nay v \<and> \<not> is_abstain v \<and> side_of v = NaySide
   \<or> \<not> is_yay v \<and> \<not> is_nay v \<and> is_abstain v \<and> side_of v = AbstainSide"
proof (cases v)
  case (OnChain w)
  then show ?thesis by (cases w) (simp_all add: side_of.simps)
next
  case (Offline w)
  then show ?thesis by (cases "offline_vote_of w") (simp_all add: side_of.simps)
qed

lemma same_side_on_chain: "on_chain v \<Longrightarrow> on_chain w \<Longrightarrow> is_same_side v w = Some (side_of v = side_of w)"
  unfolding on_chain_def
proof (elim exE)
  fix a b assume "v = OnChain a" "w = OnChain b"
  then show ?thesis by (cases a; cases b) (simp_all add: side_of.simps)
qed

lemma side_fun_eq: "f = g \<longleftrightarrow> f YaySide = g YaySide \<and> f NaySide = g NaySide \<and> f AbstainSide = g AbstainSide"
proof
  assume "f YaySide = g YaySide \<and> f NaySide = g NaySide \<and> f AbstainSide = g AbstainSide"
  then have "f s = g s" for s by (cases s) simp_all
  then show "f = g" by blast
qed simp

lemma add_side:
  "power_of t YaySide + uint (raw_amount p) < 2 ^ 256 \<Longrightarrow>
     \<exists>t'. add_yay p t = Some t' \<and> power_of t' = (power_of t)(YaySide := power_of t YaySide + uint (raw_amount p))"
  "power_of t NaySide + uint (raw_amount p) < 2 ^ 256 \<Longrightarrow>
     \<exists>t'. add_nay p t = Some t' \<and> power_of t' = (power_of t)(NaySide := power_of t NaySide + uint (raw_amount p))"
  "power_of t AbstainSide + uint (raw_amount p) < 2 ^ 256 \<Longrightarrow>
     \<exists>t'. add_abstain p t = Some t' \<and> power_of t' = (power_of t)(AbstainSide := power_of t AbstainSide + uint (raw_amount p))"
  using amount_add_ex [of "yay_voting_power t" p] amount_add_ex [of "nay_voting_power t" p] amount_add_ex [of "abstain_voting_power t" p]
  by (auto simp: add_yay_def add_nay_def add_abstain_def side_fun_eq)

lemma sub_side:
  "uint (raw_amount p) \<le> power_of t YaySide \<Longrightarrow>
     \<exists>t'. sub_yay p t = Some t' \<and> power_of t' = (power_of t)(YaySide := power_of t YaySide - uint (raw_amount p))"
  "uint (raw_amount p) \<le> power_of t NaySide \<Longrightarrow>
     \<exists>t'. sub_nay p t = Some t' \<and> power_of t' = (power_of t)(NaySide := power_of t NaySide - uint (raw_amount p))"
  "uint (raw_amount p) \<le> power_of t AbstainSide \<Longrightarrow>
     \<exists>t'. sub_abstain p t = Some t' \<and> power_of t' = (power_of t)(AbstainSide := power_of t AbstainSide - uint (raw_amount p))"
  using amount_sub_ex [of p "yay_voting_power t"] amount_sub_ex [of p "nay_voting_power t"] amount_sub_ex [of p "abstain_voting_power t"]
  by (auto simp: sub_yay_def sub_nay_def sub_abstain_def side_fun_eq)

lemma add_vote_power:
  assumes "power_of t (side_of v) + uint (raw_amount p) < 2 ^ 256"
  shows "\<exists>t'. add_vote v p t = Some t' \<and> power_of t' = (power_of t)(side_of v := power_of t (side_of v) + uint (raw_amount p))"
  using vote_cases [of v] assms add_side unfolding add_vote_def by auto

lemma move_vote_power:
  assumes "side_of vv \<noteq> side_of dv" "power_of t (side_of dv) + uint (raw_amount p) < 2 ^ 256"
    and "uint (raw_amount p) \<le> power_of t (side_of vv)"
  shows "\<exists>t'. move_vote vv dv p t = Some t' \<and> power_of t' =
    (power_of t)(side_of dv := power_of t (side_of dv) + uint (raw_amount p), side_of vv := power_of t (side_of vv) - uint (raw_amount p))"
proof -
  obtain t1 where t1: "add_vote dv p t = Some t1" "power_of t1 = (power_of t)(side_of dv := power_of t (side_of dv) + uint (raw_amount p))"
    using add_vote_power [OF assms(2)] by blast
  then have le: "uint (raw_amount p) \<le> power_of t1 (side_of vv)" "power_of t1 (side_of vv) = power_of t (side_of vv)"
    using assms(1,3) by simp_all
  have "\<exists>t'. move_vote vv dv p t = Some t' \<and> power_of t' = (power_of t1)(side_of vv := power_of t1 (side_of vv) - uint (raw_amount p))"
    using vote_cases [of vv] vote_cases [of dv] assms(1) t1(1) le(1) sub_side [of p t1]
    unfolding move_vote_def add_vote_def by auto
  then show ?thesis using t1(2) le(2) by simp
qed

text \<open>The delegations of the delegators who voted, each with the vote.\<close>

type_synonym bond_vote = "tally_vote \<times> address \<times> amount"

definition bond_votes :: "proposal_votes \<Rightarrow> bond_vote list" where
  "bond_votes votes = concat (map (\<lambda>(d, bonds).
     case map_of (delegators_vote votes) d of
       None \<Rightarrow> []
     | Some v \<Rightarrow> map (\<lambda>(validator, p). (v, validator, p)) bonds) (delegator_voting_power votes))"

fun count_bonds :: "(address, tally_vote) hash_map \<Rightarrow> bond_vote list \<Rightarrow> tally \<Rightarrow> tally option option" where
  "count_bonds votes [] t = Some (Some t)"
| "count_bonds votes ((dv, validator, p) # rest) t = do {
     r \<leftarrow> count_delegations votes dv [(validator, p)] t;
     (case r of None \<Rightarrow> Some None | Some t \<Rightarrow> count_bonds votes rest t)
   }"

lemma count_bonds_append:
  "count_bonds votes (xs @ ys) t =
     Option.bind (count_bonds votes xs t) (\<lambda>r. case r of None \<Rightarrow> Some None | Some t \<Rightarrow> count_bonds votes ys t)"
proof (induction xs arbitrary: t)
  case (Cons x xs)
  obtain dv v p where x: "x = (dv, v, p)" by (cases x)
  then show ?case
    using Cons by (cases "count_delegations votes dv [(v, p)] t") (auto split: option.split)
qed simp

lemma count_delegations_bonds:
  "count_delegations votes dv bonds t = count_bonds votes (map (\<lambda>(v, p). (dv, v, p)) bonds) t"
proof (induction bonds arbitrary: t)
  case (Cons b bonds)
  obtain v p where b: "b = (v, p)" by (cases b)
  have "count_delegations votes dv bonds = count_bonds votes (map (\<lambda>(v, p). (dv, v, p)) bonds)" using Cons by blast
  then show ?case by (auto simp: b split: option.split bool.split)
qed simp

lemma count_delegators_bonds:
  "count_delegators votes ds t = count_bonds (validators_vote votes) (bond_votes (votes\<lparr>delegator_voting_power := ds\<rparr>)) t"
proof (induction ds arbitrary: t)
  case Nil
  then show ?case by (simp add: bond_votes_def)
next
  case (Cons d ds)
  obtain a bonds where d: "d = (a, bonds)" by (cases d)
  have "count_delegators votes ds = count_bonds (validators_vote votes) (bond_votes (votes\<lparr>delegator_voting_power := ds\<rparr>))"
    using Cons by blast
  then show ?case
    by (cases "map_of (delegators_vote votes) a")
      (simp_all add: d bond_votes_def count_bonds_append count_delegations_bonds)
qed

text \<open>The power on a side when every delegator who voted speaks for their own tokens and the validators
  who voted for the rest of theirs.\<close>

definition overridden :: "bond_vote list \<Rightarrow> address \<Rightarrow> int" where
  "overridden bonds validator = (\<Sum>(_, v, p) \<leftarrow> bonds. if v = validator then uint (raw_amount p) else 0)"

definition side_power :: "(address, tally_vote) hash_map \<Rightarrow> (address \<times> amount) list \<Rightarrow> bond_vote list \<Rightarrow> side \<Rightarrow> int" where
  "side_power votes powers bonds s =
     (\<Sum>(v, p) \<leftarrow> powers. if map_option side_of (map_of votes v) = Some s then uint (raw_amount p) - overridden bonds v else 0)
   + (\<Sum>(dv, _, p) \<leftarrow> bonds. if side_of dv = s then uint (raw_amount p) else 0)"

definition consistent :: "(address, tally_vote) hash_map \<Rightarrow> (address \<times> amount) list \<Rightarrow> bond_vote list \<Rightarrow> bool" where
  "consistent votes powers bonds \<longleftrightarrow>
     distinct (map fst powers) \<and> fst ` set votes \<subseteq> fst ` set powers
   \<and> (\<forall>(_, v) \<in> set votes. on_chain v) \<and> (\<forall>(dv, _, _) \<in> set bonds. on_chain dv)
   \<and> (\<forall>(v, p) \<in> set powers. overridden bonds v \<le> uint (raw_amount p))
   \<and> (\<Sum>(_, p) \<leftarrow> powers. uint (raw_amount p)) + (\<Sum>(_, _, p) \<leftarrow> bonds. uint (raw_amount p)) < 2 ^ 256"

lemma overridden_Cons: "overridden ((dv, v, p) # bonds) w = (if v = w then uint (raw_amount p) else 0) + overridden bonds w"
  by (simp add: overridden_def)

lemma overridden_nonneg: "0 \<le> overridden bonds v"
  by (auto simp: overridden_def intro!: sum_list_nonneg)

lemma overridden_append: "overridden (xs @ ys) w = overridden xs w + overridden ys w"
  by (simp add: overridden_def)

lemma side_power_Nil:
  "side_power votes powers [] s =
     (\<Sum>(v, p) \<leftarrow> powers. if map_option side_of (map_of votes v) = Some s then uint (raw_amount p) else 0)"
  by (simp add: side_power_def overridden_def cong: if_cong)

text \<open>What one more delegation changes.\<close>

lemma side_power_snoc:
  assumes "distinct (map fst powers)" "map_of votes v \<noteq> None \<Longrightarrow> v \<in> fst ` set powers"
  shows "side_power votes powers (bonds @ [(dv, v, p)]) s = side_power votes powers bonds s
    + (if side_of dv = s then uint (raw_amount p) else 0)
    - (if map_option side_of (map_of votes v) = Some s then uint (raw_amount p) else 0)"
proof -
  let ?c = "\<lambda>w. map_option side_of (map_of votes w) = Some s"
  have "(\<Sum>(w, q) \<leftarrow> powers. if ?c w then uint (raw_amount q) - overridden (bonds @ [(dv, v, p)]) w else 0)
      = (\<Sum>(w, q) \<leftarrow> powers. if ?c w then uint (raw_amount q) - overridden bonds w else 0)
        - (if v \<in> fst ` set powers \<and> ?c v then uint (raw_amount p) else 0)"
    using assms(1)
  proof (induction powers)
    case (Cons x powers)
    then show ?case by (cases x) (auto simp: overridden_append overridden_Cons overridden_def)
  qed simp
  moreover have "v \<in> fst ` set powers \<and> ?c v \<longleftrightarrow> ?c v" using assms(2) by auto
  ultimately show ?thesis by (simp add: side_power_def)
qed

lemma side_power_bounds:
  assumes "consistent votes powers (seen @ rest)"
  shows "0 \<le> side_power votes powers seen s" "side_power votes powers seen s < 2 ^ 256"
proof -
  have le: "overridden seen v \<le> uint (raw_amount p)" if "(v, p) \<in> set powers" for v p
    using that assms overridden_nonneg [of rest v] by (auto simp: consistent_def overridden_append)
  have "0 \<le> (\<Sum>(v, p) \<leftarrow> powers. if map_option side_of (map_of votes v) = Some s then uint (raw_amount p) - overridden seen v else 0)"
    using le by (intro sum_list_nonneg) auto
  moreover have "0 \<le> (\<Sum>(dv, _, p) \<leftarrow> seen. if side_of dv = s then uint (raw_amount p) else 0)"
    by (intro sum_list_nonneg) auto
  ultimately show "0 \<le> side_power votes powers seen s" by (simp add: side_power_def)
  have "(\<Sum>(v, p) \<leftarrow> powers. if map_option side_of (map_of votes v) = Some s then uint (raw_amount p) - overridden seen v else 0)
      \<le> (\<Sum>(_, p) \<leftarrow> powers. uint (raw_amount p))"
    using overridden_nonneg by (intro sum_list_mono) (auto simp: algebra_simps)
  moreover have "(\<Sum>(dv, _, p) \<leftarrow> seen. if side_of dv = s then uint (raw_amount p) else 0) \<le> (\<Sum>(_, _, p) \<leftarrow> seen. uint (raw_amount p))"
    by (intro sum_list_mono) auto
  moreover have "0 \<le> (\<Sum>(_, _, p) \<leftarrow> rest. uint (raw_amount p))" by (intro sum_list_nonneg) auto
  ultimately show "side_power votes powers seen s < 2 ^ 256"
    using assms by (simp add: side_power_def consistent_def)
qed

lemma count_bonds_power:
  assumes "consistent votes powers (seen @ rest)" "power_of t = side_power votes powers seen"
  shows "\<exists>t'. count_bonds votes rest t = Some (Some t') \<and> power_of t' = side_power votes powers (seen @ rest)"
  using assms
proof (induction rest arbitrary: seen t)
  case Nil
  then show ?case by simp
next
  case (Cons b rest)
  obtain dv v p where b: "b = (dv, v, p)" by (cases b)
  let ?seen = "seen @ [(dv, v, p)]"
  have con: "consistent votes powers (?seen @ rest)" using Cons.prems(1) by (simp add: b)
  have key: "map_of votes v \<noteq> None \<Longrightarrow> v \<in> fst ` set powers"
    using con by (auto simp: consistent_def map_of_eq_None_iff)
  have dist: "distinct (map fst powers)" using con by (simp add: consistent_def)
  have snoc: "side_power votes powers ?seen s = side_power votes powers seen s
      + (if side_of dv = s then uint (raw_amount p) else 0)
      - (if map_option side_of (map_of votes v) = Some s then uint (raw_amount p) else 0)" for s
    using dist key by (rule side_power_snoc)
  have bounds: "0 \<le> side_power votes powers ?seen s" "side_power votes powers ?seen s < 2 ^ 256" for s
    using side_power_bounds [OF con] by blast+
  have "\<exists>t'. count_delegations votes dv [(v, p)] t = Some (Some t') \<and> power_of t' = side_power votes powers ?seen"
  proof (cases "map_of votes v")
    case None
    then have "power_of t (side_of dv) + uint (raw_amount p) < 2 ^ 256"
      using bounds(2) [of "side_of dv"] snoc Cons.prems(2) by simp
    then show ?thesis
      using None add_vote_power [of t dv p] snoc Cons.prems(2) by (auto simp: fun_eq_iff)
  next
    case (Some vv)
    have "on_chain vv" "on_chain dv"
      using con map_of_SomeD [OF Some] by (auto simp: consistent_def)
    note same = same_side_on_chain [OF this]
    show ?thesis
    proof (cases "side_of vv = side_of dv")
      case True
      then show ?thesis using Some same snoc Cons.prems(2) by (auto simp: fun_eq_iff)
    next
      case False
      then have "power_of t (side_of dv) + uint (raw_amount p) < 2 ^ 256" "uint (raw_amount p) \<le> power_of t (side_of vv)"
        using bounds(2) [of "side_of dv"] bounds(1) [of "side_of vv"] snoc Some Cons.prems(2) by auto
      then show ?thesis
        using Some same False move_vote_power [OF False, of t p] snoc Cons.prems(2) by (auto simp: fun_eq_iff)
    qed
  qed
  then obtain t' where t': "count_delegations votes dv [(v, p)] t = Some (Some t')" "power_of t' = side_power votes powers ?seen"
    by blast
  then show ?case using Cons.IH [OF con t'(2)] by (simp add: b del: count_delegations.simps)
qed

lemma count_validators_power:
  assumes "\<forall>s. power_of t s + (\<Sum>(_, p) \<leftarrow> powers. uint (raw_amount p)) < 2 ^ 256"
  shows "\<exists>t'. count_validators votes powers t = Some t' \<and> (\<forall>s. power_of t' s = power_of t s
    + (\<Sum>(v, p) \<leftarrow> powers. if map_option side_of (map_of votes v) = Some s then uint (raw_amount p) else 0))"
  using assms
proof (induction powers arbitrary: t)
  case (Cons x powers)
  obtain v p where x: "x = (v, p)" by (cases x)
  have ge: "0 \<le> (\<Sum>(_, p) \<leftarrow> powers. uint (raw_amount p))" by (intro sum_list_nonneg) auto
  show ?case
  proof (cases "map_of votes v")
    case None
    have "\<forall>s. power_of t s + (\<Sum>(_, p) \<leftarrow> powers. uint (raw_amount p)) < 2 ^ 256"
    proof
      fix s
      have "power_of t s + (uint (raw_amount p) + (\<Sum>(_, p) \<leftarrow> powers. uint (raw_amount p))) < 2 ^ 256"
        using Cons.prems by (simp add: x)
      then show "power_of t s + (\<Sum>(_, p) \<leftarrow> powers. uint (raw_amount p)) < 2 ^ 256"
        using uint_ge_0 [of "raw_amount p"] by linarith
    qed
    then show ?thesis using Cons.IH None x by simp
  next
    case (Some vote)
    have "power_of t (side_of vote) + uint (raw_amount p) < 2 ^ 256"
      using Cons.prems [rule_format, of "side_of vote"] ge by (simp add: x)
    then obtain t1 where t1: "add_vote vote p t = Some t1"
        "power_of t1 = (power_of t)(side_of vote := power_of t (side_of vote) + uint (raw_amount p))"
      using add_vote_power by blast
    have "\<forall>s. power_of t1 s + (\<Sum>(_, p) \<leftarrow> powers. uint (raw_amount p)) < 2 ^ 256"
    proof
      fix s
      have "power_of t1 s \<le> power_of t s + uint (raw_amount p)" using t1(2) by simp
      then show "power_of t1 s + (\<Sum>(_, p) \<leftarrow> powers. uint (raw_amount p)) < 2 ^ 256"
        using Cons.prems [rule_format, of s] by (simp add: x)
    qed
    then obtain t' where "count_validators votes powers t1 = Some t'" "\<forall>s. power_of t' s = power_of t1 s
        + (\<Sum>(v, p) \<leftarrow> powers. if map_option side_of (map_of votes v) = Some s then uint (raw_amount p) else 0)"
      using Cons.IH by blast
    then show ?thesis using Some t1 by (auto simp: x)
  qed
qed simp

lemma side_power_total:
  assumes "consistent votes powers bonds"
  shows "side_power votes powers bonds YaySide + side_power votes powers bonds NaySide
    + side_power votes powers bonds AbstainSide < 2 ^ 256"
proof -
  let ?f = "\<lambda>s. \<lambda>(v, p). if map_option side_of (map_of votes v) = Some s then uint (raw_amount p) - overridden bonds v else 0"
  let ?g = "\<lambda>s. \<lambda>(dv, _, p). if side_of dv = s then uint (raw_amount p) else 0"
  have "sum_list (map (?f YaySide) powers) + sum_list (map (?f NaySide) powers) + sum_list (map (?f AbstainSide) powers)
      \<le> (\<Sum>(_, p) \<leftarrow> powers. uint (raw_amount p))"
    unfolding sum_list_addf [symmetric] using overridden_nonneg [of bonds] by (intro sum_list_mono) auto
  moreover have "sum_list (map (?g YaySide) bonds) + sum_list (map (?g NaySide) bonds) + sum_list (map (?g AbstainSide) bonds)
      \<le> (\<Sum>(_, _, p) \<leftarrow> bonds. uint (raw_amount p))"
    unfolding sum_list_addf [symmetric] by (intro sum_list_mono) auto
  ultimately show ?thesis using assms unfolding side_power_def consistent_def by linarith
qed

text \<open>The verdict over the integers.\<close>

fun passes :: "tally_type \<Rightarrow> int \<Rightarrow> int \<Rightarrow> int \<Rightarrow> int \<Rightarrow> bool" where
  "passes TwoThirds yay nay abstain tot = (2 * tot div 3 \<le> yay)"
| "passes OneHalfOverOneThird yay nay abstain tot = (tot div 3 \<le> yay + nay + abstain \<and> nay \<le> yay)"
| "passes LessOneHalfOverOneThirdNay yay nay abstain tot = (yay + nay + abstain < tot div 3 \<or> nay < yay)"

lemma sum_of_three_ex:
  assumes "uint (raw_amount a) + uint (raw_amount b) + uint (raw_amount c) < 2 ^ 256"
  shows "\<exists>s. sum_of_three a b c = Some s \<and> uint (raw_amount s) = uint (raw_amount a) + uint (raw_amount b) + uint (raw_amount c)"
proof -
  obtain d where d: "amount_add a b = Some d" "uint (raw_amount d) = uint (raw_amount a) + uint (raw_amount b)"
  proof -
    have "uint (raw_amount a) + uint (raw_amount b) < 2 ^ 256" using assms uint_ge_0 [of "raw_amount c"] by linarith
    then show ?thesis using amount_add_ex that by blast
  qed
  then show ?thesis using amount_add_ex [of d c] assms by (simp add: sum_of_three_def)
qed

lemma tally_result_new_exact:
  assumes "2 * uint (raw_amount total_power) < 2 ^ 256"
    and "uint (raw_amount yay) + uint (raw_amount nay) + uint (raw_amount abstain) < 2 ^ 256"
  shows "\<exists>r. tally_result_new tt yay nay abstain total_power = Some r \<and>
    (r = Passed \<longleftrightarrow> passes tt (uint (raw_amount yay)) (uint (raw_amount nay)) (uint (raw_amount abstain)) (uint (raw_amount total_power)))"
proof -
  obtain s where "sum_of_three yay nay abstain = Some s" "uint (raw_amount s) = uint (raw_amount yay) + uint (raw_amount nay) + uint (raw_amount abstain)"
    using sum_of_three_ex [OF assms(2)] by blast
  moreover obtain d where "amount_div_u64 total_power 3 = Some d" "uint (raw_amount d) = uint (raw_amount total_power) div 3"
    using amount_div_ex [of 3 total_power] by auto
  moreover obtain m where m: "amount_mul_u64 total_power 2 = Some m" "uint (raw_amount m) = uint (raw_amount total_power) * 2"
    using amount_mul_ex [of total_power 2] assms(1) by auto
  moreover obtain q where "amount_div_u64 m 3 = Some q" "uint (raw_amount q) = uint (raw_amount m) div 3"
    using amount_div_ex [of 3 m] by auto
  ultimately show ?thesis
    by (cases tt) (auto simp: tally_result_new_def word_le_def word_less_def mult.commute)
qed

section \<open>Properties\<close>

text \<open>(C11) The tally counts each token once. When the delegations that voted do not exceed the power of
  their validators and the sums fit, no order of the maps makes the tally panic, and the power of
  each side is that of the delegators who voted for it, each with all their delegations, and of the
  validators who voted for it, each with the power that no delegator has taken back by voting. The
  verdict is that of the thresholds, rounded down.\<close>

theorem tally_counts_each_token_once:
  assumes "consistent (validators_vote votes) (validator_voting_power votes) (bond_votes votes)"
    and "2 * uint (raw_amount total_power) < 2 ^ 256"
  shows "\<exists>r. compute_proposal_result votes total_power tally_at = Some r
    \<and> (let yay = side_power (validators_vote votes) (validator_voting_power votes) (bond_votes votes) YaySide;
           nay = side_power (validators_vote votes) (validator_voting_power votes) (bond_votes votes) NaySide;
           abstain = side_power (validators_vote votes) (validator_voting_power votes) (bond_votes votes) AbstainSide
       in uint (raw_amount (total_yay_power r)) = yay \<and> uint (raw_amount (total_nay_power r)) = nay
        \<and> uint (raw_amount (total_abstain_power r)) = abstain \<and> total_voting_power r = total_power
        \<and> (result r = Passed \<longleftrightarrow> passes tally_at yay nay abstain (uint (raw_amount total_power))))"
proof -
  let ?votes = "validators_vote votes" and ?powers = "validator_voting_power votes" and ?bonds = "bond_votes votes"
  let ?t = "\<lparr>yay_voting_power = Amount 0, nay_voting_power = Amount 0, abstain_voting_power = Amount 0\<rparr>"
  have zero: "power_of ?t s = 0" for s by (cases s) simp_all
  have "0 \<le> (\<Sum>(_, _, p) \<leftarrow> ?bonds. uint (raw_amount p))" by (intro sum_list_nonneg) auto
  then have "\<forall>s. power_of ?t s + (\<Sum>(_, p) \<leftarrow> ?powers. uint (raw_amount p)) < 2 ^ 256"
    using assms(1) unfolding zero consistent_def by linarith
  then obtain t1 where t1: "count_validators ?votes ?powers ?t = Some t1" "power_of t1 = side_power ?votes ?powers []"
    using count_validators_power [of ?t ?powers ?votes] by (auto simp: zero side_power_Nil fun_eq_iff)
  obtain t2 where t2: "count_bonds ?votes ?bonds t1 = Some (Some t2)" "power_of t2 = side_power ?votes ?powers ?bonds"
    using count_bonds_power [of ?votes ?powers "[]" ?bonds t1] assms(1) t1(2) by auto
  have p: "uint (raw_amount (yay_voting_power t2)) = side_power ?votes ?powers ?bonds YaySide"
    "uint (raw_amount (nay_voting_power t2)) = side_power ?votes ?powers ?bonds NaySide"
    "uint (raw_amount (abstain_voting_power t2)) = side_power ?votes ?powers ?bonds AbstainSide"
    using t2(2) by (simp_all flip: power_of.simps)
  obtain r where "tally_result_new tally_at (yay_voting_power t2) (nay_voting_power t2) (abstain_voting_power t2) total_power = Some r"
      "r = Passed \<longleftrightarrow> passes tally_at (side_power ?votes ?powers ?bonds YaySide) (side_power ?votes ?powers ?bonds NaySide)
        (side_power ?votes ?powers ?bonds AbstainSide) (uint (raw_amount total_power))"
    using tally_result_new_exact [OF assms(2)] side_power_total [OF assms(1)] unfolding p [symmetric] by blast
  moreover have "count_delegators votes (delegator_voting_power votes) t1 = Some (Some t2)"
    using t2(1) by (simp add: count_delegators_bonds)
  ultimately show ?thesis using t1(1) p by (simp add: compute_proposal_result_def Let_def)
qed

text \<open>A validator with a power of 10 votes nay, a delegator with 3 of these votes yay.\<close>

definition example_votes :: proposal_votes where
  "example_votes = \<lparr>validators_vote = [(Established [1], OnChain Nay)],
     validator_voting_power = [(Established [1], Amount 10)],
     delegators_vote = [(Established [2], OnChain (Yay DefaultVote))],
     delegator_voting_power = [(Established [2], [(Established [1], Amount 3)])]\<rparr>"

theorem tally_counts_each_token_once_witness:
  "\<exists>r. compute_proposal_result example_votes (Amount 10) TwoThirds = Some r
    \<and> uint (raw_amount (total_yay_power r)) = 3 \<and> uint (raw_amount (total_nay_power r)) = 7 \<and> result r = Rejected"
proof -
  have b: "bond_votes example_votes = [(OnChain (Yay DefaultVote), Established [1], Amount 3)]"
    by (simp add: bond_votes_def example_votes_def)
  have c: "consistent (validators_vote example_votes) (validator_voting_power example_votes) (bond_votes example_votes)"
    unfolding b by (simp add: consistent_def example_votes_def overridden_def on_chain_def)
  have "side_power (validators_vote example_votes) (validator_voting_power example_votes) (bond_votes example_votes) YaySide = 3"
    "side_power (validators_vote example_votes) (validator_voting_power example_votes) (bond_votes example_votes) NaySide = 7"
    unfolding b by (simp_all add: side_power_def example_votes_def overridden_def side_of.simps)
  then show ?thesis
    using tally_counts_each_token_once [OF c, of "Amount 10" TwoThirds] by (auto simp: Let_def) (metis tally_result.exhaust)
qed

section \<open>Voting periods\<close>

text \<open>The client and the validity predicate disagree on the last epoch in which a validator may vote:
  the client takes two thirds of the period, the predicate twice a third that is rounded down.\<close>

lemma validator_voting_periods:
  assumes "unat (voting_start_epoch p) + 2 * unat (voting_end_epoch p) < 2 ^ 64" "3 * unat cur < 2 ^ 64"
    and "voting_start_epoch p < voting_end_epoch p" "voting_start_epoch p \<le> cur"
  shows "can_be_voted p cur True =
      Some (3 * (unat cur - unat (voting_start_epoch p)) \<le> 2 * (unat (voting_end_epoch p) - unat (voting_start_epoch p)))"
    and "is_valid_validator_voting_period cur (voting_start_epoch p) (voting_end_epoch p) =
      Some (unat cur - unat (voting_start_epoch p) \<le> 2 * ((unat (voting_end_epoch p) - unat (voting_start_epoch p)) div 3))"
proof -
  let ?s = "voting_start_epoch p" and ?e = "voting_end_epoch p"
  have se: "unat ?s < unat ?e" "unat ?s \<le> unat cur" using assms(3,4) by (simp_all add: word_less_nat_alt word_le_nat_alt)
  obtain a where a: "checked_mul cur 3 = Some a" "unat a = unat cur * 3"
    using checked_mul_ex [of cur 3] assms(2) by auto
  obtain b where b: "checked_mul ?e 2 = Some b" "unat b = unat ?e * 2"
    using checked_mul_ex [of ?e 2] assms(1) by auto
  obtain c where c: "checked_add ?s b = Some c" "unat c = unat ?s + unat b"
    using checked_add_ex [of ?s b] assms(1) b(2) by auto
  show "can_be_voted p cur True = Some (3 * (unat cur - unat ?s) \<le> 2 * (unat ?e - unat ?s))"
    using a b c assms(4) se by (auto simp: can_be_voted_def word_le_nat_alt)
  have d: "checked_sub ?e ?s = Some (?e - ?s)" "unat (?e - ?s) = unat ?e - unat ?s"
    using assms(3) by (simp_all add: checked_sub_def unat_sub less_imp_le)
  have t: "checked_div (?e - ?s) 3 = Some ((?e - ?s) div 3)" "unat ((?e - ?s) div 3) = (unat ?e - unat ?s) div 3"
    using d(2) by (simp_all add: checked_div_def unat_div)
  have dl: "(unat ?e - unat ?s) div 3 \<le> unat ?e" by (meson div_le_dividend diff_le_self le_trans)
  obtain m where m: "checked_mul ((?e - ?s) div 3) 2 = Some m" "unat m = (unat ?e - unat ?s) div 3 * 2"
    using checked_mul_ex [of "(?e - ?s) div 3" 2] assms(1) t(2) dl by auto
  obtain l where l: "checked_add ?s m = Some l" "unat l = unat ?s + unat m"
    using checked_add_ex [of ?s m] assms(1) m(2) dl by auto
  show "is_valid_validator_voting_period cur ?s ?e = Some (unat cur - unat ?s \<le> 2 * ((unat ?e - unat ?s) div 3))"
    using d t m l assms(3) se by (simp add: is_valid_validator_voting_period_def word_le_nat_alt word_less_nat_alt le_diff_conv algebra_simps)
qed

text \<open>So in a period of five epochs that starts at 10 the client lets a validator vote in epoch 13, and the
  predicate rejects the vote.\<close>

lemma validator_vote_rejected:
  assumes "voting_start_epoch p = 10" "voting_end_epoch p = 15"
  shows "can_be_voted p 13 True = Some True" "is_valid_validator_voting_period 13 (voting_start_epoch p) (voting_end_epoch p) = Some False"
  using validator_voting_periods [of p 13] assms by simp_all

text \<open>The client cannot build a vote that abstains.\<close>

lemma abstain_cannot_be_built: "build_vote v t = None \<longleftrightarrow> v = CliAbstain"
  by (cases v; cases t) simp_all

lemma built_votes_are_compatible: "build_vote v t = Some w \<Longrightarrow> is_compatible w t"
  by (cases v; cases t) auto

end
