(* ===== verification/Spec2Isabelle.thy ===== *)
theory Spec2Isabelle
  imports Prelude Containers Numbers Uint_Division Signed_Int Decimal_Text Decimals Token_Amount
    Address Gas Vp_Execution Storage_Key Token_Keys Epochs Eth_Events_Queue Write_Log Block_Time Wl_Storage
    Effects Vp_Host_Fns Token_Storage Multitoken_Vp Pos_Params Epoched Governance
begin

text \<open>
  Verification of the state machine of the Namada ledger.

  \<^bold>\<open>The program.\<close> Namada is a proof-of-stake ledger. A node runs a shell (\<open>apps/\<close>) that receives blocks
  from the consensus engine. Every transaction of a block changes the storage through a write log, its
  gas is metered, and the validity predicates of all accounts it touched are run in parallel
  (\<open>shared/src/ledger/protocol\<close>); when all accept, the log of the transaction is committed to the log of
  the block, and at the end of the block that log is committed to the database (\<open>core/src/ledger/storage\<close>).
  Storage keys, addresses, epochs, amounts and decimals are the types these steps work on
  (\<open>core/src/types\<close>). The protocol moves tokens with the functions of \<open>core/src/ledger/storage_api\<close>, and the
  native predicate of the multitoken account (\<open>shared/src/ledger/native_vp\<close>) checks what a transaction did
  to balances. Proof of stake (\<open>proof_of_stake/\<close>) keeps its data by epoch, and governance
  (\<open>core/src/ledger/governance\<close>) tallies the votes of validators and delegators.

  \<^bold>\<open>Conventions.\<close> Machine integers are words of their width. Overflow checks are on in release builds, so
  an arithmetic operator is a checked operation and \<open>None\<close> stands for a panic; a Rust \<open>Option\<close> whose
  computation may also panic is an \<open>option option\<close> with the panic outside. \<open>Result\<close> is a sum with the
  error on the left; where a function that returns a \<open>Result\<close> also panics, its error type has a constructor
  for the panic (\<open>HostPanic\<close>, \<open>Panicked\<close>). Methods that mutate \<open>self\<close> return the new state. \<open>HashMap\<close> and
  \<open>BTreeMap\<close> are association lists under the interface of theory \<open>Containers\<close>, in which the order of a
  \<open>BTreeMap\<close> is that of its keys and that of a \<open>HashMap\<close> is left open by the lemmas. A \<open>BTreeSet\<close> whose
  elements have an \<open>Ord\<close> of their own is a list sorted by it.

  \<^bold>\<open>Theories, sources and results.\<close>
  \<^item> \<open>Prelude\<close>: types of words, results, checked arithmetic. \<open>Containers\<close>: the locale \<open>finite_map\<close> with
    its two interpretations, and the locale \<open>keyed_order\<close> of sets whose order compares a part of the
    elements. \<open>Numbers\<close>: comparison, arrays with bounds checks, multi-limb numbers. \<open>Effects\<close>: computations
    on a mutable state that may fail, with \<open>?\<close> as their bind.
  \<^item> \<open>Uint_Division\<close> (\<open>types/uint.rs\<close>, \<open>impl Uint\<close>): 512-bit division by Knuth's algorithm D, limb by limb
    as in the source, proved equal to \<open>div\<close> and \<open>mod\<close>; multiplication followed by division, with the
    quotients that do not fit; the gcd loop, a \<open>partial_function\<close> that is proved to return.
  \<^item> \<open>Signed_Int\<close> (\<open>types/uint.rs\<close>, \<open>I256\<close>): a refinement of integer arithmetic, with the wrap-around of
    \<open>+\<close> and \<open>*\<close> and the conversions to \<open>i128\<close>.
  \<^item> \<open>Decimal_Text\<close>, \<open>Decimals\<close> (\<open>types/dec.rs\<close>): fixed-point decimals, exact arithmetic up to truncation,
    rounding, text form.
  \<^item> \<open>Token_Amount\<close> (\<open>types/token.rs\<close>): amounts, denominated amounts (order, sums, text) and the split into
    MASP denominations.
  \<^item> \<open>Address\<close> (\<open>types/address.rs\<close>, \<open>types/address/raw.rs\<close>): canonical encoding. \<open>Storage_Key\<close>
    (\<open>types/storage.rs\<close>): keys, text form, prefixes, reserved keys. \<open>Token_Keys\<close> (\<open>types/token.rs\<close>): keys of
    balances and minters. \<open>Epochs\<close> (\<open>types/storage.rs\<close>): the table of epochs. \<open>Eth_Events_Queue\<close>
    (\<open>types/storage.rs\<close>): confirmed Ethereum events leave the queue in nonce order.
  \<^item> \<open>Gas\<close> (\<open>ledger/gas.rs\<close>): meters charge exactly and the merge of parallel meters is independent of
    the grouping. \<open>Vp_Execution\<close> (\<open>shared/src/ledger/protocol/mod.rs\<close>): the result of running the
    verifiers does not depend on how the thread pool cuts them into segments.
  \<^item> \<open>Write_Log\<close> (\<open>ledger/storage/write_log.rs\<close>): atomicity of transactions, verifiers of changed keys, an
    invariant of all reachable logs, and which IBC events the ordered set of events keeps.
    \<open>Block_Time\<close> (\<open>types/time.rs\<close>): times and durations with the panics of their sums. \<open>Wl_Storage\<close>
    (\<open>ledger/storage/wl_storage.rs\<close>, \<open>ledger/storage/mod.rs\<close>): committing a block keeps every read exactly when
    the Merkle tree accepts its entries, iteration agrees with reads, epochs follow blocks and switch as
    a reference schedule says.
  \<^item> \<open>Vp_Host_Fns\<close> (\<open>shared/src/ledger/vp_host_fns.rs\<close>): the reads of a validity predicate before and after
    the transaction, with their gas. \<open>Token_Storage\<close> (\<open>ledger/storage_api/token.rs\<close>): transfers, minting and
    burning over any storage that satisfies the locale \<open>storage_api\<close>, interpreted on the storage with its
    write log; what they do to balances and supplies, and that stored values keep decoding.
    \<open>Multitoken_Vp\<close> (\<open>shared/src/ledger/native_vp/multitoken.rs\<close>): an accepted transaction conserves tokens
    while balances stay below \<open>2 ^ 255\<close>, and an example of what is accepted above.
  \<^item> \<open>Pos_Params\<close> (\<open>proof_of_stake/src/parameters.rs\<close>): the parameters and the offsets in epochs computed from
    them. \<open>Epoched\<close> (\<open>proof_of_stake/src/epoched.rs\<close>): values and changes by epoch; trimming old epochs is
    not noticed by the reads of epochs that are kept (locale \<open>delta_data\<close> for the changes, interpreted on
    signed changes and on amounts).
  \<^item> \<open>Governance\<close> (\<open>ledger/governance/utils.rs\<close>, \<open>ledger/governance/storage/\<close>): proposals, votes and the
    tally, which counts every token once.

  \<^bold>\<open>Parameters.\<close> Code outside the repository is an argument of the definitions: the helpers that the
  \<open>uint\<close> crate generates (record \<open>uint_prims\<close>, hypothesis \<open>prims_ok\<close>, instance \<open>plain_prims\<close>), printing and
  parsing of unsigned integers (\<open>uint_text\<close>, \<open>text_ok\<close>, \<open>plain_text\<close>), the Bech32m text of addresses
  (\<open>addr_codec\<close>, \<open>codec_ok\<close>, \<open>hex_codec\<close>), the execution of one validity predicate (\<open>vp_env\<close>,
  \<open>keeps_meter\<close>), the dates of the \<open>chrono\<close> crate (\<open>chrono\<close>, \<open>chrono_ok\<close>, \<open>plain_chrono\<close>), the binary encoding
  of stored values (\<open>borsh_codec\<close>, \<open>borsh_ok\<close>, \<open>plain_borsh\<close>), the conversion of a \<open>Uint\<close> to \<open>i64\<close>, and the
  text of heights and hashes with the Merkle tree (\<open>storage_env\<close>, \<open>env_ok\<close>, \<open>plain_env\<close>). Nothing is assumed
  of the tree: \<open>tree_run\<close> is the result of its updates, error or tree. The database is the in-memory one of the repository. Every theorem that relies on such a hypothesis has
  a witness with a concrete instance.

  \<^bold>\<open>Bounds and fuel.\<close> The loops of the division and of the text conversions are structural or folds over
  index ranges, as in the source. The iterator over the Ethereum events takes one more than the
  length of the queue as fuel, which is enough because every step removes an event; the loops of
  \<open>Epoched\<close> have termination proofs. No theorem bounds the size of a log, a queue or a number except by
  the width of its type, apart from two: conservation of tokens assumes sums of balances below
  \<open>2 ^ 255\<close>, and the epoch schedule that the epoch number does not overflow. The gas of an access to the
  log is the natural number of its key and value lengths; charging it panics unless it fits into 64
  bits.

  \<^bold>\<open>Not modelled.\<close> Of proof of stake the bonds, redelegations, slashes, rewards and validator sets; of
  governance its validity predicate, its storage and the texts of proposals; the shielded pool, IBC, the
  Ethereum bridge apart from its queue, the consensus shell, the client SDK, the WASM runtime, the
  macros, and everything that is input/output or cryptography. These are either large protocols of
  their own that only meet the modelled state through reads and writes of the storage, or code whose
  behaviour is that of libraries outside the repository. Of the host functions, those that return block
  headers, hashes, the chain id and the native token are left out, and of the storage the block
  metadata, pruning and historical reads.
\<close>

end
